(* ===== verification/Prelude.thy ===== *)
theory Prelude
  imports Main "HOL-Library.Word"
begin

text \<open>
  Shared vocabulary of the JunCore development: the machine types of the 64-bit Windows
  target (\<open>char\<close> is a byte, \<open>int\<close> and \<open>long\<close> have 32 bits, pointers and \<open>size_t\<close> have 64),
  memory faults as values, block reads and writes on a byte list, little-endian encoding of
  machine integers, and the generic list and word lemmas the components use.
\<close>

unbundle bit_operations_syntax

section \<open>Machine types\<close>

type_synonym byte = "8 word"
type_synonym u16 = "16 word"
type_synonym u32 = "32 word"
type_synonym u64 = "64 word"
type_synonym addr = "64 word"

text \<open>A C \<open>int\<close> is a 32-bit word read with \<^const>\<open>sint\<close>; converting it to \<open>size_t\<close> or to an
  address sign-extends it (\<open>scast\<close>).\<close>

type_synonym c_int = "32 word"

text \<open>What the hardware or the runtime does when the code leaves a memory block, follows or frees a bad pointer, or
  executes \<open>throw;\<close> with no active exception.\<close>

datatype fault = ReadOverrun | WriteOverrun | Terminate | NullDeref | BadFree | UseAfterFree

text \<open>Sequencing of fallible steps: the first fault ends the computation.\<close>

definition rbind :: "'e + 'a \<Rightarrow> ('a \<Rightarrow> 'e + 'b) \<Rightarrow> 'e + 'b" where
  "rbind m k = (case m of Inl e \<Rightarrow> Inl e | Inr x \<Rightarrow> k x)"

lemma rbind_simps [simp]: "rbind (Inl e) k = Inl e" "rbind (Inr x) k = k x"
  by (simp_all add: rbind_def)

lemma rbind_eq_Inr: "rbind m k = Inr y \<longleftrightarrow> (\<exists>x. m = Inr x \<and> k x = Inr y)"
  by (cases m) auto

text \<open>Sequencing of fallible steps that may also not return (\<open>None\<close>).\<close>

definition xbind :: "('e + 'a) option \<Rightarrow> ('a \<Rightarrow> ('e + 'b) option) \<Rightarrow> ('e + 'b) option" where
  "xbind m k = (case m of None \<Rightarrow> None | Some (Inl e) \<Rightarrow> Some (Inl e) | Some (Inr x) \<Rightarrow> k x)"

lemma xbind_simps [simp]: "xbind None k = None" "xbind (Some (Inl e)) k = Some (Inl e)" "xbind (Some (Inr x)) k = k x"
  by (simp_all add: xbind_def)

section \<open>Collections of facts\<close>

named_theorems ring_simps \<open>offsets and sizes of the ring buffer\<close>
named_theorems le_simps \<open>little-endian encoding\<close>

section \<open>Blocks of bytes\<close>

definition slice :: "'a list \<Rightarrow> nat \<Rightarrow> nat \<Rightarrow> 'a list" where
  "slice xs i n = take n (drop i xs)"

definition overwrite :: "'a list \<Rightarrow> nat \<Rightarrow> 'a list \<Rightarrow> 'a list" where
  "overwrite xs i ys = take i xs @ ys @ drop (i + length ys) xs"

lemma length_slice [simp]: "i + n \<le> length xs \<Longrightarrow> length (slice xs i n) = n"
  by (simp add: slice_def)

lemma nth_slice [simp]: "i + n \<le> length xs \<Longrightarrow> k < n \<Longrightarrow> slice xs i n ! k = xs ! (i + k)"
  by (simp add: slice_def)

lemma slice_0 [simp]: "slice xs i 0 = []"
  by (simp add: slice_def)

lemma length_overwrite [simp]:
  "i + length ys \<le> length xs \<Longrightarrow> length (overwrite xs i ys) = length xs"
  by (simp add: overwrite_def)

lemma nth_overwrite:
  assumes "i + length ys \<le> length xs" and "k < length xs"
  shows "overwrite xs i ys ! k = (if i \<le> k \<and> k < i + length ys then ys ! (k - i) else xs ! k)"
  using assms by (auto simp: overwrite_def nth_append)

lemma overwrite_Nil [simp]: "overwrite xs i [] = xs"
  by (simp add: overwrite_def)

lemma slice_overwrite_same:
  "i + length ys \<le> length xs \<Longrightarrow> slice (overwrite xs i ys) i (length ys) = ys"
  by (simp add: overwrite_def slice_def)

lemma take_overwrite_below: "i + length ys \<le> length xs \<Longrightarrow> j \<le> i \<Longrightarrow> take j (overwrite xs i ys) = take j xs"
  by (simp add: overwrite_def)

section \<open>Words as numbers\<close>

lemma unat_less_power: "unat (w :: 'a::len word) < 2 ^ LENGTH('a)"
  by (fact unsigned_less)

lemma unat_byte_less: "unat (b :: byte) < 256"
  using unat_less_power [of b] by simp

lemma scast_of_nat: "n < 2 ^ 31 \<Longrightarrow> (scast (of_nat n :: c_int) :: u64) = of_nat n"
proof -
  assume n: "n < 2 ^ 31"
  have "sint (of_nat n :: c_int) = signed_take_bit 31 (int n)"
    by (simp add: signed_of_nat)
  also have "\<dots> = int n"
    using n by (simp add: signed_take_bit_int_eq_self)
  finally show ?thesis
    by (simp add: scast_eq)
qed

lemma sint_of_nat_c_int: "n < 2 ^ 31 \<Longrightarrow> sint (of_nat n :: c_int) = int n"
  by (simp add: signed_of_nat signed_take_bit_int_eq_self)

lemma sint_inc:
  assumes "0 \<le> sint (w :: c_int)" "sint w < 2 ^ 31 - 1"
  shows "sint (w + 1) = sint w + 1"
proof -
  have "w + 1 = of_nat (nat (sint w) + 1)" using assms(1) by simp
  moreover have "sint (of_nat (nat (sint w) + 1) :: c_int) = int (nat (sint w) + 1)"
    using assms by (intro sint_of_nat_c_int) simp
  ultimately show ?thesis using assms(1) by (simp add: add.commute)
qed

lemma ucast_of_nat: "n < 2 ^ 32 \<Longrightarrow> (ucast (of_nat n :: u64) :: c_int) = of_nat n"
  by (simp add: unsigned_of_nat take_bit_nat_eq_self)

lemma unat_of_nat_u64: "n < 2 ^ 64 \<Longrightarrow> unat (of_nat n :: u64) = n"
  by (simp add: unat_of_nat)

lemma unat_of_nat_u32: "n < 2 ^ 32 \<Longrightarrow> unat (of_nat n :: u32) = n"
  by (simp add: unat_of_nat)

lemma of_nat_less_u64: "m < 2 ^ 64 \<Longrightarrow> n < 2 ^ 64 \<Longrightarrow> (of_nat m :: u64) < of_nat n \<longleftrightarrow> m < n"
  by (simp add: word_less_nat_alt unat_of_nat)

lemma of_nat_le_u64: "m < 2 ^ 64 \<Longrightarrow> n < 2 ^ 64 \<Longrightarrow> (of_nat m :: u64) \<le> of_nat n \<longleftrightarrow> m \<le> n"
  by (simp add: word_le_nat_alt unat_of_nat)

section \<open>Little-endian encoding\<close>

text \<open>The bytes of a machine integer in memory order, and the integer of a byte run. The
  target is little-endian, so a \<open>reinterpret_cast\<close> or a \<open>memmove\<close> of an integer reads and
  writes these bytes.\<close>

fun le_bytes :: "nat \<Rightarrow> nat \<Rightarrow> byte list" where
  "le_bytes 0 v = []"
| "le_bytes (Suc n) v = of_nat (v mod 256) # le_bytes n (v div 256)"

fun of_le_bytes :: "byte list \<Rightarrow> nat" where
  "of_le_bytes [] = 0"
| "of_le_bytes (b # bs) = unat b + 256 * of_le_bytes bs"

lemma length_le_bytes [simp]: "length (le_bytes n v) = n"
  by (induction n arbitrary: v) auto

lemma of_le_bytes_le_bytes [le_simps]: "of_le_bytes (le_bytes n v) = v mod 256 ^ n"
proof (induction n arbitrary: v)
  case 0
  then show ?case by simp
next
  case (Suc n)
  have "unat (of_nat (v mod 256) :: byte) = v mod 256"
    by (simp add: unat_of_nat)
  then show ?case
    by (simp add: Suc mod_mult2_eq)
qed

lemma of_le_bytes_bound: "of_le_bytes bs < 256 ^ length bs"
proof (induction bs)
  case Nil
  then show ?case by simp
next
  case (Cons b bs)
  have "unat b < 256"
    by (rule unat_byte_less)
  with Cons show ?case by simp
qed

lemma le_bytes_of_le_bytes [le_simps]: "le_bytes (length bs) (of_le_bytes bs) = bs"
proof (induction bs)
  case Nil
  then show ?case by simp
next
  case (Cons b bs)
  have "unat b < 256"
    by (rule unat_byte_less)
  then have "(unat b + 256 * of_le_bytes bs) mod 256 = unat b"
    and "(unat b + 256 * of_le_bytes bs) div 256 = of_le_bytes bs"
    by simp_all
  with Cons show ?case by simp
qed

definition bytes_of_word :: "'a::len word \<Rightarrow> byte list" where
  "bytes_of_word w = le_bytes (LENGTH('a) div 8) (unat w)"

definition word_of_bytes :: "byte list \<Rightarrow> 'a::len word" where
  "word_of_bytes bs = of_nat (of_le_bytes bs)"

lemma length_bytes_of_word [simp]: "length (bytes_of_word (w :: 'a::len word)) = LENGTH('a) div 8"
  by (simp add: bytes_of_word_def)

lemma word_of_bytes_of_word [le_simps]:
  assumes "8 dvd LENGTH('a)"
  shows "word_of_bytes (bytes_of_word (w :: 'a::len word)) = w"
proof -
  have "(256::nat) ^ (LENGTH('a) div 8) = 2 ^ (8 * (LENGTH('a) div 8))"
    by (simp add: power_mult)
  also have "8 * (LENGTH('a) div 8) = LENGTH('a)"
    using assms by simp
  finally have "(256::nat) ^ (LENGTH('a) div 8) = 2 ^ LENGTH('a)" .
  then show ?thesis
    by (simp add: word_of_bytes_def bytes_of_word_def le_simps)
qed

lemma unat_word_of_bytes_u32: "length bs = 4 \<Longrightarrow> unat (word_of_bytes bs :: u32) = of_le_bytes bs"
  using of_le_bytes_bound [of bs] by (simp add: word_of_bytes_def unat_of_nat)

lemma unat_ucast_u32_u64: "unat (ucast (w :: u32) :: u64) = unat w"
  using unat_less_power [of w] by (simp add: unsigned_ucast_eq take_bit_nat_eq_self)

text \<open>One thread or variable among many changes.\<close>

lemma ex_upd: "(\<exists>u. P ((f(t := v)) u)) \<longleftrightarrow> P v \<or> (\<exists>u. u \<noteq> t \<and> P (f u))"
  by (metis fun_upd_apply)

lemma card_upd:
  assumes "finite {u. P (f u)}"
  shows "finite {u. P ((f(t := v)) u)}"
    "int (card {u. P ((f(t := v)) u)}) = int (card {u. P (f u)}) + (if P v then 1 else 0) - (if P (f t) then 1 else 0)"
proof -
  let ?A = "{u. P (f u)}"
  have *: "{u. P ((f(t := v)) u)} = (if P v then insert t ?A else ?A - {t})" by auto
  show "finite {u. P ((f(t := v)) u)}" using assms * by simp
  have "P (f t) \<Longrightarrow> 0 < card ?A" using assms by (auto simp: card_gt_0_iff)
  then show "int (card {u. P ((f(t := v)) u)}) = int (card ?A) + (if P v then 1 else 0) - (if P (f t) then 1 else 0)"
    using assms * by (auto simp: card_insert_if card_Diff_singleton of_nat_diff)
qed

end
