(* ===== verification/RingBuffer.thy ===== *)
theory RingBuffer
  imports Prelude
begin

text \<open>
  The receive buffer of a session (\<^verbatim>\<open>JunCommon/container/RingBuffer.h\<close> and \<^verbatim>\<open>.cpp\<close>).
  The object holds six pointers into one block that \<open>_aligned_malloc(8192, 8192)\<close> returned;
  the pointers are 64-bit addresses and the masks work on the addresses themselves, so the
  alignment of the block is what makes them wrap inside it. The bytes of the block are a list.
  A \<open>memmove\<close> that leaves the block is a fault.

  Shown here: every operation keeps the representation invariant, and the buffer implements a
  bounded byte queue of capacity 8191.
\<close>

section \<open>The object and its operations\<close>

definition BUF_SIZE :: nat where
  "BUF_SIZE = 8192"

definition MASKING_13BIT :: "addr \<Rightarrow> addr" where
  "MASKING_13BIT n = 0x1fff AND n"

definition MASKING_BIT :: "addr \<Rightarrow> addr" where
  "MASKING_BIT n = MASKING_13BIT n"

record RingBuffer =
  rb_begin :: addr
  rb_end :: addr
  rb_front :: addr
  rb_rear :: addr
  rb_readPos :: addr
  rb_writePos :: addr
  rb_block :: "byte list"

text \<open>The constructor; \<open>a\<close> is the address the allocator returned and \<open>m\<close> the bytes found there.\<close>

definition RingBuffer_ctor :: "addr \<Rightarrow> byte list \<Rightarrow> RingBuffer" where
  "RingBuffer_ctor a m =
     \<lparr>rb_begin = a, rb_end = a + of_nat BUF_SIZE, rb_front = a, rb_rear = a,
      rb_readPos = a + 1, rb_writePos = a + 1, rb_block = m\<rparr>"

definition SetReadPos :: "RingBuffer \<Rightarrow> RingBuffer" where
  "SetReadPos rb = rb\<lparr>rb_readPos := rb_begin rb + MASKING_BIT (rb_front rb + 1)\<rparr>"

definition SetWritePos :: "RingBuffer \<Rightarrow> RingBuffer" where
  "SetWritePos rb = rb\<lparr>rb_writePos := rb_begin rb + MASKING_BIT (rb_rear rb + 1)\<rparr>"

definition MoveFront :: "c_int \<Rightarrow> RingBuffer \<Rightarrow> RingBuffer" where
  "MoveFront sz rb =
     SetReadPos (rb\<lparr>rb_front := rb_begin rb + MASKING_BIT (rb_front rb + scast sz)\<rparr>)"

definition MoveRear :: "c_int \<Rightarrow> RingBuffer \<Rightarrow> RingBuffer" where
  "MoveRear sz rb =
     SetWritePos (rb\<lparr>rb_rear := rb_begin rb + MASKING_BIT (rb_rear rb + scast sz)\<rparr>)"

definition rb_Empty :: "RingBuffer \<Rightarrow> bool" where
  "rb_Empty rb \<longleftrightarrow> rb_front rb = rb_rear rb"

definition rb_Full :: "RingBuffer \<Rightarrow> bool" where
  "rb_Full rb \<longleftrightarrow> rb_front rb = rb_writePos rb"

definition rb_Clear :: "RingBuffer \<Rightarrow> RingBuffer" where
  "rb_Clear rb =
     (let rb1 = rb\<lparr>rb_front := rb_begin rb\<rparr>;
          rb2 = rb1\<lparr>rb_rear := rb_begin rb1\<rparr>;
          rb3 = rb2\<lparr>rb_writePos := rb_front rb2 + 1\<rparr>
      in rb3\<lparr>rb_readPos := rb_rear rb3 + 1\<rparr>)"

definition DirectEnqueueSize :: "RingBuffer \<Rightarrow> c_int" where
  "DirectEnqueueSize rb =
     (if rb_front rb < rb_writePos rb then ucast (rb_end rb - rb_writePos rb)
      else ucast (rb_front rb - rb_writePos rb))"

definition RemainEnqueueSize :: "RingBuffer \<Rightarrow> c_int" where
  "RemainEnqueueSize rb =
     (if rb_writePos rb \<le> rb_front rb then 0 else ucast (rb_front rb - rb_begin rb))"

definition DirectDequeueSize :: "RingBuffer \<Rightarrow> c_int" where
  "DirectDequeueSize rb =
     (if rb_writePos rb < rb_readPos rb then ucast (rb_end rb - rb_readPos rb)
      else ucast (rb_writePos rb - rb_readPos rb))"

definition RemainDequeueSize :: "RingBuffer \<Rightarrow> c_int" where
  "RemainDequeueSize rb =
     (if rb_readPos rb \<le> rb_writePos rb then 0 else ucast (rb_writePos rb - rb_begin rb))"

definition GetFreeSize :: "RingBuffer \<Rightarrow> c_int" where
  "GetFreeSize rb = DirectEnqueueSize rb + RemainEnqueueSize rb"

definition GetUseSize :: "RingBuffer \<Rightarrow> c_int" where
  "GetUseSize rb = DirectDequeueSize rb + RemainDequeueSize rb"

text \<open>\<open>memmove\<close> into and out of the block.\<close>

definition block_write :: "RingBuffer \<Rightarrow> addr \<Rightarrow> byte list \<Rightarrow> fault + RingBuffer" where
  "block_write rb p bs =
     (let i = unat (p - rb_begin rb)
      in if i + length bs \<le> length (rb_block rb)
         then Inr (rb\<lparr>rb_block := overwrite (rb_block rb) i bs\<rparr>) else Inl WriteOverrun)"

definition block_read :: "RingBuffer \<Rightarrow> addr \<Rightarrow> nat \<Rightarrow> fault + byte list" where
  "block_read rb p n =
     (let i = unat (p - rb_begin rb)
      in if i + n \<le> length (rb_block rb) then Inr (slice (rb_block rb) i n) else Inl ReadOverrun)"

text \<open>\<open>src\<close> is the memory readable from the source pointer on; a destination is modelled by the
  bytes that are stored there.\<close>

definition MustEnqueue :: "byte list \<Rightarrow> u64 \<Rightarrow> RingBuffer \<Rightarrow> fault + (c_int \<times> RingBuffer)" where
  "MustEnqueue src sz rb =
     (if length src < unat sz then Inl ReadOverrun
      else rbind (block_write rb (rb_writePos rb) (take (unat sz) src))
             (\<lambda>rb'. Inr (ucast sz, MoveRear (ucast sz) rb')))"

definition MustDequeue :: "u64 \<Rightarrow> RingBuffer \<Rightarrow> fault + (byte list \<times> c_int \<times> RingBuffer)" where
  "MustDequeue sz rb =
     rbind (block_read rb (rb_readPos rb) (unat sz))
       (\<lambda>bs. Inr (bs, ucast sz, MoveFront (ucast sz) rb))"

definition MustPeek :: "RingBuffer \<Rightarrow> addr \<Rightarrow> u64 \<Rightarrow> fault + (byte list \<times> c_int)" where
  "MustPeek rb src sz = rbind (block_read rb src (unat sz)) (\<lambda>bs. Inr (bs, ucast sz))"

definition Enqueue :: "byte list \<Rightarrow> u64 \<Rightarrow> RingBuffer \<Rightarrow> fault + (c_int \<times> RingBuffer)" where
  "Enqueue src size_arg rb =
     (let free_size = GetFreeSize rb;
          sz = (if scast free_size < size_arg then scast free_size else size_arg);
          direct_size = DirectEnqueueSize rb
      in if sz \<le> scast direct_size then MustEnqueue src sz rb
         else rbind (MustEnqueue src (scast direct_size) rb)
                (\<lambda>(_, rb'). rbind (MustEnqueue (drop (unat direct_size) src)
                                     (sz - scast direct_size) rb')
                   (\<lambda>(n, rb''). Inr (direct_size + n, rb''))))"

definition Dequeue :: "u64 \<Rightarrow> RingBuffer \<Rightarrow> fault + (byte list \<times> c_int \<times> RingBuffer)" where
  "Dequeue size_arg rb =
     (let use_size = GetUseSize rb;
          sz = (if scast use_size < size_arg then scast use_size else size_arg);
          direct_size = DirectDequeueSize rb
      in if sz \<le> scast direct_size then MustDequeue sz rb
         else rbind (MustDequeue (scast direct_size) rb)
                (\<lambda>(bs1, _, rb'). rbind (MustDequeue (sz - scast direct_size) rb')
                   (\<lambda>(bs2, n, rb''). Inr (bs1 @ bs2, direct_size + n, rb''))))"

definition Peek :: "u64 \<Rightarrow> RingBuffer \<Rightarrow> fault + (byte list \<times> c_int)" where
  "Peek size_arg rb =
     (let use_size = GetUseSize rb;
          sz = (if scast use_size < size_arg then scast use_size else size_arg);
          direct_size = DirectDequeueSize rb
      in if sz \<le> scast direct_size then MustPeek rb (rb_readPos rb) sz
         else rbind (MustPeek rb (rb_readPos rb) (scast direct_size))
                (\<lambda>(bs1, _). rbind (MustPeek rb (rb_begin rb) (sz - scast direct_size))
                   (\<lambda>(bs2, n). Inr (bs1 @ bs2, direct_size + n))))"

section \<open>Representation\<close>

text \<open>What the allocator promises of the block.\<close>

definition aligned_block :: "addr \<Rightarrow> bool" where
  "aligned_block a \<longleftrightarrow> unat a mod 8192 = 0 \<and> unat a + 8192 < 2 ^ 64"

text \<open>The buffer whose first unread byte is at offset \<open>f + 1\<close> and that holds \<open>n\<close> bytes.\<close>

definition mk_ring :: "addr \<Rightarrow> nat \<Rightarrow> nat \<Rightarrow> byte list \<Rightarrow> RingBuffer" where
  "mk_ring a f n m =
     \<lparr>rb_begin = a, rb_end = a + 8192, rb_front = a + of_nat f,
      rb_rear = a + of_nat ((f + n) mod 8192), rb_readPos = a + of_nat ((f + 1) mod 8192),
      rb_writePos = a + of_nat ((f + n + 1) mod 8192), rb_block = m\<rparr>"

definition rb_off :: "RingBuffer \<Rightarrow> addr \<Rightarrow> nat" where
  "rb_off rb p = unat (p - rb_begin rb)"

definition rb_used :: "RingBuffer \<Rightarrow> nat" where
  "rb_used rb = (rb_off rb (rb_rear rb) + 8192 - rb_off rb (rb_front rb)) mod 8192"

definition RB_inv :: "RingBuffer \<Rightarrow> bool" where
  "RB_inv rb \<longleftrightarrow> aligned_block (rb_begin rb) \<and> length (rb_block rb) = 8192 \<and>
     rb_off rb (rb_front rb) < 8192 \<and> rb_off rb (rb_rear rb) < 8192 \<and>
     rb = mk_ring (rb_begin rb) (rb_off rb (rb_front rb)) (rb_used rb) (rb_block rb)"

definition ring_data :: "byte list \<Rightarrow> nat \<Rightarrow> nat \<Rightarrow> byte list" where
  "ring_data m f n = map (\<lambda>i. m ! ((f + 1 + i) mod 8192)) [0..<n]"

text \<open>The bytes the buffer holds, oldest first.\<close>

definition rb_contents :: "RingBuffer \<Rightarrow> byte list" where
  "rb_contents rb = ring_data (rb_block rb) (rb_off rb (rb_front rb)) (rb_used rb)"

lemma length_ring_data [simp]: "length (ring_data m f n) = n"
  by (simp add: ring_data_def)

lemma mk_ring_sel [simp]:
  "rb_begin (mk_ring a f n m) = a" "rb_block (mk_ring a f n m) = m"
  "rb_end (mk_ring a f n m) = a + 8192" "rb_front (mk_ring a f n m) = a + of_nat f"
  "rb_rear (mk_ring a f n m) = a + of_nat ((f + n) mod 8192)"
  "rb_readPos (mk_ring a f n m) = a + of_nat ((f + 1) mod 8192)"
  "rb_writePos (mk_ring a f n m) = a + of_nat ((f + n + 1) mod 8192)"
  by (simp_all add: mk_ring_def)

lemma rb_off_mk [simp]: "k < 2 ^ 64 \<Longrightarrow> rb_off (mk_ring a f n m) (a + of_nat k) = k"
  by (simp add: rb_off_def unat_of_nat)

lemma wrap_distance:
  assumes "f < 8192" "n < 8192"
  shows "((f + n) mod 8192 + 8192 - f) mod 8192 = (n::nat)"
proof (cases "f + n < 8192")
  case False
  then have "(f + n) mod 8192 = f + n - 8192"
    using assms by (simp add: mod_if)
  then show ?thesis using False assms by simp
qed (use assms in simp)

lemma rb_used_mk [simp]: "f < 8192 \<Longrightarrow> n < 8192 \<Longrightarrow> rb_used (mk_ring a f n m) = n"
  using wrap_distance [of f n] by (simp add: rb_used_def del: of_nat_mod)

lemma RB_inv_mk:
  assumes "aligned_block a" "f < 8192" "n < 8192" "length m = 8192"
  shows "RB_inv (mk_ring a f n m)"
  using assms by (simp add: RB_inv_def del: of_nat_mod)

lemma RB_invE:
  assumes "RB_inv rb"
  obtains a f n m where "rb = mk_ring a f n m" "aligned_block a" "f < 8192" "n < 8192"
    "length m = 8192" "rb_contents rb = ring_data m f n"
proof -
  have "rb_used rb < 8192"
    by (simp add: rb_used_def)
  with assms show thesis
    by (intro that [of "rb_begin rb" "rb_off rb (rb_front rb)" "rb_used rb" "rb_block rb"])
      (auto simp: RB_inv_def rb_contents_def)
qed

lemma rb_contents_mk [simp]:
  "f < 8192 \<Longrightarrow> n < 8192 \<Longrightarrow> rb_contents (mk_ring a f n m) = ring_data m f n"
  by (simp add: rb_contents_def)

section \<open>Address arithmetic\<close>

lemma MASKING_BIT_take_bit: "MASKING_BIT x = take_bit 13 x"
  by (simp add: MASKING_BIT_def MASKING_13BIT_def take_bit_eq_mask mask_eq_exp_minus_1 and.commute)

lemma unat_MASKING_BIT: "unat (MASKING_BIT x) = unat x mod 8192"
  by (simp add: MASKING_BIT_take_bit take_bit_eq_mod unat_mod)

lemma MASKING_BIT_aligned:
  assumes "aligned_block a"
  shows "MASKING_BIT (a + of_nat k) = of_nat (k mod 8192)"
proof -
  have "unat (a + of_nat k) mod 8192 = (unat a + k) mod 2 ^ 64 mod 8192"
    by (simp add: unat_word_ariths unat_of_nat mod_simps)
  also have "\<dots> = (unat a + k) mod 8192"
    by (rule mod_mod_cancel) simp
  also have "\<dots> = k mod 8192"
    using assms by (metis aligned_block_def add.commute add.right_neutral mod_add_right_eq)
  finally have "unat (MASKING_BIT (a + of_nat k)) = k mod 8192"
    by (simp add: unat_MASKING_BIT)
  then show ?thesis
    by (simp add: word_unat_eq_iff unat_of_nat)
qed

lemma unat_ptr: "aligned_block a \<Longrightarrow> i \<le> 8192 \<Longrightarrow> unat (a + of_nat i) = unat a + i"
  by (simp add: aligned_block_def unat_word_ariths unat_of_nat)

lemma ptr_less:
  "aligned_block a \<Longrightarrow> i \<le> 8192 \<Longrightarrow> j \<le> 8192 \<Longrightarrow> a + of_nat i < a + of_nat j \<longleftrightarrow> i < j"
  by (simp add: word_less_nat_alt unat_ptr)

lemma ptr_le:
  "aligned_block a \<Longrightarrow> i \<le> 8192 \<Longrightarrow> j \<le> 8192 \<Longrightarrow> a + of_nat i \<le> a + of_nat j \<longleftrightarrow> i \<le> j"
  by (simp add: word_le_nat_alt unat_ptr)

lemma ptr_diff: "i \<le> j \<Longrightarrow> j \<le> 8192 \<Longrightarrow> (ucast (of_nat j - of_nat i :: addr) :: c_int) = of_nat (j - i)"
  using ucast_of_nat [of "j - i"] by (simp add: of_nat_diff)

lemma ptr_diff_end: "i \<le> 8192 \<Longrightarrow> (ucast (8192 - of_nat i :: addr) :: c_int) = of_nat (8192 - i)"
  using ptr_diff [of i 8192] by simp

lemma ptr_eq: "i < 2 ^ 64 \<Longrightarrow> j < 2 ^ 64 \<Longrightarrow> (of_nat i = (of_nat j :: addr)) \<longleftrightarrow> i = j"
  by (metis unat_of_nat_u64)

text \<open>The four sizes of the header as numbers: with the reader at offset \<open>p\<close> and the writer at
  offset \<open>w\<close>, where \<open>f\<close> is the offset of \<open>front\<close>.\<close>

lemmas ptr_simps = ptr_less ptr_le ptr_diff ptr_diff_end

lemma header_sizes_at:
  assumes "aligned_block a" "rb_begin rb = a" "rb_end rb = a + 8192" "rb_front rb = a + of_nat f"
    "rb_writePos rb = a + of_nat w" "rb_readPos rb = a + of_nat p" "f < 8192" "w < 8192" "p < 8192"
  shows "DirectEnqueueSize rb = of_nat (if f < w then 8192 - w else f - w)"
    and "RemainEnqueueSize rb = of_nat (if w \<le> f then 0 else f)"
    and "DirectDequeueSize rb = of_nat (if w < p then 8192 - p else w - p)"
    and "RemainDequeueSize rb = of_nat (if p \<le> w then 0 else w)"
  using assms
  by (simp_all add: DirectEnqueueSize_def RemainEnqueueSize_def DirectDequeueSize_def
      RemainDequeueSize_def ptr_simps ucast_of_nat del: of_nat_diff)

lemma header_sizes:
  fixes f n :: nat
  assumes "aligned_block a" "f < 8192" "n < 8192"
  shows "DirectEnqueueSize (mk_ring a f n m) = of_nat (if f + n < 8191 then 8191 - (f + n) else 8191 - n)"
    and "RemainEnqueueSize (mk_ring a f n m) = of_nat (if f + n < 8191 then f else 0)"
    and "DirectDequeueSize (mk_ring a f n m) = of_nat (if f + n < 8191 \<or> f = 8191 then n else 8191 - f)"
    and "RemainDequeueSize (mk_ring a f n m) = of_nat (if f + n < 8191 \<or> f = 8191 then 0 else f + n - 8191)"
proof -
  define w p where "w = (f + n + 1) mod 8192" and "p = (f + 1) mod 8192"
  have w: "w = (if f + n < 8191 then f + n + 1 else f + n - 8191)"
    and p: "p = (if f = 8191 then 0 else f + 1)"
    using assms by (simp_all add: w_def p_def mod_if)
  note h = header_sizes_at [OF assms(1), of "mk_ring a f n m" f w p, unfolded mk_ring_sel,
      OF refl refl refl, folded w_def p_def, OF refl refl]
  show "DirectEnqueueSize (mk_ring a f n m) = of_nat (if f + n < 8191 then 8191 - (f + n) else 8191 - n)"
    using h(1) assms w p by (auto simp del: of_nat_diff)
  show "RemainEnqueueSize (mk_ring a f n m) = of_nat (if f + n < 8191 then f else 0)"
    using h(2) assms w p by (auto simp del: of_nat_diff)
  show "DirectDequeueSize (mk_ring a f n m) = of_nat (if f + n < 8191 \<or> f = 8191 then n else 8191 - f)"
    using h(3) assms w p by (auto simp del: of_nat_diff)
  show "RemainDequeueSize (mk_ring a f n m) = of_nat (if f + n < 8191 \<or> f = 8191 then 0 else f + n - 8191)"
    using h(4) assms w p by (auto simp del: of_nat_diff)
qed

lemma total_sizes:
  assumes "aligned_block a" "f < 8192" "n < 8192"
  shows "GetFreeSize (mk_ring a f n m) = of_nat (8191 - n)"
    and "GetUseSize (mk_ring a f n m) = of_nat n"
  using assms
  by (auto simp: GetFreeSize_def GetUseSize_def header_sizes simp flip: of_nat_add)

section \<open>The operations on the representation\<close>

lemma MASKING_step:
  assumes "aligned_block a" "k < 2 ^ 31"
  shows "MASKING_BIT (a + of_nat (i mod 8192) + scast (of_nat k :: c_int)) = of_nat ((i + k) mod 8192)"
proof -
  have "a + of_nat (i mod 8192) + scast (of_nat k :: c_int) = a + of_nat (i mod 8192 + k)"
    using assms(2) by (simp add: scast_of_nat)
  then show ?thesis
    using MASKING_BIT_aligned [OF assms(1), of "i mod 8192 + k"] by (simp add: mod_add_left_eq add.assoc)
qed

lemma MASKING_one:
  assumes "aligned_block a"
  shows "MASKING_BIT (a + of_nat (i mod 8192) + 1) = of_nat ((i + 1) mod 8192)"
  using MASKING_BIT_aligned [OF assms, of "i mod 8192 + 1"]
  by (simp add: ac_simps mod_Suc_eq)

lemma MoveRear_mk:
  assumes "aligned_block a" "k < 2 ^ 31"
  shows "MoveRear (of_nat k) (mk_ring a f n m) = mk_ring a f (n + k) m"
  using MASKING_step [OF assms, of "f + n"] MASKING_one [OF assms(1), of "f + n + k"]
  by (simp add: MoveRear_def SetWritePos_def mk_ring_def add.assoc)

lemma MoveFront_mk:
  assumes "aligned_block a" "f < 8192" "k \<le> n" "n < 8192"
  shows "MoveFront (of_nat k) (mk_ring a f n m) = mk_ring a ((f + k) mod 8192) (n - k) m"
proof -
  have "k < 2 ^ 31" using assms by simp
  from MASKING_step [OF assms(1) this, of f] MASKING_one [OF assms(1), of "f + k"] assms(2)
  have "MASKING_BIT (a + of_nat f + scast (of_nat k :: c_int)) = of_nat ((f + k) mod 8192)"
    and "MASKING_BIT (a + of_nat ((f + k) mod 8192) + 1) = of_nat ((f + k + 1) mod 8192)"
    by simp_all
  moreover have "((f + k) mod 8192 + (n - k)) mod 8192 = (f + n) mod 8192"
    "((f + k) mod 8192 + (n - k) + 1) mod 8192 = (f + n + 1) mod 8192"
    using assms(3) mod_add_left_eq [of "f + k" 8192 "n - k"] mod_add_left_eq [of "f + k" 8192 "n - k + 1"]
    by (simp_all del: mod_add_left_eq)
  ultimately show ?thesis
    by (simp add: MoveFront_def SetReadPos_def mk_ring_def mod_simps)
qed

lemma block_write_mk:
  assumes "i + length bs \<le> 8192" "length m = 8192"
  shows "block_write (mk_ring a f n m) (a + of_nat i) bs = Inr (mk_ring a f n (overwrite m i bs))"
  using assms by (simp add: block_write_def Let_def unat_of_nat mk_ring_def)

lemma block_read_mk:
  assumes "i + k \<le> 8192" "length m = 8192"
  shows "block_read (mk_ring a f n m) (a + of_nat i) k = Inr (slice m i k)"
  using assms by (simp add: block_read_def Let_def unat_of_nat)

lemma MustEnqueue_mk:
  assumes "aligned_block a" "length m = 8192" "k \<le> length src" "(f + n + 1) mod 8192 + k \<le> 8192"
  shows "MustEnqueue src (of_nat k) (mk_ring a f n m) =
     Inr (of_nat k, mk_ring a f (n + k) (overwrite m ((f + n + 1) mod 8192) (take k src)))"
proof -
  have k: "unat (of_nat k :: u64) = k" "(ucast (of_nat k :: u64) :: c_int) = of_nat k"
    using assms(4) by (simp_all add: unat_of_nat ucast_of_nat)
  have "block_write (mk_ring a f n m) (a + of_nat ((f + n + 1) mod 8192)) (take k src) =
      Inr (mk_ring a f n (overwrite m ((f + n + 1) mod 8192) (take k src)))"
    using assms(2-4) by (intro block_write_mk) auto
  moreover have "MoveRear (of_nat k) (mk_ring a f n m') = mk_ring a f (n + k) m'" for m'
    using assms by (intro MoveRear_mk) auto
  ultimately show ?thesis
    using assms(3) by (simp add: MustEnqueue_def k)
qed

lemma MustDequeue_mk:
  assumes "aligned_block a" "length m = 8192" "f < 8192" "k \<le> n" "n < 8192"
    "(f + 1) mod 8192 + k \<le> 8192"
  shows "MustDequeue (of_nat k) (mk_ring a f n m) =
     Inr (slice m ((f + 1) mod 8192) k, of_nat k, mk_ring a ((f + k) mod 8192) (n - k) m)"
proof -
  have k: "unat (of_nat k :: u64) = k" "(ucast (of_nat k :: u64) :: c_int) = of_nat k"
    using assms(4,5) by (simp_all add: unat_of_nat ucast_of_nat)
  have "block_read (mk_ring a f n m) (a + of_nat ((f + 1) mod 8192)) k = Inr (slice m ((f + 1) mod 8192) k)"
    using assms(2,6) by (intro block_read_mk)
  then show ?thesis
    using MoveFront_mk [OF assms(1,3,4,5)] by (simp add: MustDequeue_def k)
qed

lemma MustPeek_mk:
  assumes "length m = 8192" "i + k \<le> 8192"
  shows "MustPeek (mk_ring a f n m) (a + of_nat i) (of_nat k) = Inr (slice m i k, of_nat k)"
proof -
  have "unat (of_nat k :: u64) = k" "(ucast (of_nat k :: u64) :: c_int) = of_nat k"
    using assms(2) by (simp_all add: unat_of_nat ucast_of_nat)
  then show ?thesis
    using block_read_mk [OF assms(2,1)] by (simp add: MustPeek_def)
qed

section \<open>The queue of bytes in the block\<close>

lemma nth_ring_data [simp]: "i < n \<Longrightarrow> ring_data m f n ! i = m ! ((f + 1 + i) mod 8192)"
  by (simp add: ring_data_def)

lemma mod_distinct:
  fixes x y N :: nat
  assumes "x < y" "y - x < N"
  shows "x mod N \<noteq> y mod N"
proof
  assume "x mod N = y mod N"
  then have "N dvd y - x"
    using assms(1) by (metis less_imp_le mod_eq_dvd_iff_nat)
  with assms show False
    by (meson dvd_imp_le not_less zero_less_diff)
qed

lemma mod_add_no_wrap:
  fixes x j N :: nat
  assumes "x mod N + j < N"
  shows "(x + j) mod N = x mod N + j"
proof -
  have "(x + j) mod N = (x mod N + j) mod N" by (simp add: mod_add_left_eq)
  then show ?thesis using assms by simp
qed

lemma ring_data_write:
  assumes m: "length m = 8192" and n: "n + length ys < 8192"
    and w: "(f + n + 1) mod 8192 + length ys \<le> 8192"
  shows "ring_data (overwrite m ((f + n + 1) mod 8192) ys) f (n + length ys) = ring_data m f n @ ys"
proof (rule nth_equalityI)
  fix i assume "i < length (ring_data (overwrite m ((f + n + 1) mod 8192) ys) f (n + length ys))"
  then have i: "i < n + length ys" by simp
  let ?w = "(f + n + 1) mod 8192" and ?x = "(f + 1 + i) mod 8192"
  have split: "overwrite m ?w ys ! ?x = (if ?w \<le> ?x \<and> ?x < ?w + length ys then ys ! (?x - ?w) else m ! ?x)"
    using m w by (intro nth_overwrite) auto
  show "ring_data (overwrite m ?w ys) f (n + length ys) ! i = (ring_data m f n @ ys) ! i"
  proof (cases "i < n")
    case True
    have "\<not> (?w \<le> ?x \<and> ?x < ?w + length ys)"
    proof
      assume a: "?w \<le> ?x \<and> ?x < ?w + length ys"
      then obtain j where j: "?x = ?w + j" "j < length ys"
        by (metis add_less_cancel_left le_Suc_ex)
      then have "?x = (f + n + 1 + j) mod 8192"
        using w by (subst mod_add_no_wrap) auto
      moreover have "?x \<noteq> (f + n + 1 + j) mod 8192"
        using True j(2) n by (intro mod_distinct) auto
      ultimately show False by simp
    qed
    then show ?thesis using True i split by (auto simp: nth_append)
  next
    case False
    then obtain j where j: "i = n + j" "j < length ys"
      using i by (metis add_less_cancel_left le_Suc_ex not_less)
    have "?x = (f + n + 1 + j) mod 8192"
      using j(1) by (simp add: ac_simps)
    also have "\<dots> = ?w + j"
      using j(2) w by (intro mod_add_no_wrap) auto
    finally show ?thesis using i j split by (simp add: nth_append)
  qed
qed simp

lemma ring_data_split:
  assumes "k \<le> n"
  shows "ring_data m f n = ring_data m f k @ ring_data m ((f + k) mod 8192) (n - k)"
proof (rule nth_equalityI)
  fix i assume "i < length (ring_data m f n)"
  then have i: "i < n" by simp
  show "ring_data m f n ! i = (ring_data m f k @ ring_data m ((f + k) mod 8192) (n - k)) ! i"
  proof (cases "i < k")
    case False
    then have "((f + k) mod 8192 + 1 + (i - k)) mod 8192 = (f + 1 + i) mod 8192"
      using mod_add_left_eq [of "f + k" 8192 "1 + (i - k)"] by (simp add: ac_simps del: mod_add_left_eq)
    then show ?thesis using False i by (simp add: nth_append)
  qed (use i assms in \<open>simp add: nth_append\<close>)
qed (use assms in simp)

lemma ring_data_slice:
  assumes "length m = 8192" "(f + 1) mod 8192 + k \<le> 8192"
  shows "ring_data m f k = slice m ((f + 1) mod 8192) k"
proof (rule nth_equalityI)
  fix i assume "i < length (ring_data m f k)"
  then have i: "i < k" by simp
  then have "(f + 1 + i) mod 8192 = (f + 1) mod 8192 + i"
    using assms(2) by (intro mod_add_no_wrap) auto
  then show "ring_data m f k ! i = slice m ((f + 1) mod 8192) k ! i"
    using i assms by simp
qed (use assms in simp)

lemma take_ring_data: "k \<le> n \<Longrightarrow> take k (ring_data m f n) = ring_data m f k"
  by (simp add: ring_data_split [of k n])

lemma drop_ring_data: "k \<le> n \<Longrightarrow> drop k (ring_data m f n) = ring_data m ((f + k) mod 8192) (n - k)"
  by (simp add: ring_data_split [of k n])

section \<open>Enqueue, Dequeue and Peek\<close>

lemma clip_size:
  assumes "u < 2 ^ 31"
  shows "(if scast (of_nat u :: c_int) < s then scast (of_nat u :: c_int) else s :: u64) = of_nat (min (unat s) u)"
  using assms by (simp add: scast_of_nat word_less_nat_alt unat_of_nat min_def)

lemma MustEnqueue_appends:
  assumes "aligned_block a" "length m = 8192" "k \<le> length src" "(f + n + 1) mod 8192 + k \<le> 8192"
    "n + k < 8192"
  shows "\<exists>m'. MustEnqueue src (of_nat k) (mk_ring a f n m) = Inr (of_nat k, mk_ring a f (n + k) m') \<and>
     length m' = 8192 \<and> ring_data m' f (n + k) = ring_data m f n @ take k src"
  using MustEnqueue_mk [OF assms(1-4)] ring_data_write [of m n "take k src" f] assms
  by (intro exI [of _ "overwrite m ((f + n + 1) mod 8192) (take k src)"]) (simp add: min_absorb2)

lemma enqueue_sizes:
  fixes s :: u64
  assumes a: "aligned_block a" and fn: "f < 8192" "n < 8192"
  defines "k \<equiv> min (unat s) (8191 - n)"
    and "d \<equiv> if f + n < 8191 then 8191 - (f + n) else 8191 - n"
  shows "(if scast (GetFreeSize (mk_ring a f n m)) < s then scast (GetFreeSize (mk_ring a f n m)) else s)
      = of_nat k"
    and "DirectEnqueueSize (mk_ring a f n m) = of_nat d" "unat (of_nat d :: c_int) = d"
    and "(scast (of_nat d :: c_int) :: u64) = of_nat d" "((of_nat k :: u64) \<le> of_nat d) \<longleftrightarrow> k \<le> d"
    and "(f + n + 1) mod 8192 + d \<le> 8192" "k \<le> 8191 - n"
proof -
  have u: "8191 - n < 2 ^ 31" by simp
  show "(if scast (GetFreeSize (mk_ring a f n m)) < s then scast (GetFreeSize (mk_ring a f n m)) else s)
      = of_nat k"
    unfolding total_sizes(1) [OF a fn] k_def by (rule clip_size [OF u])
  show "DirectEnqueueSize (mk_ring a f n m) = of_nat d"
    unfolding d_def by (rule header_sizes(1) [OF a fn])
  have "k < 8192" "d < 8192" unfolding k_def d_def by (simp, auto)
  then show "unat (of_nat d :: c_int) = d" "(scast (of_nat d :: c_int) :: u64) = of_nat d"
    "((of_nat k :: u64) \<le> of_nat d) \<longleftrightarrow> k \<le> d"
    by (simp_all add: unat_of_nat scast_of_nat of_nat_le_u64)
  show "(f + n + 1) mod 8192 + d \<le> 8192"
    using fn by (auto simp: d_def mod_if)
  show "k \<le> 8191 - n" by (simp add: k_def)
qed

lemma Enqueue_mk:
  fixes s :: u64
  assumes a: "aligned_block a" and m: "length m = 8192" and fn: "f < 8192" "n < 8192"
  defines "k \<equiv> min (unat s) (8191 - n)"
  assumes src: "k \<le> length src"
  shows "\<exists>m'. Enqueue src s (mk_ring a f n m) = Inr (of_nat k, mk_ring a f (n + k) m') \<and>
     length m' = 8192 \<and> ring_data m' f (n + k) = ring_data m f n @ take k src"
proof -
  define d where "d = (if f + n < 8191 then 8191 - (f + n) else 8191 - n)"
  note sizes = enqueue_sizes(1) [OF a fn, where s = s and m = m, folded k_def]
    enqueue_sizes(2,3,4) [OF a fn, folded d_def]
    enqueue_sizes(5) [OF a fn, where s = s, folded k_def d_def]
    enqueue_sizes(6) [OF a fn, folded d_def] enqueue_sizes(7) [OF a fn, where s = s, folded k_def]
  show ?thesis
  proof (cases "k \<le> d")
    case True
    then show ?thesis
      unfolding Enqueue_def Let_def sizes(1-5)
      using MustEnqueue_appends [OF a m src, of f n] sizes(6,7) fn by simp
  next
    case False
    then have dn: "n + d < 8192" "(f + (n + d) + 1) mod 8192 = 0"
      using sizes(7) fn by (auto simp: d_def split: if_splits)
    obtain m1 where m1: "MustEnqueue src (of_nat d) (mk_ring a f n m) = Inr (of_nat d, mk_ring a f (n + d) m1)"
        "length m1 = 8192" "ring_data m1 f (n + d) = ring_data m f n @ take d src"
      using MustEnqueue_appends [OF a m _ sizes(6) dn(1), of src] False src by auto
    have w: "(f + (n + d) + 1) mod 8192 + (k - d) \<le> 8192"
      unfolding dn(2) using sizes(7) by simp
    have "k - d \<le> length (drop d src)" "n + d + (k - d) < 8192"
      using False src sizes(7) fn by auto
    from MustEnqueue_appends [OF a m1(2) this(1) w this(2)]
    obtain m2 where m2: "MustEnqueue (drop d src) (of_nat (k - d)) (mk_ring a f (n + d) m1) =
          Inr (of_nat (k - d), mk_ring a f (n + d + (k - d)) m2)" "length m2 = 8192"
        "ring_data m2 f (n + d + (k - d)) = ring_data m1 f (n + d) @ take (k - d) (drop d src)"
      by blast
    have kd: "of_nat k - of_nat d = (of_nat (k - d) :: u64)" "of_nat d + of_nat (k - d) = (of_nat k :: c_int)"
      using False by (simp_all add: of_nat_diff flip: of_nat_add)
    have "take d src @ take (k - d) (drop d src) = take k src"
      using False by (metis le_add_diff_inverse nat_le_linear take_add)
    then show ?thesis
      unfolding Enqueue_def Let_def sizes(1-5) kd using False m1 m2 kd(2) by auto
  qed
qed

lemma dequeue_sizes:
  fixes s :: u64
  assumes a: "aligned_block a" and fn: "f < 8192" "n < 8192"
  defines "k \<equiv> min (unat s) n"
    and "d \<equiv> if f + n < 8191 \<or> f = 8191 then n else 8191 - f"
  shows "(if scast (GetUseSize (mk_ring a f n m)) < s then scast (GetUseSize (mk_ring a f n m)) else s)
      = of_nat k"
    and "DirectDequeueSize (mk_ring a f n m) = of_nat d"
    and "(scast (of_nat d :: c_int) :: u64) = of_nat d" "((of_nat k :: u64) \<le> of_nat d) \<longleftrightarrow> k \<le> d"
    and "(f + 1) mod 8192 + d \<le> 8192" "d \<le> n" "k \<le> n"
proof -
  have u: "n < 2 ^ 31" using fn by simp
  show "(if scast (GetUseSize (mk_ring a f n m)) < s then scast (GetUseSize (mk_ring a f n m)) else s)
      = of_nat k"
    unfolding total_sizes(2) [OF a fn] k_def by (rule clip_size [OF u])
  show "DirectDequeueSize (mk_ring a f n m) = of_nat d"
    unfolding d_def by (rule header_sizes(3) [OF a fn])
  show d: "d \<le> n" "k \<le> n" using fn by (auto simp: k_def d_def)
  with fn(2) show "(scast (of_nat d :: c_int) :: u64) = of_nat d"
    "((of_nat k :: u64) \<le> of_nat d) \<longleftrightarrow> k \<le> d"
    by (simp_all add: scast_of_nat of_nat_le_u64)
  show "(f + 1) mod 8192 + d \<le> 8192"
    using fn by (auto simp: d_def mod_if)
qed

lemma dequeue_wrapped:
  fixes f n k d :: nat
  assumes "f < 8192" "n < 8192" "k \<le> n"
    and "d = (if f + n < 8191 \<or> f = 8191 then n else 8191 - f)" "\<not> k \<le> d"
  shows "f + d = 8191" "d < k"
  using assms by (auto split: if_splits)

lemma slice_wrapped:
  assumes m: "length m = 8192" and "f + d = 8191" "d \<le> k" "k < 8192"
  shows "slice m ((f + 1) mod 8192) d @ slice m 0 (k - d) = ring_data m f k"
proof -
  have "ring_data m f d = slice m ((f + 1) mod 8192) d"
    using assms by (intro ring_data_slice) (auto simp: mod_if)
  moreover have "ring_data m 8191 (k - d) = slice m 0 (k - d)"
    using ring_data_slice [OF m, of 8191 "k - d"] assms by simp
  ultimately show ?thesis
    using ring_data_split [of d k m f] assms by simp
qed

lemma Dequeue_mk:
  fixes s :: u64
  assumes a: "aligned_block a" and m: "length m = 8192" and fn: "f < 8192" "n < 8192"
  defines "k \<equiv> min (unat s) n"
  shows "Dequeue s (mk_ring a f n m) =
     Inr (ring_data m f k, of_nat k, mk_ring a ((f + k) mod 8192) (n - k) m)"
proof -
  define d where "d = (if f + n < 8191 \<or> f = 8191 then n else 8191 - f)"
  note sizes = dequeue_sizes(1) [OF a fn, where s = s and m = m, folded k_def]
    dequeue_sizes(2,3) [OF a fn, folded d_def]
    dequeue_sizes(4) [OF a fn, where s = s, folded k_def d_def]
    dequeue_sizes(5,6) [OF a fn, folded d_def] dequeue_sizes(7) [where s = s, OF a fn, folded k_def]
  show ?thesis
  proof (cases "k \<le> d")
    case True
    then have p: "(f + 1) mod 8192 + k \<le> 8192" using sizes(5) by simp
    show ?thesis
      unfolding Dequeue_def Let_def sizes(1-4) ring_data_slice [OF m p]
      using MustDequeue_mk [OF a m fn(1) sizes(7) fn(2) p] True by simp
  next
    case False
    note w = dequeue_wrapped [OF fn sizes(7) d_def False]
    have kd: "of_nat k - of_nat d = (of_nat (k - d) :: u64)" "of_nat d + of_nat (k - d) = (of_nat k :: c_int)"
      using w(2) by (simp_all add: of_nat_diff flip: of_nat_add)
    have "MustDequeue (of_nat d) (mk_ring a f n m) =
        Inr (slice m ((f + 1) mod 8192) d, of_nat d, mk_ring a 8191 (n - d) m)"
      using MustDequeue_mk [OF a m fn(1) sizes(6) fn(2) sizes(5)] w by simp
    moreover have "MustDequeue (of_nat (k - d)) (mk_ring a 8191 (n - d) m) =
        Inr (slice m 0 (k - d), of_nat (k - d), mk_ring a ((8191 + (k - d)) mod 8192) (n - d - (k - d)) m)"
      using MustDequeue_mk [OF a m, of 8191 "k - d" "n - d"] w sizes(7) fn by simp
    moreover have "8191 + (k - d) = f + k" "n - d - (k - d) = n - k"
      using w by auto
    ultimately show ?thesis
      unfolding Dequeue_def Let_def sizes(1-4) kd
      using False slice_wrapped [OF m w(1), of k] w(2) sizes(7) fn(2) kd(2) by (simp del: of_nat_diff)
  qed
qed

lemma Peek_mk:
  fixes s :: u64
  assumes a: "aligned_block a" and m: "length m = 8192" and fn: "f < 8192" "n < 8192"
  defines "k \<equiv> min (unat s) n"
  shows "Peek s (mk_ring a f n m) = Inr (ring_data m f k, of_nat k)"
proof -
  define d where "d = (if f + n < 8191 \<or> f = 8191 then n else 8191 - f)"
  note sizes = dequeue_sizes(1) [OF a fn, where s = s and m = m, folded k_def]
    dequeue_sizes(2,3) [OF a fn, folded d_def]
    dequeue_sizes(4) [OF a fn, where s = s, folded k_def d_def]
    dequeue_sizes(5,6) [OF a fn, folded d_def] dequeue_sizes(7) [where s = s, OF a fn, folded k_def]
  show ?thesis
  proof (cases "k \<le> d")
    case True
    then have p: "(f + 1) mod 8192 + k \<le> 8192" using sizes(5) by simp
    show ?thesis
      unfolding Peek_def Let_def sizes(1-4) mk_ring_sel ring_data_slice [OF m p]
      using MustPeek_mk [OF m p] True by simp
  next
    case False
    note w = dequeue_wrapped [OF fn sizes(7) d_def False]
    have kd: "of_nat k - of_nat d = (of_nat (k - d) :: u64)" "of_nat d + of_nat (k - d) = (of_nat k :: c_int)"
      using w(2) by (simp_all add: of_nat_diff flip: of_nat_add)
    have "MustPeek (mk_ring a f n m) a (of_nat (k - d)) = Inr (slice m 0 (k - d), of_nat (k - d))"
      using MustPeek_mk [OF m, of 0 "k - d" a f n] sizes(7) fn by simp
    then show ?thesis
      unfolding Peek_def Let_def sizes(1-4) mk_ring_sel kd
      using False MustPeek_mk [OF m sizes(5)] slice_wrapped [OF m w(1), of k] w(2) sizes(7) fn(2) kd(2)
      by (simp del: of_nat_diff)
  qed
qed

section \<open>The contract: a bounded queue of bytes\<close>

text \<open>What a client of the buffer relies on. \<open>enq src s\<close> accepts as many of the \<open>s\<close> bytes at \<open>src\<close>
  as there is room for, \<open>deq s\<close> and \<open>pk s\<close> deliver the oldest \<open>s\<close> bytes or all there are, and every
  call returns the number of bytes it moved.\<close>

datatype queue_call = Put "byte list" | Get u64

fun queue_run ::
  "(byte list \<Rightarrow> u64 \<Rightarrow> 'q \<Rightarrow> fault + (c_int \<times> 'q)) \<Rightarrow>
   (u64 \<Rightarrow> 'q \<Rightarrow> fault + (byte list \<times> c_int \<times> 'q)) \<Rightarrow>
   queue_call list \<Rightarrow> 'q \<Rightarrow> fault + (byte list \<times> byte list \<times> 'q)" where
  "queue_run enq deq [] q = Inr ([], [], q)"
| "queue_run enq deq (Put bs # ops) q =
     rbind (enq bs (of_nat (length bs)) q) (\<lambda>(n, q').
     rbind (queue_run enq deq ops q') (\<lambda>(acc, out, q''). Inr (take (unat n) bs @ acc, out, q'')))"
| "queue_run enq deq (Get s # ops) q =
     rbind (deq s q) (\<lambda>(bs, _, q').
     rbind (queue_run enq deq ops q') (\<lambda>(acc, out, q''). Inr (acc, bs @ out, q'')))"

locale byte_queue =
  fixes invar :: "'q \<Rightarrow> bool"
    and cont :: "'q \<Rightarrow> byte list"
    and cap :: nat
    and enq :: "byte list \<Rightarrow> u64 \<Rightarrow> 'q \<Rightarrow> fault + (c_int \<times> 'q)"
    and deq :: "u64 \<Rightarrow> 'q \<Rightarrow> fault + (byte list \<times> c_int \<times> 'q)"
    and pk :: "u64 \<Rightarrow> 'q \<Rightarrow> fault + (byte list \<times> c_int)"
    and used :: "'q \<Rightarrow> c_int"
    and free :: "'q \<Rightarrow> c_int"
  assumes cap_small: "cap < 2 ^ 31"
    and bounded: "invar q \<Longrightarrow> length (cont q) \<le> cap"
    and used: "invar q \<Longrightarrow> used q = of_nat (length (cont q))"
    and free: "invar q \<Longrightarrow> free q = of_nat (cap - length (cont q))"
    and enq: "invar q \<Longrightarrow> k = min (unat s) (cap - length (cont q)) \<Longrightarrow> k \<le> length src \<Longrightarrow>
      \<exists>q'. enq src s q = Inr (of_nat k, q') \<and> invar q' \<and> cont q' = cont q @ take k src"
    and deq: "invar q \<Longrightarrow> k = min (unat s) (length (cont q)) \<Longrightarrow>
      \<exists>q'. deq s q = Inr (take k (cont q), of_nat k, q') \<and> invar q' \<and> cont q' = drop k (cont q)"
    and pk: "invar q \<Longrightarrow> k = min (unat s) (length (cont q)) \<Longrightarrow>
      pk s q = Inr (take k (cont q), of_nat k)"
begin

lemma used_unat: "invar q \<Longrightarrow> unat (used q) = length (cont q)"
  using bounded [of q] cap_small by (simp add: used unat_of_nat)

lemma enq_all:
  assumes "invar q" "length (cont q) + length bs \<le> cap"
  shows "\<exists>q'. enq bs (of_nat (length bs)) q = Inr (of_nat (length bs), q') \<and> invar q' \<and>
    cont q' = cont q @ bs"
proof -
  have "unat (of_nat (length bs) :: u64) = length bs"
    using assms(2) cap_small by (intro unat_of_nat_u64) auto
  with assms enq [OF assms(1), of "length bs" "of_nat (length bs)" bs] show ?thesis by auto
qed

lemma deq_exact:
  assumes "invar q" "n \<le> length (cont q)"
  shows "\<exists>q'. deq (of_nat n) q = Inr (take n (cont q), of_nat n, q') \<and> invar q' \<and> cont q' = drop n (cont q)"
proof -
  have "unat (of_nat n :: u64) = n"
    using assms bounded [of q] cap_small by (intro unat_of_nat_u64) auto
  with assms deq [OF assms(1), of n "of_nat n"] show ?thesis by auto
qed

text \<open>Streams: whatever the sequence of calls, the bytes delivered and the bytes still held are, in
  order, the bytes held at the start and the bytes accepted.\<close>

lemma run_stream:
  assumes "invar q"
  shows "\<exists>acc out q'. queue_run enq deq ops q = Inr (acc, out, q') \<and> invar q' \<and>
    cont q @ acc = out @ cont q'"
  using assms
proof (induction ops arbitrary: q)
  case Nil
  then show ?case by simp
next
  case (Cons op ops)
  show ?case
  proof (cases op)
    case (Put bs)
    define k where "k = min (unat (of_nat (length bs) :: u64)) (cap - length (cont q))"
    have "k \<le> length bs"
      by (simp add: k_def unat_of_nat min.coboundedI1 take_bit_nat_less_eq_self)
    from enq [OF Cons.prems k_def this] obtain q1 where q1: "enq bs (of_nat (length bs)) q = Inr (of_nat k, q1)"
        "invar q1" "cont q1 = cont q @ take k bs" by blast
    have "k < 2 ^ 32" using cap_small by (simp add: k_def)
    then have "unat (of_nat k :: c_int) = k" by (simp add: unat_of_nat)
    with q1 Cons.IH [OF q1(2)] Put show ?thesis by auto
  next
    case (Get s)
    from deq [OF Cons.prems refl, of s] obtain k q1 where q1: "deq s q = Inr (take k (cont q), of_nat k, q1)"
        "invar q1" "cont q1 = drop k (cont q)" by blast
    from Cons.IH [OF q1(2)] obtain acc out q2 where q2: "queue_run enq deq ops q1 = Inr (acc, out, q2)"
        "invar q2" "cont q1 @ acc = out @ cont q2" by blast
    have "cont q @ acc = take k (cont q) @ (cont q1 @ acc)"
      using q1(3) by (metis append_assoc append_take_drop_id)
    with q1 q2 Get show ?thesis by simp
  qed
qed

lemma pk_exact:
  assumes "invar q" "n \<le> length (cont q)"
  shows "pk (of_nat n) q = Inr (take n (cont q), of_nat n)"
proof -
  have "unat (of_nat n :: u64) = n"
    using assms bounded [of q] cap_small by (intro unat_of_nat_u64) auto
  with assms pk [OF assms(1), of n "of_nat n"] show ?thesis by auto
qed

end

lemma Enqueue_refines:
  assumes "RB_inv rb" "k = min (unat s) (8191 - length (rb_contents rb))" "k \<le> length src"
  shows "\<exists>rb'. Enqueue src s rb = Inr (of_nat k, rb') \<and> RB_inv rb' \<and>
    rb_contents rb' = rb_contents rb @ take k src"
proof -
  obtain a f n m where rb: "rb = mk_ring a f n m" "aligned_block a" "f < 8192" "n < 8192"
      "length m = 8192" "rb_contents rb = ring_data m f n"
    using assms(1) by (rule RB_invE)
  with assms(2) have k: "k = min (unat s) (8191 - n)" by simp
  from Enqueue_mk [OF rb(2,5,3,4), of s src] assms(3)
  obtain m' where "Enqueue src s rb = Inr (of_nat k, mk_ring a f (n + k) m')" "length m' = 8192"
      "ring_data m' f (n + k) = ring_data m f n @ take k src"
    unfolding k rb(1) by blast
  moreover have "n + k < 8192" using k rb(4) by auto
  ultimately show ?thesis
    using rb RB_inv_mk [of a f "n + k" m'] by (intro exI [of _ "mk_ring a f (n + k) m'"]) simp
qed

lemma Dequeue_refines:
  assumes "RB_inv rb" "k = min (unat s) (length (rb_contents rb))"
  shows "\<exists>rb'. Dequeue s rb = Inr (take k (rb_contents rb), of_nat k, rb') \<and> RB_inv rb' \<and>
    rb_contents rb' = drop k (rb_contents rb)"
proof -
  obtain a f n m where rb: "rb = mk_ring a f n m" "aligned_block a" "f < 8192" "n < 8192"
      "length m = 8192" "rb_contents rb = ring_data m f n"
    using assms(1) by (rule RB_invE)
  have k: "k = min (unat s) n" "k \<le> n" using assms(2) rb(6) by simp_all
  let ?rb = "mk_ring a ((f + k) mod 8192) (n - k) m"
  have "n - k < 8192" using rb(4) by simp
  then have "RB_inv ?rb" "rb_contents ?rb = drop k (rb_contents rb)"
    using rb k RB_inv_mk [of a "(f + k) mod 8192" "n - k" m] by (simp_all add: drop_ring_data)
  then show ?thesis
    using Dequeue_mk [OF rb(2,5,3,4), of s] rb(1,6) k by (simp add: take_ring_data)
qed

lemma Peek_refines:
  assumes "RB_inv rb" "k = min (unat s) (length (rb_contents rb))"
  shows "Peek s rb = Inr (take k (rb_contents rb), of_nat k)"
  using assms(1)
proof (rule RB_invE)
  fix a f n m assume rb: "rb = mk_ring a f n m" "aligned_block a" "f < 8192" "n < 8192"
      "length m = 8192" "rb_contents rb = ring_data m f n"
  then show ?thesis
    using Peek_mk [OF rb(2,5,3,4), of s] assms(2) by (simp add: take_ring_data)
qed

lemma sizes_refine:
  assumes "RB_inv rb"
  shows "GetUseSize rb = of_nat (length (rb_contents rb))"
    and "GetFreeSize rb = of_nat (8191 - length (rb_contents rb))"
    and "length (rb_contents rb) \<le> 8191"
proof -
  obtain a f n m where rb: "rb = mk_ring a f n m" "aligned_block a" "f < 8192" "n < 8192"
      "length m = 8192" "rb_contents rb = ring_data m f n"
    using assms by (rule RB_invE)
  then show "GetUseSize rb = of_nat (length (rb_contents rb))"
    "GetFreeSize rb = of_nat (8191 - length (rb_contents rb))" "length (rb_contents rb) \<le> 8191"
    using total_sizes [OF rb(2,3,4), of m] by simp_all
qed

interpretation ring: byte_queue RB_inv rb_contents 8191 Enqueue Dequeue Peek GetUseSize GetFreeSize
  by unfold_locales (simp_all add: sizes_refine Enqueue_refines Dequeue_refines Peek_refines)

section \<open>Construction, Clear and the tests for empty and full\<close>

lemma RingBuffer_ctor_mk: "RingBuffer_ctor a m = mk_ring a 0 0 m"
  by (simp add: RingBuffer_ctor_def mk_ring_def BUF_SIZE_def)

lemma RingBuffer_ctor_inv:
  assumes "aligned_block a" "length m = 8192"
  shows "RB_inv (RingBuffer_ctor a m)" "rb_contents (RingBuffer_ctor a m) = []"
  using assms RB_inv_mk [of a 0 0 m] by (simp_all add: RingBuffer_ctor_mk ring_data_def)

lemma rb_Clear_inv:
  assumes "RB_inv rb"
  shows "RB_inv (rb_Clear rb)" "rb_contents (rb_Clear rb) = []"
proof -
  obtain a f n m where rb: "rb = mk_ring a f n m" "aligned_block a" "f < 8192" "n < 8192" "length m = 8192"
      "rb_contents rb = ring_data m f n"
    using assms by (rule RB_invE)
  have "rb_Clear rb = mk_ring a 0 0 m"
    by (simp add: rb_Clear_def Let_def rb(1) mk_ring_def)
  then show "RB_inv (rb_Clear rb)" "rb_contents (rb_Clear rb) = []"
    using rb RB_inv_mk [of a 0 0 m] by (simp_all add: ring_data_def)
qed

lemma rb_Empty_iff:
  assumes "RB_inv rb"
  shows "rb_Empty rb \<longleftrightarrow> rb_contents rb = []"
proof -
  obtain a f n m where rb: "rb = mk_ring a f n m" "aligned_block a" "f < 8192" "n < 8192" "length m = 8192"
      "rb_contents rb = ring_data m f n"
    using assms by (rule RB_invE)
  have "rb_Empty rb \<longleftrightarrow> f = (f + n) mod 8192"
    using rb(1,3) by (simp add: rb_Empty_def ptr_eq del: of_nat_mod)
  also have "\<dots> \<longleftrightarrow> n = 0"
    using rb(3,4) by (auto simp: mod_if)
  finally show ?thesis
    using rb(6) by (simp add: ring_data_def)
qed

lemma rb_Full_iff:
  assumes "RB_inv rb"
  shows "rb_Full rb \<longleftrightarrow> length (rb_contents rb) = 8191"
proof -
  obtain a f n m where rb: "rb = mk_ring a f n m" "aligned_block a" "f < 8192" "n < 8192" "length m = 8192"
      "rb_contents rb = ring_data m f n"
    using assms by (rule RB_invE)
  have "rb_Full rb \<longleftrightarrow> f = (f + n + 1) mod 8192"
    using rb(1,3) by (simp add: rb_Full_def ptr_eq del: of_nat_mod)
  also have "\<dots> \<longleftrightarrow> n = 8191"
    using rb(3,4) by (auto simp: mod_if)
  finally show ?thesis
    using rb(6) by simp
qed

section \<open>Scattered receive\<close>

text \<open>A session hands the free space to the socket layer as two buffers: \<open>DirectEnqueueSize\<close> bytes
  from \<open>writePos\<close> and \<open>RemainEnqueueSize\<close> bytes from \<open>begin\<close>. The documented effect of a receive of
  \<open>bs\<close> into such a pair is that the first buffer is filled before the second; \<open>rb_received\<close> says
  so of the block. The completion handler then only calls \<open>MoveRear\<close>.\<close>

definition rb_received :: "RingBuffer \<Rightarrow> byte list \<Rightarrow> RingBuffer \<Rightarrow> bool" where
  "rb_received rb bs rb1 \<longleftrightarrow>
     length bs \<le> unat (DirectEnqueueSize rb) + unat (RemainEnqueueSize rb) \<and>
     rb1 = rb\<lparr>rb_block := overwrite (overwrite (rb_block rb) (unat (rb_writePos rb - rb_begin rb))
                             (take (unat (DirectEnqueueSize rb)) bs)) 0
                             (drop (unat (DirectEnqueueSize rb)) bs)\<rparr>"

lemma two_part_write:
  assumes m: "length m = 8192" and "f < 8192" "n + length bs < 8192"
    and d: "d = (if f + n < 8191 then 8191 - (f + n) else 8191 - n)"
    and w: "w = (f + n + 1) mod 8192"
  defines "m' \<equiv> overwrite (overwrite m w (take d bs)) 0 (drop d bs)"
  shows "length m' = 8192" "ring_data m' f (n + length bs) = ring_data m f n @ bs"
proof -
  have wd: "w + d \<le> 8192" using assms by (auto simp: mod_if)
  let ?m1 = "overwrite m w (take d bs)"
  have m1: "length ?m1 = 8192" using m wd by (subst length_overwrite) auto
  have "length ?m1 = 8192 \<and> ring_data ?m1 f (n + length (take d bs)) = ring_data m f n @ take d bs"
    using ring_data_write [OF m, of n "take d bs" f] m1 wd assms(3) w by (auto simp: min_def)
  note r1 = conjunct2 [OF this]
  show "length m' = 8192"
    unfolding m'_def using m1 assms(3) by (subst length_overwrite) auto
  show "ring_data m' f (n + length bs) = ring_data m f n @ bs"
  proof (cases "length bs \<le> d")
    case True
    then show ?thesis using r1 by (simp add: m'_def)
  next
    case False
    then have "f + n < 8191" and z: "(f + (n + d) + 1) mod 8192 = 0"
      using assms(2,3) d by (auto split: if_splits)
    have "ring_data m' f (n + d + length (drop d bs)) = ring_data ?m1 f (n + d) @ drop d bs"
      using ring_data_write [OF m1, of "n + d" "drop d bs" f] False assms(3) z by (simp add: m'_def)
    then show ?thesis using r1 False by simp
  qed
qed

lemma receive_appends:
  assumes "RB_inv rb" "rb_received rb bs rb1"
  shows "RB_inv (MoveRear (of_nat (length bs)) rb1)"
    and "rb_contents (MoveRear (of_nat (length bs)) rb1) = rb_contents rb @ bs"
proof -
  obtain a f n m where rb: "rb = mk_ring a f n m" "aligned_block a" "f < 8192" "n < 8192" "length m = 8192"
      "rb_contents rb = ring_data m f n"
    using assms(1) by (rule RB_invE)
  define d w where "d = (if f + n < 8191 then 8191 - (f + n) else 8191 - n)" and "w = (f + n + 1) mod 8192"
  have de: "unat (DirectEnqueueSize rb) = d"
    unfolding rb(1) header_sizes(1) [OF rb(2-4)] d_def by (rule unat_of_nat_u32) auto
  have re: "unat (RemainEnqueueSize rb) = (if f + n < 8191 then f else 0)"
    unfolding rb(1) header_sizes(2) [OF rb(2-4)] using rb(3) by (intro unat_of_nat_u32) auto
  have len: "n + length bs < 8192"
    using assms(2) rb(3,4) unfolding rb_received_def de re d_def by (auto split: if_splits)
  let ?m' = "overwrite (overwrite m w (take d bs)) 0 (drop d bs)"
  have "unat (rb_writePos rb - rb_begin rb) = w"
    unfolding rb(1) mk_ring_sel w_def by (simp add: unat_of_nat del: of_nat_mod)
  then have "rb1 = mk_ring a f n ?m'"
    using assms(2) unfolding rb_received_def de by (simp add: rb(1) mk_ring_def)
  then have "MoveRear (of_nat (length bs)) rb1 = mk_ring a f (n + length bs) ?m'"
    using MoveRear_mk [OF rb(2), of "length bs"] len by simp
  moreover note two_part_write [OF rb(5,3) len d_def w_def]
  ultimately show "RB_inv (MoveRear (of_nat (length bs)) rb1)"
    "rb_contents (MoveRear (of_nat (length bs)) rb1) = rb_contents rb @ bs"
    using RB_inv_mk [OF rb(2,3) len] rb(3,6) len by simp_all
qed

section \<open>Properties\<close>

text \<open>C1: Stream integrity of the receive buffer: starting from any consistent buffer, every sequence
  of \<open>Enqueue\<close> and \<open>Dequeue\<close> calls runs without leaving the block, and the bytes delivered followed
  by the bytes still held are, in order and without loss or duplication, the bytes held at the start
  followed by the bytes the calls accepted.\<close>

theorem ring_stream_integrity:
  assumes "RB_inv rb"
  shows "\<exists>acc out rb'. queue_run Enqueue Dequeue ops rb = Inr (acc, out, rb') \<and> RB_inv rb' \<and>
    rb_contents rb @ acc = out @ rb_contents rb'"
  using assms by (rule ring.run_stream)

lemma aligned_block_example: "aligned_block 0x10000"
  by (simp add: aligned_block_def)

definition fresh_ring :: RingBuffer where
  "fresh_ring = RingBuffer_ctor 0x10000 (replicate 8192 0)"

lemma fresh_ring_inv: "RB_inv fresh_ring" "rb_contents fresh_ring = []"
  unfolding fresh_ring_def using RingBuffer_ctor_inv [OF aligned_block_example] by simp_all

theorem ring_stream_integrity_witness:
  "\<exists>acc out rb'. queue_run Enqueue Dequeue [Put [1, 2, 3], Get 2, Put [4], Get 9] fresh_ring = Inr (acc, out, rb') \<and>
    RB_inv rb' \<and> acc = out @ rb_contents rb'"
  using ring_stream_integrity [OF fresh_ring_inv(1)] unfolding fresh_ring_inv(2) append_Nil by blast

text \<open>\<open>Enqueue\<close> implements the bounded queue on every branch (contiguous and wrapped): it accepts
  the first \<open>k\<close> bytes of the source, \<open>k\<close> the smaller of the requested size and the free space
  \<open>8191 - length (rb_contents rb)\<close>, appends exactly them, reports \<open>k\<close>, and keeps the invariant.\<close>

lemma enqueue_appends_what_fits:
  assumes "RB_inv rb" and "k = min (unat s) (8191 - length (rb_contents rb))" and "k \<le> length src"
  shows "\<exists>rb'. Enqueue src s rb = Inr (of_nat k, rb') \<and> RB_inv rb' \<and>
    rb_contents rb' = rb_contents rb @ take k src \<and> GetUseSize rb' = of_nat (length (rb_contents rb) + k)"
  using ring.enq [OF assms] sizes_refine(1) assms(3) by fastforce

lemma enqueue_appends_what_fits_example:
  "\<exists>rb'. Enqueue [7, 8, 9] 3 fresh_ring = Inr (3, rb') \<and> RB_inv rb' \<and>
    rb_contents rb' = [7, 8, 9] \<and> GetUseSize rb' = 3"
  using enqueue_appends_what_fits [OF fresh_ring_inv(1), of 3 3 "[7, 8, 9]"] fresh_ring_inv(2) by simp

text \<open>\<open>Peek\<close> shows what \<open>Dequeue\<close> would deliver and changes nothing: both return the oldest
  \<open>k\<close> bytes, \<open>k\<close> the smaller of the requested size and the bytes held; after \<open>Dequeue\<close> exactly those
  bytes are gone.\<close>

lemma peek_agrees_with_dequeue:
  assumes "RB_inv rb" and "k = min (unat s) (length (rb_contents rb))"
  shows "\<exists>rb'. Peek s rb = Inr (take k (rb_contents rb), of_nat k) \<and>
    Dequeue s rb = Inr (take k (rb_contents rb), of_nat k, rb') \<and> RB_inv rb' \<and>
    rb_contents rb' = drop k (rb_contents rb)"
  using ring.deq [OF assms] ring.pk [OF assms] by blast

lemma peek_agrees_with_dequeue_example:
  "\<exists>rb'. Peek 4 fresh_ring = Inr ([], 0) \<and> Dequeue 4 fresh_ring = Inr ([], 0, rb') \<and> RB_inv rb' \<and>
    rb_contents rb' = []"
  using peek_agrees_with_dequeue [OF fresh_ring_inv(1), of 0 4] fresh_ring_inv(2) by simp

text \<open>The zero-copy receive path equals an \<open>Enqueue\<close>: when the socket layer fills the two buffers
  \<open>RecvAsync\<close> exposes with \<open>bs\<close> (the first before the second), the \<open>MoveRear\<close> of the completion
  handler makes the buffer hold its old bytes followed by \<open>bs\<close>, and keeps the invariant.\<close>

lemma scattered_receive_appends:
  assumes "RB_inv rb" "rb_received rb bs rb1"
  shows "RB_inv (MoveRear (of_nat (length bs)) rb1) \<and>
    rb_contents (MoveRear (of_nat (length bs)) rb1) = rb_contents rb @ bs"
  using receive_appends [OF assms] by simp

lemma scattered_receive_appends_example:
  "\<exists>rb1. rb_received fresh_ring [5, 6] rb1 \<and> RB_inv (MoveRear 2 rb1) \<and> rb_contents (MoveRear 2 rb1) = [5, 6]"
proof -
  have "rb_received fresh_ring [5, 6] (fresh_ring\<lparr>rb_block := overwrite (overwrite (rb_block fresh_ring)
      (unat (rb_writePos fresh_ring - rb_begin fresh_ring)) (take (unat (DirectEnqueueSize fresh_ring)) [5, 6])) 0
      (drop (unat (DirectEnqueueSize fresh_ring)) [5, 6])\<rparr>)"
    using header_sizes(1,2) [OF aligned_block_example, of 0 0 "replicate 8192 0"]
    by (simp add: rb_received_def fresh_ring_def RingBuffer_ctor_mk)
  with scattered_receive_appends [OF fresh_ring_inv(1) this] fresh_ring_inv(2) show ?thesis by auto
qed

text \<open>The buffer's own measures are exact: \<open>GetUseSize\<close> and \<open>GetFreeSize\<close> are the bytes held and
  the room left of 8191, \<open>Empty\<close> and \<open>Full\<close> hold exactly at the two ends, and \<open>Clear\<close> empties it.\<close>

lemma ring_measures:
  assumes "RB_inv rb"
  shows "unat (GetUseSize rb) = length (rb_contents rb) \<and>
    unat (GetFreeSize rb) = 8191 - length (rb_contents rb) \<and>
    (rb_Empty rb \<longleftrightarrow> rb_contents rb = []) \<and> (rb_Full rb \<longleftrightarrow> length (rb_contents rb) = 8191) \<and>
    RB_inv (rb_Clear rb) \<and> rb_contents (rb_Clear rb) = []"
  using assms ring.used_unat [OF assms] sizes_refine(2) [OF assms]
  by (simp add: rb_Empty_iff rb_Full_iff rb_Clear_inv unat_of_nat_u32 del: of_nat_diff)

lemma ring_measures_example:
  "unat (GetUseSize fresh_ring) = 0 \<and> unat (GetFreeSize fresh_ring) = 8191 \<and> rb_Empty fresh_ring \<and>
    \<not> rb_Full fresh_ring \<and> rb_contents (rb_Clear fresh_ring) = []"
  using ring_measures [OF fresh_ring_inv(1)] fresh_ring_inv(2) by simp

end
