(* ===== verification/CoreBase.thy ===== *)
theory CoreBase
  imports Prelude
begin

text \<open>
  Hashing of protocol names (\<^verbatim>\<open>JunCore/core/base.h\<close>). A C string is the memory readable from its
  pointer; the loop stops at the first zero byte, and running off the readable memory is a fault.
  Shown here: both overloads compute the same fold, and the hash separates any two byte strings
  that differ in exactly one place.
\<close>

section \<open>The hash functions\<close>

fun fnv1a_loop :: "u32 \<Rightarrow> byte list \<Rightarrow> fault + u32" where
  "fnv1a_loop hash [] = Inl ReadOverrun"
| "fnv1a_loop hash (c # s) =
     (if c = 0 then Inr hash else fnv1a_loop ((hash XOR ucast c) * 16777619) s)"

definition fnv1a :: "byte list \<Rightarrow> fault + u32" where
  "fnv1a s = fnv1a_loop 2166136261 s"

fun fnv1a_len_loop :: "u32 \<Rightarrow> byte list \<Rightarrow> nat \<Rightarrow> fault + u32" where
  "fnv1a_len_loop hash data 0 = Inr hash"
| "fnv1a_len_loop hash [] (Suc len) = Inl ReadOverrun"
| "fnv1a_len_loop hash (d # data) (Suc len) =
     fnv1a_len_loop ((hash XOR ucast d) * 16777619) data len"

definition fnv1a_len :: "byte list \<Rightarrow> u64 \<Rightarrow> fault + u32" where
  "fnv1a_len data len = fnv1a_len_loop 2166136261 data (unat len)"

definition make_protocol_code :: "byte \<Rightarrow> byte \<Rightarrow> byte \<Rightarrow> fault + u32" where
  "make_protocol_code game_ver protocol_ver build_id =
     fnv1a_len [game_ver, protocol_ver, build_id] 3"

definition PROTOCOL_CODE :: "fault + u32" where
  "PROTOCOL_CODE = make_protocol_code 1 1 1"

text \<open>The memory behind \<open>c_str()\<close> of a string.\<close>

definition c_str :: "string \<Rightarrow> byte list" where
  "c_str s = map of_char s @ [0]"

section \<open>Both loops are one fold\<close>

definition fnv_step :: "u32 \<Rightarrow> byte \<Rightarrow> u32" where
  "fnv_step h b = (h XOR ucast b) * 16777619"

definition fnv_hash :: "byte list \<Rightarrow> u32" where
  "fnv_hash bs = foldl fnv_step 2166136261 bs"

lemma fnv1a_loop_fold: "0 \<notin> set bs \<Longrightarrow> fnv1a_loop h (bs @ 0 # rest) = Inr (foldl fnv_step h bs)"
  by (induction bs arbitrary: h) (auto simp: fnv_step_def)

lemma fnv1a_fold: "0 \<notin> set bs \<Longrightarrow> fnv1a (bs @ 0 # rest) = Inr (fnv_hash bs)"
  by (simp add: fnv1a_def fnv_hash_def fnv1a_loop_fold)

lemma fnv1a_len_loop_fold:
  "fnv1a_len_loop h (bs @ rest) (length bs) = Inr (foldl fnv_step h bs)"
  by (induction bs arbitrary: h) (auto simp: fnv_step_def)

lemma fnv1a_len_fold:
  "length bs < 2 ^ 64 \<Longrightarrow> fnv1a_len (bs @ rest) (of_nat (length bs)) = Inr (fnv_hash bs)"
  by (simp add: fnv1a_len_def fnv_hash_def unat_of_nat_u64 fnv1a_len_loop_fold)

section \<open>Each step is a bijection\<close>

text \<open>The multiplier is odd; \<open>899433627\<close> is its inverse modulo \<open>2 ^ 32\<close>.\<close>

lemma fnv_prime_inverse: "(x * 16777619) * 899433627 = (x :: u32)"
proof -
  have "(16777619 :: u32) * 899433627 = 1" by simp
  then show ?thesis by (simp only: mult.assoc mult_1_right)
qed

lemma ucast_byte_inj: "(ucast b :: u32) = ucast (c :: byte) \<Longrightarrow> b = c"
proof -
  assume "(ucast b :: u32) = ucast c"
  then have "unat (ucast b :: u32) = unat (ucast c :: u32)" by simp
  moreover have "unat (ucast x :: u32) = unat x" for x :: byte
    using unat_byte_less [of x] by (simp add: unsigned_ucast_eq take_bit_nat_eq_self)
  ultimately show "b = c" by (simp add: word_unat_eq_iff)
qed

lemma fnv_step_inj_hash: "fnv_step h b = fnv_step h' b \<Longrightarrow> h = h'"
proof -
  assume "fnv_step h b = fnv_step h' b"
  then have "h XOR ucast b = h' XOR ucast b"
    unfolding fnv_step_def by (metis fnv_prime_inverse)
  then have "(h XOR ucast b) XOR ucast b = (h' XOR ucast b) XOR ucast b" by simp
  then show "h = h'" by (simp add: xor.assoc)
qed

lemma fnv_step_inj_byte: "fnv_step h b = fnv_step h c \<Longrightarrow> b = c"
proof -
  assume "fnv_step h b = fnv_step h c"
  then have "h XOR ucast b = h XOR ucast c"
    unfolding fnv_step_def by (metis fnv_prime_inverse)
  then have "h XOR (h XOR ucast b) = h XOR (h XOR (ucast c :: u32))" by simp
  then have "(ucast b :: u32) = ucast c" by (simp flip: xor.assoc)
  then show "b = c" by (rule ucast_byte_inj)
qed

lemma fnv_fold_inj: "foldl fnv_step h bs = foldl fnv_step h' bs \<Longrightarrow> h = h'"
  by (induction bs arbitrary: h h') (auto dest: fnv_step_inj_hash)

lemma fnv_hash_one_byte: "fnv_hash (xs @ b # ys) = fnv_hash (xs @ c # ys) \<Longrightarrow> b = c"
  by (auto simp: fnv_hash_def dest: fnv_fold_inj fnv_step_inj_byte)

section \<open>Properties\<close>

text \<open>Two protocol names that differ in exactly one character get different packet ids: on
  zero-terminated strings without inner zero bytes that agree except at one position, the two
  hashes computed by the loop of \<open>fnv1a\<close> are different.\<close>

lemma fnv1a_separates_one_byte:
  assumes "0 \<notin> set xs" "0 \<notin> set ys" "b \<noteq> 0" "c \<noteq> 0" "b \<noteq> c"
  shows "\<exists>h h'. fnv1a (xs @ b # ys @ [0]) = Inr h \<and> fnv1a (xs @ c # ys @ [0]) = Inr h' \<and> h \<noteq> h'"
  using assms fnv1a_fold [of "xs @ b # ys" "[]"] fnv1a_fold [of "xs @ c # ys" "[]"]
    fnv_hash_one_byte [of xs b ys c]
  by auto

lemma fnv1a_separates_one_byte_example:
  "\<exists>h h'. fnv1a ([103] @ 49 # [120] @ [0]) = Inr h \<and> fnv1a ([103] @ 50 # [120] @ [0]) = Inr h' \<and> h \<noteq> h'"
  by (rule fnv1a_separates_one_byte) simp_all

end
