(* ===== verification/PacketHeader.thy ===== *)
theory PacketHeader
  imports CoreBase
begin

text \<open>
  The wire format (\<^verbatim>\<open>JunCore/protocol/UnifiedPacketHeader.h\<close>): an eight byte packed header, the
  serialisation of a protobuf message behind it, and the dispatch of a complete packet.
  The generated protobuf classes are not part of the repository; the record \<open>proto\<close> names what the
  code calls of them and \<open>proto_law\<close> what their documentation promises. Shown here: a serialised
  message is dispatched to the handler of its type with exactly its payload, and every rejected
  packet leaves the handlers uncalled.
\<close>

section \<open>Header\<close>

record UnifiedPacketHeader =
  h_length :: u32
  h_packet_id :: u32

definition UNIFIED_HEADER_SIZE :: u32 where
  "UNIFIED_HEADER_SIZE = 8"

definition MAX_PACKET_SIZE :: u32 where
  "MAX_PACKET_SIZE = 4 * 1024 * 1024"

definition MIN_PACKET_SIZE :: u32 where
  "MIN_PACKET_SIZE = UNIFIED_HEADER_SIZE"

definition IsValidPacketSize :: "u32 \<Rightarrow> bool" where
  "IsValidPacketSize sz \<longleftrightarrow> MIN_PACKET_SIZE \<le> sz \<and> sz \<le> MAX_PACKET_SIZE"

definition InitializePacketHeader :: "u32 \<Rightarrow> u32 \<Rightarrow> UnifiedPacketHeader" where
  "InitializePacketHeader total_length pid = \<lparr>h_length = total_length, h_packet_id = pid\<rparr>"

text \<open>The packed struct in memory, and reading it through a cast pointer.\<close>

definition header_bytes :: "UnifiedPacketHeader \<Rightarrow> byte list" where
  "header_bytes h = bytes_of_word (h_length h) @ bytes_of_word (h_packet_id h)"

definition header_at :: "byte list \<Rightarrow> fault + UnifiedPacketHeader" where
  "header_at mem =
     (if length mem < 8 then Inl ReadOverrun
      else Inr \<lparr>h_length = word_of_bytes (slice mem 0 4), h_packet_id = word_of_bytes (slice mem 4 4)\<rparr>)"

section \<open>Protobuf messages\<close>

record 'm proto =
  full_name :: string
  ByteSizeLong :: "'m \<Rightarrow> u64"
  SerializeToArray :: "'m \<Rightarrow> byte list \<Rightarrow> bool \<times> byte list"
  ParseFromArray :: "byte list \<Rightarrow> 'm option"

text \<open>Documented behaviour for a message \<open>m\<close> with wire encoding \<open>enc\<close>: the announced size is the
  size of the encoding, serialising into a region of that size stores the encoding there, and
  parsing the encoding gives the message back. Type names hold no zero byte.\<close>

definition proto_law :: "'m proto \<Rightarrow> 'm \<Rightarrow> byte list \<Rightarrow> bool" where
  "proto_law P m enc \<longleftrightarrow> unat (ByteSizeLong P m) = length enc \<and>
     (\<forall>dst. length dst = length enc \<longrightarrow> SerializeToArray P m dst = (True, enc)) \<and>
     ParseFromArray P enc = Some m \<and> 0 \<notin> set (map of_char (full_name P) :: byte list)"

definition PACKET_ID :: "'m proto \<Rightarrow> fault + u32" where
  "PACKET_ID P = fnv1a (c_str (full_name P))"

definition SerializeUnifiedPacket :: "'m proto \<Rightarrow> 'm \<Rightarrow> fault + byte list" where
  "SerializeUnifiedPacket P msg =
     (let payload_size = ByteSizeLong P msg;
          total_packet_size = ucast UNIFIED_HEADER_SIZE + payload_size;
          packet_data = replicate (unat total_packet_size) 0
      in rbind (PACKET_ID P) (\<lambda>pid.
         if length packet_data < 8 then Inl WriteOverrun
         else
          let packet_data = overwrite packet_data 0
                (header_bytes (InitializePacketHeader (ucast total_packet_size) pid));
              (_, payload) = SerializeToArray P msg (drop 8 packet_data)
          in Inr (overwrite packet_data 8 payload)))"

section \<open>Dispatch of one packet\<close>

type_synonym 's packet_handlers = "u32 \<rightharpoonup> (byte list \<Rightarrow> 's \<Rightarrow> 's)"

definition ProcessUnifiedPacket ::
  "byte list \<Rightarrow> u64 \<Rightarrow> 's packet_handlers \<Rightarrow> 's \<Rightarrow> fault + (bool \<times> 's)" where
  "ProcessUnifiedPacket packet_data packet_size handlers s =
     (if packet_size < ucast UNIFIED_HEADER_SIZE then Inr (False, s)
      else rbind (header_at packet_data) (\<lambda>header.
        if \<not> IsValidPacketSize (h_length header) \<or> ucast (h_length header) \<noteq> packet_size
        then Inr (False, s)
        else case handlers (h_packet_id header) of
            None \<Rightarrow> Inr (False, s)
          | Some handler \<Rightarrow>
              (if length packet_data < unat packet_size then Inl ReadOverrun
               else Inr (True, handler (slice packet_data 8 (unat packet_size - 8)) s))))"

section \<open>Facts\<close>

lemma length_header_bytes [simp]: "length (header_bytes h) = 8"
  by (simp add: header_bytes_def)

lemma header_at_header_bytes: "header_at (header_bytes h @ rest) = Inr h"
proof -
  have "slice (header_bytes h @ rest) 0 4 = bytes_of_word (h_length h)"
    "slice (header_bytes h @ rest) 4 4 = bytes_of_word (h_packet_id h)"
    by (simp_all add: slice_def header_bytes_def)
  then show ?thesis
    by (simp add: header_at_def le_simps)
qed

lemma IsValidPacketSize_unat: "IsValidPacketSize n \<longleftrightarrow> 8 \<le> unat n \<and> unat n \<le> 4194304"
  by (simp add: IsValidPacketSize_def MIN_PACKET_SIZE_def MAX_PACKET_SIZE_def UNIFIED_HEADER_SIZE_def
      word_le_nat_alt)

lemma PACKET_ID_total:
  "0 \<notin> set (map of_char (full_name P) :: byte list) \<Longrightarrow>
   PACKET_ID P = Inr (fnv_hash (map of_char (full_name P)))"
  unfolding PACKET_ID_def c_str_def by (rule fnv1a_fold)

lemma SerializeUnifiedPacket_bytes:
  assumes "proto_law P m enc" "length enc \<le> 4194296"
  shows "\<exists>pid. PACKET_ID P = Inr pid \<and>
    SerializeUnifiedPacket P m =
      Inr (header_bytes \<lparr>h_length = of_nat (8 + length enc), h_packet_id = pid\<rparr> @ enc)"
proof -
  define pid where "pid = fnv_hash (map of_char (full_name P))"
  have pid: "PACKET_ID P = Inr pid"
    using assms(1) PACKET_ID_total unfolding proto_law_def pid_def by blast
  have "ByteSizeLong P m = of_nat (length enc)"
    using assms by (simp add: proto_law_def word_unat_eq_iff unat_of_nat)
  then have tot: "(ucast UNIFIED_HEADER_SIZE + ByteSizeLong P m :: u64) = of_nat (8 + length enc)"
    by (simp add: UNIFIED_HEADER_SIZE_def)
  have u: "unat (of_nat (8 + length enc) :: u64) = 8 + length enc"
    "(ucast (of_nat (8 + length enc) :: u64) :: u32) = of_nat (8 + length enc)"
    using assms(2) by (intro unat_of_nat_u64 ucast_of_nat; simp)+
  let ?h = "header_bytes \<lparr>h_length = of_nat (8 + length enc), h_packet_id = pid\<rparr>"
  have "overwrite (replicate (8 + length enc) 0) 0 ?h = ?h @ replicate (length enc) 0"
    by (simp add: overwrite_def)
  moreover have "SerializeToArray P m (replicate (length enc) 0) = (True, enc)"
    using assms(1) by (simp add: proto_law_def)
  moreover have "overwrite (?h @ replicate (length enc) 0) 8 enc = ?h @ enc"
    by (simp add: overwrite_def)
  ultimately show ?thesis
    unfolding SerializeUnifiedPacket_def Let_def tot u
    by (simp add: pid InitializePacketHeader_def del: of_nat_add)
qed

text \<open>The specification of dispatch, on numbers: which handler a run of bytes addresses.\<close>

definition addressed_handler :: "byte list \<Rightarrow> 's packet_handlers \<Rightarrow> (byte list \<Rightarrow> 's \<Rightarrow> 's) option" where
  "addressed_handler data hs =
     (if 8 \<le> length data \<and> length data \<le> 4194304 \<and> of_le_bytes (take 4 data) = length data
      then hs (word_of_bytes (take 4 (drop 4 data))) else None)"

lemma ProcessUnifiedPacket_spec:
  assumes "length data < 2 ^ 64"
  shows "ProcessUnifiedPacket data (of_nat (length data)) hs s =
    Inr (case addressed_handler data hs of None \<Rightarrow> (False, s) | Some h \<Rightarrow> (True, h (drop 8 data) s))"
proof (cases "length data < 8")
  case True
  then show ?thesis
    using assms by (simp add: ProcessUnifiedPacket_def addressed_handler_def UNIFIED_HEADER_SIZE_def
        word_less_nat_alt unat_of_nat)
next
  case False
  have hd: "header_at data =
      Inr \<lparr>h_length = word_of_bytes (take 4 data), h_packet_id = word_of_bytes (take 4 (drop 4 data))\<rparr>"
    using False by (simp add: header_at_def slice_def)
  have len: "unat (word_of_bytes (take 4 data) :: u32) = of_le_bytes (take 4 data)"
    using False by (intro unat_word_of_bytes_u32) simp
  have eq: "(ucast (word_of_bytes (take 4 data) :: u32) = (of_nat (length data) :: u64)) \<longleftrightarrow>
      of_le_bytes (take 4 data) = length data"
    using assms by (simp add: word_unat_eq_iff unat_of_nat unat_ucast_u32_u64 len)
  have small: "\<not> (of_nat (length data) :: u64) < ucast UNIFIED_HEADER_SIZE"
    using False assms by (simp add: UNIFIED_HEADER_SIZE_def word_less_nat_alt unat_of_nat)
  have sl: "slice data 8 (length data - 8) = drop 8 data"
    by (simp add: slice_def)
  show ?thesis
    unfolding ProcessUnifiedPacket_def addressed_handler_def hd
    using small False assms
    by (simp add: IsValidPacketSize_unat len eq unat_of_nat sl split: option.split)
qed

section \<open>Properties\<close>

text \<open>C2: Sending and dispatching fit together: the bytes \<open>SerializeUnifiedPacket\<close> builds for a
  message of at most 4 MiB are accepted by \<open>ProcessUnifiedPacket\<close>, which calls the handler
  registered under the message type's id, once, with exactly the serialised payload, from which
  the message can be parsed back.\<close>

theorem packet_roundtrip:
  assumes "proto_law P m enc" "length enc \<le> 4194296" "PACKET_ID P = Inr pid" "hs pid = Some h"
  shows "\<exists>pkt. SerializeUnifiedPacket P m = Inr pkt \<and> length pkt = 8 + length enc \<and>
    ProcessUnifiedPacket pkt (of_nat (length pkt)) hs s = Inr (True, h enc s) \<and>
    ParseFromArray P enc = Some m"
proof -
  let ?hdr = "\<lparr>h_length = of_nat (8 + length enc), h_packet_id = pid\<rparr>"
  let ?pkt = "header_bytes ?hdr @ enc"
  have "SerializeUnifiedPacket P m = Inr ?pkt"
    using SerializeUnifiedPacket_bytes [OF assms(1,2)] assms(3) by auto
  moreover have "header_at ?pkt = Inr ?hdr"
    by (rule header_at_header_bytes)
  then have "word_of_bytes (take 4 ?pkt) = (of_nat (8 + length enc) :: u32)"
    "word_of_bytes (take 4 (drop 4 ?pkt)) = pid"
    by (simp_all add: header_at_def slice_def)
  moreover have "unat (word_of_bytes (take 4 ?pkt) :: u32) = of_le_bytes (take 4 ?pkt)"
    by (intro unat_word_of_bytes_u32) simp
  moreover have "unat (of_nat (8 + length enc) :: u32) = 8 + length enc"
    using assms(2) by (intro unat_of_nat_u32) simp
  ultimately have "addressed_handler ?pkt hs = Some h"
    using assms(2,4) by (simp add: addressed_handler_def)
  then have "ProcessUnifiedPacket ?pkt (of_nat (length ?pkt)) hs s = Inr (True, h enc s)"
    using ProcessUnifiedPacket_spec [of ?pkt hs s] assms(2) by simp
  then show ?thesis
    using \<open>SerializeUnifiedPacket P m = Inr ?pkt\<close> assms(1) by (simp add: proto_law_def)
qed

text \<open>A message type with one field, encoded as its bytes.\<close>

definition raw_proto :: "byte list proto" where
  "raw_proto = \<lparr>full_name = ''game.Raw'', ByteSizeLong = (\<lambda>m. of_nat (length m)),
     SerializeToArray = (\<lambda>m dst. (True, m)), ParseFromArray = (\<lambda>bs. Some bs)\<rparr>"

theorem packet_roundtrip_witness:
  "\<exists>pkt. SerializeUnifiedPacket raw_proto [1, 2, 3] = Inr pkt \<and> length pkt = 8 + length [1, 2, 3 :: byte] \<and>
    ProcessUnifiedPacket pkt (of_nat (length pkt)) (\<lambda>_. Some (\<lambda>bs s. bs @ s)) [9] = Inr (True, [1, 2, 3, 9]) \<and>
    ParseFromArray raw_proto [1, 2, 3] = Some [1, 2, 3]"
proof -
  have law: "proto_law raw_proto [1, 2, 3] [1, 2, 3]"
    by (simp add: proto_law_def raw_proto_def)
  then obtain pid where "PACKET_ID raw_proto = Inr pid"
    using SerializeUnifiedPacket_bytes [OF law] by auto
  from packet_roundtrip [OF law _ this, of "\<lambda>_. Some (\<lambda>bs s. bs @ s)" "\<lambda>bs s. bs @ s" "[9]"]
  show ?thesis by simp
qed

text \<open>C20: Dispatch of an arbitrary run of bytes never reads outside it and does exactly what the
  specification says: the addressed handler runs once on the bytes behind the header, or, when the
  packet is short, of invalid or inconsistent length, or of unknown type, nothing runs and the
  result is false.\<close>

theorem dispatch_meets_spec:
  assumes "length data < 2 ^ 64"
  shows "ProcessUnifiedPacket data (of_nat (length data)) hs s =
    Inr (case addressed_handler data hs of None \<Rightarrow> (False, s) | Some h \<Rightarrow> (True, h (drop 8 data) s))"
  using assms by (rule ProcessUnifiedPacket_spec)

theorem dispatch_meets_spec_witness:
  "ProcessUnifiedPacket [8, 0, 0, 0, 7, 0, 0, 0] (of_nat (length [8, 0, 0, 0, 7, 0, 0, 0 :: byte])) [7 \<mapsto> (\<lambda>bs s. s + 1)] (0::nat) =
    Inr (True, 1)"
proof -
  have "addressed_handler [8, 0, 0, 0, 7, 0, 0, 0] [7 \<mapsto> (\<lambda>bs s. s + 1)] = Some (\<lambda>bs (s::nat). s + 1)"
    by (simp add: addressed_handler_def word_of_bytes_def)
  then show ?thesis
    using dispatch_meets_spec [of "[8, 0, 0, 0, 7, 0, 0, 0]" "[7 \<mapsto> (\<lambda>bs s. s + 1)]" "0::nat"] by simp
qed

end
