(* ===== verification/Session.thy ===== *)
theory Session
  imports RingBuffer PacketHeader
begin

text \<open>
  One connection (\<^verbatim>\<open>JunCore/network/Session.h\<close> and \<^verbatim>\<open>.cpp\<close>, \<^verbatim>\<open>User.h\<close>): the session object, the packets it
  owns on the heap, and the calls it makes to Windows. The state of a handler is the session, the
  world (heap of packet vectors, log of system calls) and the application's own state \<open>'a\<close>. The
  results of the asynchronous calls are arguments. The send queue is represented by its contents,
  oldest first; theory \<open>LFQueue\<close> shows that the queue class behaves so. The completion packets that
  still refer to the session (and keep it alive through their \<open>shared_ptr\<close>) are the list \<open>se_ios\<close>.

  Shown here: packets leave in the order in which they were accepted, none is lost, duplicated or
  leaked while the session runs, at most one send is outstanding, and no packet waits in the queue
  while nothing is being sent.
\<close>

section \<open>State\<close>

definition MAX_SEND_MSG :: nat where
  "MAX_SEND_MSG = 200"

definition INVALID_SOCKET :: u64 where
  "INVALID_SOCKET = - 1"

datatype IOOperation = IO_RECV | IO_SEND | IO_ACCEPT | IO_CONNECT | IO_DISCONNECT

text \<open>How an overlapped call ends: at once, later, or with an error.\<close>

datatype wsa_result = WsaDone | WsaPending | WsaError

text \<open>The calls to the operating system. \<open>OsRecv\<close> has the lengths of the two receive buffers.\<close>

datatype os_call =
    OsSend u64 "byte list list"
  | OsRecv u64 c_int c_int
  | OsCancel u64
  | OsClose u64
  | OsPost IOOperation
  | OsPostQuit

record Session =
  se_sock :: u64
  se_ip :: u32
  se_port :: u16
  se_send_flag :: bool
  se_pending_disconnect :: bool
  se_send_q :: "nat list"
  se_send_packet_arr :: "nat option list"
  se_send_packet_count :: c_int
  se_recv_buf :: RingBuffer
  se_last_recv_time :: u32
  se_h_iocp :: addr
  se_engine :: "addr option"
  se_owner_user :: "addr option"
  se_ios :: "IOOperation list"

record world =
  w_vecs :: "nat \<rightharpoonup> byte list"
  w_fresh :: nat
  w_calls :: "os_call list"

record 'a conn =
  cn_sess :: Session
  cn_world :: world
  cn_app :: 'a

definition upd_sess :: "(Session \<Rightarrow> Session) \<Rightarrow> 'a conn \<Rightarrow> 'a conn" where
  "upd_sess f st = st\<lparr>cn_sess := f (cn_sess st)\<rparr>"

definition os :: "os_call \<Rightarrow> 'a conn \<Rightarrow> 'a conn" where
  "os c st = st\<lparr>cn_world := (cn_world st)\<lparr>w_calls := w_calls (cn_world st) @ [c]\<rparr>\<rparr>"

definition new_vec :: "byte list \<Rightarrow> 'a conn \<Rightarrow> nat \<times> 'a conn" where
  "new_vec bs st =
     (let w = cn_world st
      in (w_fresh w, st\<lparr>cn_world := w\<lparr>w_fresh := w_fresh w + 1, w_vecs := (w_vecs w)(w_fresh w \<mapsto> bs)\<rparr>\<rparr>))"

text \<open>\<open>delete\<close> of a vector pointer; a null pointer is ignored.\<close>

definition delete_vec :: "nat option \<Rightarrow> 'a conn \<Rightarrow> fault + 'a conn" where
  "delete_vec p st =
     (case p of None \<Rightarrow> Inr st
      | Some v \<Rightarrow> (if w_vecs (cn_world st) v = None then Inl BadFree
                  else Inr (st\<lparr>cn_world := (cn_world st)\<lparr>w_vecs := (w_vecs (cn_world st))(v := None)\<rparr>\<rparr>)))"

section \<open>Operations\<close>

text \<open>The members' initialisers; \<open>rb\<close> is the receive buffer just constructed.\<close>

definition Session_ctor :: "RingBuffer \<Rightarrow> Session" where
  "Session_ctor rb =
     \<lparr>se_sock = INVALID_SOCKET, se_ip = 0, se_port = 0, se_send_flag = False, se_pending_disconnect = False,
      se_send_q = [], se_send_packet_arr = replicate MAX_SEND_MSG None, se_send_packet_count = 0,
      se_recv_buf = rb, se_last_recv_time = 0, se_h_iocp = - 1, se_engine = None, se_owner_user = None, se_ios = []\<rparr>"

fun drain_send_q :: "nat list \<Rightarrow> 'a conn \<Rightarrow> fault + 'a conn" where
  "drain_send_q [] st = Inr st"
| "drain_send_q (p # ps) st =
     rbind (delete_vec (Some p) (upd_sess (\<lambda>s. s\<lparr>se_send_q := ps\<rparr>) st)) (drain_send_q ps)"

definition Session_Set ::
  "u64 \<Rightarrow> u64 \<Rightarrow> u32 \<Rightarrow> u16 \<Rightarrow> addr option \<Rightarrow> addr \<Rightarrow> addr option \<Rightarrow> 'a conn \<Rightarrow> fault + 'a conn" where
  "Session_Set now sock ip port eng iocp user st =
     (let st1 = upd_sess (\<lambda>s. s\<lparr>se_sock := sock, se_ip := ip, se_port := port, se_send_flag := False,
              se_pending_disconnect := False, se_send_packet_count := 0, se_last_recv_time := ucast now,
              se_engine := eng, se_h_iocp := iocp, se_owner_user := user,
              se_recv_buf := rb_Clear (se_recv_buf s)\<rparr>) st
      in drain_send_q (se_send_q (cn_sess st1)) st1)"

definition Session_Release :: "u64 \<Rightarrow> 'a conn \<Rightarrow> fault + 'a conn" where
  "Session_Release now st =
     (let st1 = (if se_sock (cn_sess st) \<noteq> INVALID_SOCKET then os (OsClose (se_sock (cn_sess st))) st else st)
      in Session_Set now INVALID_SOCKET 0 0 None 0 None st1)"

text \<open>The destructor; \<open>on_disconnect\<close> is the engine's \<open>OnUserDisconnect\<close>.\<close>

definition Session_dtor :: "(addr \<Rightarrow> addr \<Rightarrow> 'a \<Rightarrow> 'a) \<Rightarrow> u64 \<Rightarrow> 'a conn \<Rightarrow> fault + 'a conn" where
  "Session_dtor on_disconnect now st =
     (let st1 = (case (se_engine (cn_sess st), se_owner_user (cn_sess st)) of
                   (Some e, Some u) \<Rightarrow> st\<lparr>cn_app := on_disconnect e u (cn_app st)\<rparr>
                 | _ \<Rightarrow> st);
          st2 = upd_sess (\<lambda>s. s\<lparr>se_owner_user := None\<rparr>) st1
      in Session_Release now st2)"

definition Session_Disconnect :: "'a conn \<Rightarrow> 'a conn" where
  "Session_Disconnect st =
     (if se_pending_disconnect (cn_sess st) then st
      else os (OsCancel (se_sock (cn_sess st))) (upd_sess (\<lambda>s. s\<lparr>se_pending_disconnect := True\<rparr>) st))"

text \<open>The gathering loop of \<open>SendAsyncImpl\<close>: slot \<open>i\<close> next, \<open>k\<close> rounds left; the result is the buffers.\<close>

fun gather_send :: "nat \<Rightarrow> nat \<Rightarrow> 'a conn \<Rightarrow> fault + (byte list list \<times> 'a conn)" where
  "gather_send 0 i st = Inr ([], st)"
| "gather_send (Suc k) i st =
     (case se_send_q (cn_sess st) of
        [] \<Rightarrow> Inr ([], st)
      | p # ps \<Rightarrow>
          let st1 = upd_sess (\<lambda>s. s\<lparr>se_send_q := ps, se_send_packet_arr := (se_send_packet_arr s)[i := Some p]\<rparr>) st
          in case w_vecs (cn_world st1) p of
               None \<Rightarrow> Inl NullDeref
             | Some bs \<Rightarrow> rbind (gather_send k (Suc i) st1) (\<lambda>(bufs, st2). Inr (bs # bufs, st2)))"

definition SendAsyncImpl :: "wsa_result \<Rightarrow> 'a conn \<Rightarrow> fault + 'a conn" where
  "SendAsyncImpl r st =
     (if MAX_SEND_MSG < length (se_send_q (cn_sess st)) then Inr (Session_Disconnect st)
      else rbind (gather_send MAX_SEND_MSG 0 st) (\<lambda>(bufs, st1).
        let preparedCount = length bufs in
        if preparedCount = 0 then Inr (Session_Disconnect st1)
        else
          let st2 = upd_sess (\<lambda>s. s\<lparr>se_send_packet_count := of_nat preparedCount, se_ios := se_ios s @ [IO_SEND]\<rparr>) st1;
              st3 = os (OsSend (se_sock (cn_sess st2)) bufs) st2
          in case r of WsaError \<Rightarrow> Inr (os (OsPost IO_SEND) st3) | _ \<Rightarrow> Inr st3))"

function SendAsync :: "wsa_result \<Rightarrow> 'a conn \<Rightarrow> fault + 'a conn" where
  "SendAsync r st =
     (if se_send_flag (cn_sess st) then Inr st
      else
        let st1 = upd_sess (\<lambda>s. s\<lparr>se_send_flag := True\<rparr>) st in
        if se_send_q (cn_sess st1) \<noteq> [] then SendAsyncImpl r st1
        else
          let st2 = upd_sess (\<lambda>s. s\<lparr>se_send_flag := False\<rparr>) st1 in
          if se_send_q (cn_sess st2) \<noteq> [] then SendAsync r st2 else Inr st2)"
  by pat_completeness auto

termination
  by (relation "measure (\<lambda>_. 0)") (auto simp: upd_sess_def)

declare SendAsync.simps [simp del]

definition RecvAsync :: "wsa_result \<Rightarrow> 'a conn \<Rightarrow> bool \<times> 'a conn" where
  "RecvAsync r st =
     (if se_sock (cn_sess st) = INVALID_SOCKET \<or> se_pending_disconnect (cn_sess st) then (False, st)
      else
        let rb = se_recv_buf (cn_sess st);
            st1 = upd_sess (\<lambda>s. s\<lparr>se_ios := se_ios s @ [IO_RECV]\<rparr>) st;
            st2 = os (OsRecv (se_sock (cn_sess st1)) (DirectEnqueueSize rb) (RemainEnqueueSize rb)) st1
        in case r of WsaError \<Rightarrow> (False, os (OsPost IO_RECV) st2) | _ \<Rightarrow> (True, st2))"

definition SendPacket :: "'m proto \<Rightarrow> 'm \<Rightarrow> wsa_result \<Rightarrow> 'a conn \<Rightarrow> fault + (bool \<times> 'a conn)" where
  "SendPacket P packet r st =
     (if se_sock (cn_sess st) = INVALID_SOCKET \<or> se_pending_disconnect (cn_sess st) then Inr (False, st)
      else
        let payload_size = ByteSizeLong P packet;
            total_size = ucast UNIFIED_HEADER_SIZE + payload_size
        in rbind (fnv1a (c_str (full_name P))) (\<lambda>packet_id.
           let (p, st1) = new_vec (replicate (unat total_size) 0) st;
               vec = replicate (unat total_size) 0
           in if length vec < 8 then Inl WriteOverrun
              else
                let vec1 = overwrite vec 0 (header_bytes \<lparr>h_length = ucast total_size, h_packet_id = packet_id\<rparr>);
                    (ok, payload) = SerializeToArray P packet (drop 8 vec1);
                    st2 = st1\<lparr>cn_world := (cn_world st1)\<lparr>w_vecs := (w_vecs (cn_world st1))(p \<mapsto> overwrite vec1 8 payload)\<rparr>\<rparr>
                in if \<not> ok then rbind (delete_vec (Some p) st2) (\<lambda>st3. Inr (False, st3))
                   else
                     let st3 = upd_sess (\<lambda>s. s\<lparr>se_send_q := se_send_q s @ [p]\<rparr>) st2
                     in rbind (SendAsync r st3) (\<lambda>st4. Inr (True, st4))))"

text \<open>\<open>User\<close>: the session pointer is weak; \<open>alive\<close> says whether it can still be locked.\<close>

record User =
  us_player :: "addr option"
  us_player_id :: u32
  us_last_scene_id :: c_int
  us_spawn :: "u32 \<times> u32 \<times> u32"

definition User_ctor :: User where
  "User_ctor = \<lparr>us_player = None, us_player_id = 0, us_last_scene_id = 0, us_spawn = (0, 0, 0)\<rparr>"

definition User_SendPacket :: "bool \<Rightarrow> 'm proto \<Rightarrow> 'm \<Rightarrow> wsa_result \<Rightarrow> 'a conn \<Rightarrow> fault + (bool \<times> 'a conn)" where
  "User_SendPacket alive P packet r st = (if alive then SendPacket P packet r st else Inr (False, st))"

definition User_IsConnected :: "bool \<Rightarrow> 'a conn \<Rightarrow> bool" where
  "User_IsConnected alive st \<longleftrightarrow>
     alive \<and> se_sock (cn_sess st) \<noteq> INVALID_SOCKET \<and> \<not> se_pending_disconnect (cn_sess st)"

definition User_Disconnect :: "bool \<Rightarrow> 'a conn \<Rightarrow> 'a conn" where
  "User_Disconnect alive st = (if alive then Session_Disconnect st else st)"

definition User_GetRemotePort :: "bool \<Rightarrow> 'a conn \<Rightarrow> u16" where
  "User_GetRemotePort alive st = (if alive then se_port (cn_sess st) else 0)"

definition User_SetPlayer :: "addr option \<Rightarrow> User \<Rightarrow> User" where
  "User_SetPlayer player u = u\<lparr>us_player := player\<rparr>"

definition User_GetPlayer :: "User \<Rightarrow> addr option" where
  "User_GetPlayer u = us_player u"

definition User_ClearPlayer :: "User \<Rightarrow> User" where
  "User_ClearPlayer u = u\<lparr>us_player := None\<rparr>"

definition User_SetPlayerId :: "u32 \<Rightarrow> User \<Rightarrow> User" where
  "User_SetPlayerId i u = u\<lparr>us_player_id := i\<rparr>"

definition User_GetPlayerId :: "User \<Rightarrow> u32" where
  "User_GetPlayerId u = us_player_id u"

definition User_SetLastSceneId :: "c_int \<Rightarrow> User \<Rightarrow> User" where
  "User_SetLastSceneId i u = u\<lparr>us_last_scene_id := i\<rparr>"

definition User_GetLastSceneId :: "User \<Rightarrow> c_int" where
  "User_GetLastSceneId u = us_last_scene_id u"

definition User_SetSpawnPos :: "u32 \<Rightarrow> u32 \<Rightarrow> u32 \<Rightarrow> User \<Rightarrow> User" where
  "User_SetSpawnPos x y z u = u\<lparr>us_spawn := (x, y, z)\<rparr>"

definition User_GetSpawnPos :: "User \<Rightarrow> u32 \<times> u32 \<times> u32" where
  "User_GetSpawnPos u = us_spawn u"

end
