(* ===== verification/NetBase.thy ===== *)
theory NetBase
  imports Session
begin

text \<open>
  The engine base class (\<^verbatim>\<open>JunCore/network/NetBase.h\<close>): the table of packet handlers, registration of
  a handler for a message type, and the call of the handler for a received packet. A handler gets
  the owner user of the session and the payload and works on the whole connection state, so that it
  can send, disconnect, or change the application's state.
\<close>

type_synonym 'a handler = "addr \<Rightarrow> byte list \<Rightarrow> 'a conn \<Rightarrow> fault + 'a conn"

record 'a NetBase =
  nb_packet_handlers :: "u32 \<rightharpoonup> 'a handler"
  nb_initialized :: bool

datatype net_error = NullManager | WSAStartupError

text \<open>The constructor: \<open>manager\<close> tells whether a manager was given, \<open>wsa\<close> whether Winsock started.\<close>

definition NetBase_ctor :: "bool \<Rightarrow> bool \<Rightarrow> net_error + 'a NetBase" where
  "NetBase_ctor manager wsa =
     (if \<not> manager then Inl NullManager
      else if \<not> wsa then Inl WSAStartupError
      else Inr \<lparr>nb_packet_handlers = Map.empty, nb_initialized = False\<rparr>)"

definition OnPacketReceived :: "(u32 \<rightharpoonup> 'a handler) \<Rightarrow> u32 \<Rightarrow> byte list \<Rightarrow> 'a conn \<Rightarrow> fault + 'a conn" where
  "OnPacketReceived hs packet_id payload st =
     (case hs packet_id of
        Some h \<Rightarrow> (case se_owner_user (cn_sess st) of Some user \<Rightarrow> h user payload st | None \<Rightarrow> Inr st)
      | None \<Rightarrow> Inr st)"

definition RegisterPacketHandler ::
  "'m proto \<Rightarrow> (addr \<Rightarrow> 'm \<Rightarrow> 'a conn \<Rightarrow> fault + 'a conn) \<Rightarrow> 'a NetBase \<Rightarrow> fault + 'a NetBase" where
  "RegisterPacketHandler P handler nb =
     rbind (fnv1a (c_str (full_name P))) (\<lambda>packet_id.
       Inr (nb\<lparr>nb_packet_handlers := (nb_packet_handlers nb)(packet_id \<mapsto>
              (\<lambda>user payload st. case ParseFromArray P payload of Some message \<Rightarrow> handler user message st | None \<Rightarrow> Inr st))\<rparr>))"

text \<open>\<open>Initialize\<close>; \<open>register\<close> is the derived class's \<open>RegisterPacketHandlers\<close>.\<close>

definition NetBase_Initialize :: "('a NetBase \<Rightarrow> fault + 'a NetBase) \<Rightarrow> 'a NetBase \<Rightarrow> fault + 'a NetBase" where
  "NetBase_Initialize register nb =
     (if nb_initialized nb then Inr nb
      else rbind (register nb) (\<lambda>nb'. Inr (nb'\<lparr>nb_initialized := True\<rparr>)))"

definition NetBase_IsInitialized :: "'a NetBase \<Rightarrow> bool" where
  "NetBase_IsInitialized nb = nb_initialized nb"

end
