(* ===== verification/IOCP.thy ===== *)
theory IOCP
  imports NetBase
begin

text \<open>
  The completion handlers and the worker loop (\<^verbatim>\<open>JunCore/network/IOCPManager.h\<close> and \<^verbatim>\<open>.cpp\<close>): packet
  assembly from the receive buffer, the end of a send, and the dispatch of one completion packet.

  Shown here: packet assembly delivers exactly the packets of the byte stream, whatever the sizes of
  the received pieces, and where it stops (an invalid length, more than a thousand packets in one
  piece, a packet that does not fit into the buffer).
\<close>

section \<open>Receive completion\<close>

text \<open>The loop of \<open>HandleRecvComplete\<close>; \<open>n\<close> rounds are left of \<open>MAX_LOOP_COUNT\<close>. The flag tells
  whether it was left by \<open>break\<close> (the handler goes on) or by \<open>return\<close>.\<close>

fun recv_loop :: "(u32 \<rightharpoonup> 'a handler) \<Rightarrow> nat \<Rightarrow> 'a conn \<Rightarrow> fault + (bool \<times> 'a conn)" where
  "recv_loop hs 0 st = Inr (False, st)"
| "recv_loop hs (Suc n) st =
     (let rb = se_recv_buf (cn_sess st); recv_byte = GetUseSize rb in
      if recv_byte < UNIFIED_HEADER_SIZE then Inr (True, st)
      else rbind (Peek 4 rb) (\<lambda>(len_bytes, _).
        let packet_len = word_of_bytes len_bytes :: u32 in
        if \<not> IsValidPacketSize packet_len then Inr (False, st)
        else if recv_byte < packet_len then Inr (True, st)
        else rbind (Dequeue (ucast packet_len) rb) (\<lambda>(bs, _, rb').
          let st1 = upd_sess (\<lambda>s. s\<lparr>se_recv_buf := rb'\<rparr>) st;
              packet = overwrite (replicate (unat packet_len) 0) 0 bs
          in rbind (header_at packet) (\<lambda>header.
             let payload = drop 8 packet in
             case se_engine (cn_sess st1) of
               Some engine \<Rightarrow> rbind (OnPacketReceived hs (h_packet_id header) payload st1) (recv_loop hs n)
             | None \<Rightarrow> Inr (False, st1)))))"

definition MAX_LOOP_COUNT :: nat where
  "MAX_LOOP_COUNT = 1000"

definition HandleRecvComplete :: "(u32 \<rightharpoonup> 'a handler) \<Rightarrow> wsa_result \<Rightarrow> u64 \<Rightarrow> u32 \<Rightarrow> 'a conn \<Rightarrow> fault + 'a conn" where
  "HandleRecvComplete hs r now ioSize st =
     (let st1 = upd_sess (\<lambda>s. s\<lparr>se_recv_buf := MoveRear ioSize (se_recv_buf s), se_last_recv_time := ucast now\<rparr>) st
      in rbind (recv_loop hs MAX_LOOP_COUNT st1) (\<lambda>(broke, st2).
           Inr (if broke \<and> \<not> se_pending_disconnect (cn_sess st2) then snd (RecvAsync r st2) else st2)))"

section \<open>Send completion\<close>

text \<open>The deletion loop: slots from \<open>i\<close> on, \<open>k\<close> of them.\<close>

fun delete_sent :: "nat \<Rightarrow> nat \<Rightarrow> 'a conn \<Rightarrow> fault + 'a conn" where
  "delete_sent 0 i st = Inr st"
| "delete_sent (Suc k) i st =
     (if i < length (se_send_packet_arr (cn_sess st))
      then rbind (delete_vec (se_send_packet_arr (cn_sess st) ! i) st) (\<lambda>st1.
             delete_sent k (Suc i) (upd_sess (\<lambda>s. s\<lparr>se_send_packet_arr := (se_send_packet_arr s)[i := None]\<rparr>) st1))
      else Inl ReadOverrun)"

definition HandleSendComplete :: "wsa_result \<Rightarrow> 'a conn \<Rightarrow> fault + 'a conn" where
  "HandleSendComplete r st =
     rbind (delete_sent (nat (sint (se_send_packet_count (cn_sess st)))) 0 st) (\<lambda>st1.
       let st2 = upd_sess (\<lambda>s. s\<lparr>se_send_packet_count := 0, se_send_flag := False\<rparr>) st1 in
       if se_pending_disconnect (cn_sess st2) then Inr st2
       else if se_send_q (cn_sess st2) \<noteq> [] then SendAsync r st2
       else Inr st2)"

section \<open>One completion packet\<close>

text \<open>What \<open>GetQueuedCompletionStatus\<close> delivers: the byte count and the overlapped pointer with its
  operation (none for the quit packet). The handlers of \<open>IO_ACCEPT\<close> and \<open>IO_CONNECT\<close> are arguments;
  their models belong to the server and the client. Deleting the overlapped object drops its
  reference: when it was the last one, the session is destroyed.\<close>

record 'a worker_env =
  we_handlers :: "u32 \<rightharpoonup> 'a handler"
  we_accept :: "'a conn \<Rightarrow> fault + 'a conn"
  we_connect :: "'a conn \<Rightarrow> fault + 'a conn"
  we_on_disconnect :: "addr \<Rightarrow> addr \<Rightarrow> 'a \<Rightarrow> 'a"

definition delete_overlapped :: "(addr \<Rightarrow> addr \<Rightarrow> 'a \<Rightarrow> 'a) \<Rightarrow> u64 \<Rightarrow> IOOperation \<Rightarrow> 'a conn \<Rightarrow> fault + 'a conn" where
  "delete_overlapped on_disc now io st =
     (let st1 = upd_sess (\<lambda>s. s\<lparr>se_ios := remove1 io (se_ios s)\<rparr>) st
      in if se_ios (cn_sess st1) = [] then Session_dtor on_disc now st1 else Inr st1)"

definition worker_dispatch ::
  "'a worker_env \<Rightarrow> wsa_result \<Rightarrow> u64 \<Rightarrow> u32 \<Rightarrow> (addr \<times> IOOperation) option \<Rightarrow> 'a conn \<Rightarrow> fault + (bool \<times> 'a conn)" where
  "worker_dispatch env r now ioSize ov st =
     (case ov of
        None \<Rightarrow> (if ioSize = 0 then Inr (True, os OsPostQuit st) else Inl NullDeref)
      | Some (ptr, io) \<Rightarrow>
          rbind (if ioSize = 0 \<and> io \<noteq> IO_ACCEPT \<and> io \<noteq> IO_CONNECT then Inr st
                 else if 0 < ptr \<and> ptr < 6 then Inr st
                 else (case io of
                     IO_RECV \<Rightarrow> HandleRecvComplete (we_handlers env) r now ioSize st
                   | IO_SEND \<Rightarrow> HandleSendComplete r st
                   | IO_ACCEPT \<Rightarrow> we_accept env st
                   | IO_CONNECT \<Rightarrow> we_connect env st
                   | IO_DISCONNECT \<Rightarrow> Inr st))
            (\<lambda>st1. rbind (delete_overlapped (we_on_disconnect env) now io st1) (\<lambda>st2. Inr (False, st2))))"

section \<open>The packets of a byte stream\<close>

text \<open>The specification of packet assembly: the packets at the front of a run of bytes, what is left
  behind the last complete one, and whether the rest can still become a packet.\<close>

function frames :: "byte list \<Rightarrow> (u32 \<times> byte list) list \<times> byte list \<times> bool" where
  "frames bs =
     (let n = of_le_bytes (take 4 bs) in
      if length bs < 8 then ([], bs, True)
      else if n < 8 \<or> 4194304 < n then ([], bs, False)
      else if length bs < n then ([], bs, True)
      else let (ps, rest, ok) = frames (drop n bs)
           in ((word_of_bytes (take 4 (drop 4 bs)), drop 8 (take n bs)) # ps, rest, ok))"
  by pat_completeness auto

termination
  by (relation "measure length") auto

declare frames.simps [simp del]

lemma frames_append:
  assumes "frames xs = (ps, rest, ok)"
  shows "frames (xs @ ys) = (if ok then let (qs, r, k) = frames (rest @ ys) in (ps @ qs, r, k) else (ps, rest @ ys, False))"
  using assms
proof (induction xs arbitrary: ps rest ok rule: frames.induct)
  case (1 xs)
  let ?n = "of_le_bytes (take 4 xs)"
  consider "length xs < 8" | "8 \<le> length xs" "?n < 8 \<or> 4194304 < ?n"
    | "8 \<le> length xs" "\<not> (?n < 8 \<or> 4194304 < ?n)" "length xs < ?n"
    | "8 \<le> length xs" "\<not> (?n < 8 \<or> 4194304 < ?n)" "?n \<le> length xs" by linarith
  then show ?case
  proof cases
    case 1
    then show ?thesis using "1.prems" by (subst (asm) frames.simps) (auto simp: split_beta)
  next
    case 2
    then show ?thesis using "1.prems"
      by (subst (asm) frames.simps) (subst frames.simps, auto simp: Let_def)
  next
    case 3
    then show ?thesis using "1.prems" by (subst (asm) frames.simps) (auto simp: split_beta Let_def)
  next
    case 4
    obtain ps' where fr: "frames (drop ?n xs) = (ps', rest, ok)"
      and ps: "ps = (word_of_bytes (take 4 (drop 4 xs)), drop 8 (take ?n xs)) # ps'"
      using 4 "1.prems" by (subst (asm) frames.simps) (auto simp: Let_def split: prod.splits)
    have "frames (xs @ ys) = (let (qs, r, k) = frames (drop ?n xs @ ys)
        in ((word_of_bytes (take 4 (drop 4 xs)), drop 8 (take ?n xs)) # qs, r, k))"
      using 4 by (subst frames.simps) (simp add: Let_def)
    also have "frames (drop ?n xs @ ys) =
        (if ok then let (qs, r, k) = frames (rest @ ys) in (ps' @ qs, r, k) else (ps', rest @ ys, False))"
      using "1.IH" [OF refl _ _ _ fr] 4 by auto
    finally show ?thesis
      by (auto simp: ps split_beta Let_def)
  qed
qed

section \<open>Packet assembly meets the specification\<close>

definition with_rb :: "RingBuffer \<Rightarrow> 'a conn \<Rightarrow> 'a conn" where
  "with_rb rb st = upd_sess (\<lambda>s. s\<lparr>se_recv_buf := rb\<rparr>) st"

lemma with_rb_simps [simp]:
  "se_recv_buf (cn_sess (with_rb rb st)) = rb" "se_engine (cn_sess (with_rb rb st)) = se_engine (cn_sess st)"
  "se_owner_user (cn_sess (with_rb rb st)) = se_owner_user (cn_sess st)"
  "se_pending_disconnect (cn_sess (with_rb rb st)) = se_pending_disconnect (cn_sess st)"
  "with_rb rb (with_rb rb' st) = with_rb rb st" "with_rb (se_recv_buf (cn_sess st)) st = st"
  "cn_app (with_rb rb st) = cn_app st" "cn_world (with_rb rb st) = cn_world st"
  by (simp_all add: with_rb_def upd_sess_def)

fun deliver :: "(u32 \<rightharpoonup> 'a handler) \<Rightarrow> (u32 \<times> byte list) list \<Rightarrow> 'a conn \<Rightarrow> fault + 'a conn" where
  "deliver hs [] st = Inr st"
| "deliver hs ((pid, payload) # ps) st = rbind (OnPacketReceived hs pid payload st) (deliver hs ps)"

text \<open>What packet assembly relies on of the handlers: they neither read nor write the receive buffer
  of the session and leave its engine alone.\<close>

definition handlers_ok :: "(u32 \<rightharpoonup> 'a handler) \<Rightarrow> bool" where
  "handlers_ok hs \<longleftrightarrow> (\<forall>pid h user payload st. hs pid = Some h \<longrightarrow>
     (\<forall>rb. h user payload (with_rb rb st) = rbind (h user payload st) (\<lambda>st'. Inr (with_rb rb st'))) \<and>
     (\<forall>st'. h user payload st = Inr st' \<longrightarrow> se_engine (cn_sess st') = se_engine (cn_sess st)))"

lemma OnPacketReceived_rb:
  assumes "handlers_ok hs"
  shows "OnPacketReceived hs pid payload (with_rb rb st) =
      rbind (OnPacketReceived hs pid payload st) (\<lambda>st'. Inr (with_rb rb st'))"
    and "OnPacketReceived hs pid payload st = Inr st' \<Longrightarrow> se_engine (cn_sess st') = se_engine (cn_sess st)"
  using assms by (auto simp: OnPacketReceived_def handlers_ok_def split: option.splits)

lemma rbind_assoc: "rbind (rbind m k) f = rbind m (\<lambda>x. rbind (k x) f)"
  by (cases m) simp_all

lemma deliver_rb:
  assumes "handlers_ok hs"
  shows "deliver hs ps (with_rb rb st) = rbind (deliver hs ps st) (\<lambda>st'. Inr (with_rb rb st'))"
proof (induction ps arbitrary: st)
  case (Cons p ps)
  then show ?case
    by (cases p; cases "OnPacketReceived hs (fst p) (snd p) st") (simp_all add: OnPacketReceived_rb(1) [OF assms])
qed simp

text \<open>One round of the loop on a buffer that holds \<open>bs\<close>.\<close>

lemma recv_round_sizes:
  assumes "RB_inv rb" "rb_contents rb = bs"
  shows "GetUseSize rb < UNIFIED_HEADER_SIZE \<longleftrightarrow> length bs < 8"
    and "4 \<le> length bs \<Longrightarrow> Peek 4 rb = Inr (take 4 bs, 4)"
    and "GetUseSize rb < n \<longleftrightarrow> length bs < unat n"
  using ring.used_unat [OF assms(1)] ring.pk_exact [OF assms(1), of 4] assms(2)
  by (simp_all add: word_less_nat_alt UNIFIED_HEADER_SIZE_def)

lemma recv_round_packet:
  assumes "RB_inv rb" "rb_contents rb = bs" "unat n \<le> length bs" "8 \<le> unat (n :: u32)"
  obtains rb' where "Dequeue (ucast n) rb = Inr (take (unat n) bs, of_nat (unat n), rb')" "RB_inv rb'"
    "rb_contents rb' = drop (unat n) bs"
    "overwrite (replicate (unat n) 0) 0 (take (unat n) bs) = take (unat n) bs"
    "header_at (take (unat n) bs) = Inr \<lparr>h_length = word_of_bytes (take 4 bs), h_packet_id = word_of_bytes (take 4 (drop 4 bs))\<rparr>"
proof -
  have "unat n \<le> length (rb_contents rb)" using assms by simp
  from ring.deq_exact [OF assms(1) this] obtain rb' where
      "Dequeue (of_nat (unat n)) rb = Inr (take (unat n) bs, of_nat (unat n), rb')" "RB_inv rb'"
      "rb_contents rb' = drop (unat n) bs" using assms(2) by blast
  moreover have "(of_nat (unat n) :: u64) = ucast n"
    by (simp add: word_unat_eq_iff unat_ucast_u32_u64 unat_of_nat_u64 less_trans [OF unat_less_power])
  ultimately show thesis
    using assms(3,4) by (intro that) (auto simp: overwrite_def header_at_def slice_def take_drop min_def)
qed

text \<open>The four cases of a round, in the specification and in the loop.\<close>

definition packet_len :: "byte list \<Rightarrow> u32" where
  "packet_len bs = word_of_bytes (take 4 bs)"

definition first_packet :: "byte list \<Rightarrow> u32 \<times> byte list" where
  "first_packet bs = (word_of_bytes (take 4 (drop 4 bs)), drop 8 (take (unat (packet_len bs)) bs))"

lemma unat_packet_len: "8 \<le> length bs \<Longrightarrow> unat (packet_len bs) = of_le_bytes (take 4 bs)"
  unfolding packet_len_def by (intro unat_word_of_bytes_u32) simp

lemma valid_packet_len:
  "8 \<le> length bs \<Longrightarrow> IsValidPacketSize (packet_len bs) \<longleftrightarrow> 8 \<le> of_le_bytes (take 4 bs) \<and> of_le_bytes (take 4 bs) \<le> 4194304"
  by (simp add: IsValidPacketSize_unat unat_packet_len)

lemma frames_short: "length bs < 8 \<Longrightarrow> frames bs = ([], bs, True)"
  by (subst frames.simps) simp

lemma frames_bad: "8 \<le> length bs \<Longrightarrow> \<not> IsValidPacketSize (packet_len bs) \<Longrightarrow> frames bs = ([], bs, False)"
  by (subst frames.simps) (auto simp: valid_packet_len Let_def)

lemma frames_wait:
  "8 \<le> length bs \<Longrightarrow> IsValidPacketSize (packet_len bs) \<Longrightarrow> length bs < unat (packet_len bs) \<Longrightarrow> frames bs = ([], bs, True)"
  by (subst frames.simps) (simp add: valid_packet_len unat_packet_len Let_def)

lemma frames_packet:
  "8 \<le> length bs \<Longrightarrow> IsValidPacketSize (packet_len bs) \<Longrightarrow> unat (packet_len bs) \<le> length bs \<Longrightarrow>
   frames bs = (let (ps, rest, ok) = frames (drop (unat (packet_len bs)) bs) in (first_packet bs # ps, rest, ok))"
  by (subst frames.simps) (simp add: valid_packet_len unat_packet_len first_packet_def Let_def)

lemmas frames_stop = frames_short frames_bad frames_wait

lemma recv_loop_cases:
  assumes "RB_inv (se_recv_buf (cn_sess st))" "rb_contents (se_recv_buf (cn_sess st)) = bs"
  shows "length bs < 8 \<Longrightarrow> recv_loop hs (Suc n) st = Inr (True, st)"
    and "8 \<le> length bs \<Longrightarrow> \<not> IsValidPacketSize (packet_len bs) \<Longrightarrow> recv_loop hs (Suc n) st = Inr (False, st)"
    and "8 \<le> length bs \<Longrightarrow> IsValidPacketSize (packet_len bs) \<Longrightarrow> length bs < unat (packet_len bs) \<Longrightarrow>
      recv_loop hs (Suc n) st = Inr (True, st)"
proof -
  note sz = recv_round_sizes [OF assms]
  show "recv_loop hs (Suc n) st = Inr (True, st)" if "length bs < 8"
    using sz(1) that by (simp add: Let_def)
  assume 8: "8 \<le> length bs"
  then have pk: "Peek 4 (se_recv_buf (cn_sess st)) = Inr (take 4 bs, 4)" using sz(2) by simp
  show "recv_loop hs (Suc n) st = Inr (False, st)" if "\<not> IsValidPacketSize (packet_len bs)"
    using sz(1) pk 8 that by (simp add: Let_def packet_len_def)
  show "recv_loop hs (Suc n) st = Inr (True, st)" if "IsValidPacketSize (packet_len bs)" "length bs < unat (packet_len bs)"
    using sz(1) sz(3) [of "packet_len bs"] pk 8 that by (simp add: Let_def packet_len_def)
qed

lemma recv_loop_packet:
  assumes "RB_inv (se_recv_buf (cn_sess st))" "rb_contents (se_recv_buf (cn_sess st)) = bs"
    and "8 \<le> length bs" "IsValidPacketSize (packet_len bs)" "unat (packet_len bs) \<le> length bs"
    and "se_engine (cn_sess st) = Some e"
  obtains rb1 where "RB_inv rb1" "rb_contents rb1 = drop (unat (packet_len bs)) bs"
    "\<And>hs n. recv_loop hs (Suc n) st =
      rbind (OnPacketReceived hs (fst (first_packet bs)) (snd (first_packet bs)) (with_rb rb1 st)) (recv_loop hs n)"
proof -
  have k8: "8 \<le> unat (packet_len bs)" using assms(4) by (simp add: IsValidPacketSize_unat)
  from recv_round_packet [OF assms(1,2,5) k8] obtain rb1 where
    rb1: "Dequeue (ucast (packet_len bs)) (se_recv_buf (cn_sess st)) =
        Inr (take (unat (packet_len bs)) bs, of_nat (unat (packet_len bs)), rb1)" "RB_inv rb1"
      "rb_contents rb1 = drop (unat (packet_len bs)) bs"
      "overwrite (replicate (unat (packet_len bs)) 0) 0 (take (unat (packet_len bs)) bs) = take (unat (packet_len bs)) bs"
      "header_at (take (unat (packet_len bs)) bs) =
        Inr \<lparr>h_length = word_of_bytes (take 4 bs), h_packet_id = word_of_bytes (take 4 (drop 4 bs))\<rparr>" .
  have "recv_loop hs (Suc n) st =
      rbind (OnPacketReceived hs (fst (first_packet bs)) (snd (first_packet bs)) (with_rb rb1 st)) (recv_loop hs n)" for hs n
    using recv_round_sizes(1,2) [OF assms(1,2)] recv_round_sizes(3) [OF assms(1,2), of "packet_len bs"] assms(3-6) rb1
    by (simp add: Let_def first_packet_def with_rb_def upd_sess_def flip: packet_len_def)
  with rb1(2,3) show thesis by (intro that)
qed

declare recv_loop.simps(2) [simp del]

lemma recv_loop_frames:
  assumes hs: "handlers_ok hs" and "RB_inv (se_recv_buf (cn_sess st))" "se_engine (cn_sess st) = Some e"
    and "frames (rb_contents (se_recv_buf (cn_sess st))) = (ps, rest, ok)"
  shows "\<exists>rb'. RB_inv rb' \<and> (length ps < n \<longrightarrow> rb_contents rb' = rest) \<and>
    recv_loop hs n st = rbind (deliver hs (take n ps) st) (\<lambda>st'. Inr (ok \<and> length ps < n, with_rb rb' st'))"
  using assms(2-4)
proof (induction n arbitrary: st ps)
  case 0
  then show ?case by (auto intro!: exI [of _ "se_recv_buf (cn_sess st)"])
next
  case (Suc n)
  let ?rb = "se_recv_buf (cn_sess st)"
  define bs where "bs = rb_contents ?rb"
  note bs = bs_def [symmetric]
  have fr: "frames bs = (ps, rest, ok)" using Suc.prems(3) by (simp add: bs_def)
  show ?case
  proof (cases "8 \<le> length bs \<and> IsValidPacketSize (packet_len bs) \<and> unat (packet_len bs) \<le> length bs")
    case False
    then have "ps = [] \<and> rest = bs \<and> recv_loop hs (Suc n) st = Inr (ok, st)"
      using fr frames_stop [of bs] recv_loop_cases [OF Suc.prems(1) bs, of hs n]
      by (metis (full_types) linorder_not_less prod.inject)
    then show ?thesis
      using Suc.prems(1) bs by (intro exI [of _ ?rb]) simp
  next
    case True
    then obtain rb1 where rb1: "RB_inv rb1" "rb_contents rb1 = drop (unat (packet_len bs)) bs"
        "\<And>hs n. recv_loop hs (Suc n) st =
          rbind (OnPacketReceived hs (fst (first_packet bs)) (snd (first_packet bs)) (with_rb rb1 st)) (recv_loop hs n)"
      using recv_loop_packet [OF Suc.prems(1) bs _ _ _ Suc.prems(2)] by blast
    obtain ps' where ps: "ps = first_packet bs # ps'" and fr': "frames (rb_contents rb1) = (ps', rest, ok)"
      using fr True frames_packet [of bs] rb1(2) by (auto simp: Let_def split: prod.splits)
    show ?thesis
    proof (cases "OnPacketReceived hs (fst (first_packet bs)) (snd (first_packet bs)) st")
      case (Inl err)
      from Suc.IH [of "with_rb rb1 st" ps'] rb1(1) fr' Suc.prems(2) obtain rb' where
          "RB_inv rb'" "length ps' < n \<longrightarrow> rb_contents rb' = rest" by auto
      with Inl rb1(3) ps show ?thesis
        by (cases "first_packet bs") (auto simp: OnPacketReceived_rb(1) [OF hs])
    next
      case (Inr st1)
      have "se_engine (cn_sess st1) = Some e"
        using OnPacketReceived_rb(2) [OF hs Inr] Suc.prems(2) by simp
      with Suc.IH [of "with_rb rb1 st1" ps'] rb1(1) fr' obtain rb' where rb': "RB_inv rb'"
          "length ps' < n \<longrightarrow> rb_contents rb' = rest"
          "recv_loop hs n (with_rb rb1 st1) = rbind (deliver hs (take n ps') (with_rb rb1 st1))
            (\<lambda>st'. Inr (ok \<and> length ps' < n, with_rb rb' st'))" by auto
      have "recv_loop hs (Suc n) st =
          rbind (deliver hs (take (Suc n) ps) st) (\<lambda>st'. Inr (ok \<and> length ps < Suc n, with_rb rb' st'))"
        using Inr by (cases "first_packet bs")
          (simp add: rb1(3) rb'(3) ps OnPacketReceived_rb(1) [OF hs] deliver_rb [OF hs] rbind_assoc)
      with rb'(1,2) ps show ?thesis by auto
    qed
  qed
qed

section \<open>Encoded packets\<close>

definition frame_bytes :: "u32 \<times> byte list \<Rightarrow> byte list" where
  "frame_bytes p = header_bytes \<lparr>h_length = of_nat (8 + length (snd p)), h_packet_id = fst p\<rparr> @ snd p"

lemma length_frame_bytes [simp]: "length (frame_bytes p) = 8 + length (snd p)"
  by (simp add: frame_bytes_def)

lemma frames_frame_bytes:
  assumes "length (snd p) \<le> 4194296"
  shows "frames (frame_bytes p @ bs) = (let (ps, rest, ok) = frames bs in (p # ps, rest, ok))"
proof -
  let ?hdr = "\<lparr>h_length = of_nat (8 + length (snd p)), h_packet_id = fst p\<rparr>" and ?bs = "frame_bytes p @ bs"
  have "header_at (header_bytes ?hdr @ snd p @ bs) = Inr ?hdr"
    by (rule header_at_header_bytes)
  then have len: "packet_len ?bs = of_nat (8 + length (snd p))" and pid: "word_of_bytes (take 4 (drop 4 ?bs)) = fst p"
    by (simp_all add: header_at_def slice_def packet_len_def frame_bytes_def)
  then have u: "unat (packet_len ?bs) = 8 + length (snd p)"
    using assms by (simp add: unat_of_nat_u32 del: of_nat_add)
  then have "first_packet ?bs = p"
    using pid by (simp add: first_packet_def prod_eq_iff) (simp add: frame_bytes_def)
  then show ?thesis
    using frames_packet [of ?bs] u assms by (simp add: IsValidPacketSize_unat)
qed

lemma frames_concat:
  assumes "\<forall>p\<in>set ps. length (snd p) \<le> 4194296"
  shows "frames (concat (map frame_bytes ps) @ bs) = (let (qs, rest, ok) = frames bs in (ps @ qs, rest, ok))"
  using assms
proof (induction ps)
  case Nil
  then show ?case by (simp add: split_beta)
next
  case (Cons p ps)
  then show ?case by (simp add: frames_frame_bytes split_beta Let_def)
qed

section \<open>Received pieces\<close>

text \<open>What the socket layer does with the bytes it received: it fills the two buffers the session
  offered. \<open>rb_received\<close> is this function with its precondition.\<close>

definition fill_rb :: "byte list \<Rightarrow> RingBuffer \<Rightarrow> RingBuffer" where
  "fill_rb bs rb =
     rb\<lparr>rb_block := overwrite (overwrite (rb_block rb) (unat (rb_writePos rb - rb_begin rb))
                       (take (unat (DirectEnqueueSize rb)) bs)) 0 (drop (unat (DirectEnqueueSize rb)) bs)\<rparr>"

lemma free_split:
  assumes "RB_inv rb"
  shows "unat (DirectEnqueueSize rb) + unat (RemainEnqueueSize rb) = 8191 - length (rb_contents rb)"
proof -
  obtain a f n m where rb: "rb = mk_ring a f n m" "aligned_block a" "f < 8192" "n < 8192" "length m = 8192"
      "rb_contents rb = ring_data m f n"
    using assms by (rule RB_invE)
  have "unat (DirectEnqueueSize rb) = (if f + n < 8191 then 8191 - (f + n) else 8191 - n)"
    unfolding rb(1) header_sizes(1) [OF rb(2-4)] by (rule unat_of_nat_u32) auto
  moreover have "unat (RemainEnqueueSize rb) = (if f + n < 8191 then f else 0)"
    unfolding rb(1) header_sizes(2) [OF rb(2-4)] using rb(3) by (intro unat_of_nat_u32) auto
  ultimately show ?thesis using rb(4,6) by auto
qed

lemma fill_rb_received: "RB_inv rb \<Longrightarrow> length (rb_contents rb) + length bs \<le> 8191 \<Longrightarrow> rb_received rb bs (fill_rb bs rb)"
  by (simp add: rb_received_def fill_rb_def free_split)

lemma fill_rb_appends:
  assumes "RB_inv rb" "length (rb_contents rb) + length bs \<le> 8191"
  shows "RB_inv (MoveRear (of_nat (length bs)) (fill_rb bs rb))"
    "rb_contents (MoveRear (of_nat (length bs)) (fill_rb bs rb)) = rb_contents rb @ bs"
  using receive_appends [OF assms(1) fill_rb_received [OF assms]] by simp_all

definition touch :: "u64 \<Rightarrow> 'a conn \<Rightarrow> 'a conn" where
  "touch now st = upd_sess (\<lambda>s. s\<lparr>se_last_recv_time := ucast now\<rparr>) st"

lemma touch_simps [simp]:
  "se_engine (cn_sess (touch now st)) = se_engine (cn_sess st)" "cn_app (touch now st) = cn_app st"
  "se_owner_user (cn_sess (touch now st)) = se_owner_user (cn_sess st)" "cn_world (touch now st) = cn_world st"
  "se_pending_disconnect (cn_sess (touch now st)) = se_pending_disconnect (cn_sess st)"
  "se_sock (cn_sess (touch now st)) = se_sock (cn_sess st)"
  by (simp_all add: touch_def upd_sess_def)

lemma HandleRecvComplete_frames:
  assumes "handlers_ok hs" "RB_inv (se_recv_buf (cn_sess st))" "length (rb_contents (se_recv_buf (cn_sess st))) + length bs \<le> 8191"
    and "se_engine (cn_sess st) = Some e"
    and "frames (rb_contents (se_recv_buf (cn_sess st)) @ bs) = (ps, rest, ok)"
  shows "\<exists>rb'. RB_inv rb' \<and> (length ps < 1000 \<longrightarrow> rb_contents rb' = rest) \<and>
    HandleRecvComplete hs r now (of_nat (length bs)) (with_rb (fill_rb bs (se_recv_buf (cn_sess st))) st) =
      rbind (deliver hs (take 1000 ps) (touch now st)) (\<lambda>st'. Inr
        (if ok \<and> length ps < 1000 \<and> \<not> se_pending_disconnect (cn_sess st') then snd (RecvAsync r (with_rb rb' st'))
         else with_rb rb' st'))"
proof -
  let ?rb = "MoveRear (of_nat (length bs)) (fill_rb bs (se_recv_buf (cn_sess st)))"
  note rb = fill_rb_appends [OF assms(2,3)]
  let ?st1 = "with_rb ?rb (touch now st)"
  have "RB_inv (se_recv_buf (cn_sess ?st1))" "se_engine (cn_sess ?st1) = Some e"
    "frames (rb_contents (se_recv_buf (cn_sess ?st1))) = (ps, rest, ok)"
    using rb assms(4,5) by simp_all
  from recv_loop_frames [OF assms(1) this, of 1000] obtain rb' where rb': "RB_inv rb'"
      "length ps < 1000 \<longrightarrow> rb_contents rb' = rest"
      "recv_loop hs 1000 ?st1 = rbind (deliver hs (take 1000 ps) ?st1)
        (\<lambda>st'. Inr (ok \<and> length ps < 1000, with_rb rb' st'))" by blast
  have "upd_sess (\<lambda>s. s\<lparr>se_recv_buf := MoveRear (of_nat (length bs)) (se_recv_buf s), se_last_recv_time := ucast now\<rparr>)
      (with_rb (fill_rb bs (se_recv_buf (cn_sess st))) st) = ?st1"
    by (simp add: upd_sess_def with_rb_def touch_def)
  then have "HandleRecvComplete hs r now (of_nat (length bs)) (with_rb (fill_rb bs (se_recv_buf (cn_sess st))) st) =
      rbind (recv_loop hs 1000 ?st1) (\<lambda>(broke, st2).
        Inr (if broke \<and> \<not> se_pending_disconnect (cn_sess st2) then snd (RecvAsync r st2) else st2))"
    by (simp add: HandleRecvComplete_def MAX_LOOP_COUNT_def)
  also have "\<dots> = rbind (deliver hs (take 1000 ps) (touch now st)) (\<lambda>st'. Inr
        (if ok \<and> length ps < 1000 \<and> \<not> se_pending_disconnect (cn_sess st') then snd (RecvAsync r (with_rb rb' st'))
         else with_rb rb' st'))"
    unfolding rb'(3) deliver_rb [OF assms(1)]
    by (cases "deliver hs (take 1000 ps) (touch now st)") simp_all
  finally show ?thesis using rb'(1,2) by blast
qed

text \<open>Handlers that only change the application's state.\<close>

type_synonym 'a app_handlers = "u32 \<rightharpoonup> (addr \<Rightarrow> byte list \<Rightarrow> 'a \<Rightarrow> 'a)"

definition lift_handlers :: "'a app_handlers \<Rightarrow> u32 \<rightharpoonup> 'a handler" where
  "lift_handlers gs pid = map_option (\<lambda>g user payload st. Inr (st\<lparr>cn_app := g user payload (cn_app st)\<rparr>)) (gs pid)"

fun app_deliver :: "'a app_handlers \<Rightarrow> addr \<Rightarrow> (u32 \<times> byte list) list \<Rightarrow> 'a \<Rightarrow> 'a" where
  "app_deliver gs user [] a = a"
| "app_deliver gs user ((pid, payload) # ps) a =
     app_deliver gs user ps (case gs pid of None \<Rightarrow> a | Some g \<Rightarrow> g user payload a)"

lemma lift_handlers_ok: "handlers_ok (lift_handlers gs)"
  by (auto simp: handlers_ok_def lift_handlers_def with_rb_def upd_sess_def)

lemma deliver_lift:
  "se_owner_user (cn_sess st) = Some user \<Longrightarrow>
   deliver (lift_handlers gs) ps st = Inr (st\<lparr>cn_app := app_deliver gs user ps (cn_app st)\<rparr>)"
proof (induction ps arbitrary: st)
  case (Cons p ps)
  then show ?case
    by (cases p) (simp add: OnPacketReceived_def lift_handlers_def split: option.split)
qed simp

lemma app_deliver_append: "app_deliver gs user (ps @ qs) a = app_deliver gs user qs (app_deliver gs user ps a)"
  by (induction gs user ps a rule: app_deliver.induct) simp_all

fun recv_pieces :: "(u32 \<rightharpoonup> 'a handler) \<Rightarrow> wsa_result \<Rightarrow> u64 \<Rightarrow> byte list list \<Rightarrow> 'a conn \<Rightarrow> fault + 'a conn" where
  "recv_pieces hs r now [] st = Inr st"
| "recv_pieces hs r now (c # cs) st =
     rbind (HandleRecvComplete hs r now (of_nat (length c)) (with_rb (fill_rb c (se_recv_buf (cn_sess st))) st))
       (recv_pieces hs r now cs)"

text \<open>Each piece fits into the free space left by the incomplete packet \<open>rest\<close> before it, completes
  fewer than a thousand packets, and no length field is out of range.\<close>

fun pieces_fit :: "byte list \<Rightarrow> byte list list \<Rightarrow> bool" where
  "pieces_fit rest [] \<longleftrightarrow> True"
| "pieces_fit rest (c # cs) \<longleftrightarrow>
     length rest + length c \<le> 8191 \<and>
     (case frames (rest @ c) of (ps, rest', ok) \<Rightarrow> ok \<and> length ps < 1000 \<and> pieces_fit rest' cs)"

lemma RecvAsync_keeps:
  "cn_app (snd (RecvAsync r st)) = cn_app st" "se_recv_buf (cn_sess (snd (RecvAsync r st))) = se_recv_buf (cn_sess st)"
  "se_engine (cn_sess (snd (RecvAsync r st))) = se_engine (cn_sess st)"
  "se_owner_user (cn_sess (snd (RecvAsync r st))) = se_owner_user (cn_sess st)"
  by (simp_all add: RecvAsync_def Let_def os_def upd_sess_def split: wsa_result.split)

lemma recv_pieces_frames:
  assumes "RB_inv (se_recv_buf (cn_sess st))" "se_engine (cn_sess st) = Some e" "se_owner_user (cn_sess st) = Some user"
    and "frames (rb_contents (se_recv_buf (cn_sess st))) = ([], rb_contents (se_recv_buf (cn_sess st)), True)"
    and "pieces_fit (rb_contents (se_recv_buf (cn_sess st))) cs"
    and "frames (rb_contents (se_recv_buf (cn_sess st)) @ concat cs) = (ps, rest, ok)"
  shows "\<exists>st'. recv_pieces (lift_handlers gs) r now cs st = Inr st' \<and> cn_app st' = app_deliver gs user ps (cn_app st) \<and>
    RB_inv (se_recv_buf (cn_sess st')) \<and> rb_contents (se_recv_buf (cn_sess st')) = rest \<and> ok"
  using assms
proof (induction cs arbitrary: st ps)
  case Nil
  then show ?case by simp
next
  case (Cons c cs)
  let ?bs = "rb_contents (se_recv_buf (cn_sess st))"
  obtain qs r1 k where fr: "frames (?bs @ c) = (qs, r1, k)" by (cases "frames (?bs @ c)") auto
  with Cons.prems(5) have fit: "length ?bs + length c \<le> 8191" "k" "length qs < 1000" "pieces_fit r1 cs" by auto
  obtain ps' where ps: "ps = qs @ ps'" and fr': "frames (r1 @ concat cs) = (ps', rest, ok)"
    using frames_append [OF fr, of "concat cs"] fit(2) Cons.prems(6) by (auto simp: Let_def split: prod.splits)
  have r1: "frames r1 = ([], r1, True)"
    using frames_append [OF fr, of "[]"] fit(2) fr by (auto simp: Let_def split: prod.splits)
  from HandleRecvComplete_frames [OF lift_handlers_ok [of gs] Cons.prems(1) fit(1) Cons.prems(2) fr, where r = r and now = now] fit(3)
  obtain rb' where rb': "RB_inv rb'" "rb_contents rb' = r1"
      "HandleRecvComplete (lift_handlers gs) r now (of_nat (length c)) (with_rb (fill_rb c (se_recv_buf (cn_sess st))) st) =
        rbind (deliver (lift_handlers gs) qs (touch now st)) (\<lambda>st'. Inr
          (if k \<and> \<not> se_pending_disconnect (cn_sess st') then snd (RecvAsync r (with_rb rb' st')) else with_rb rb' st'))"
    by auto
  define st1 where "st1 = (touch now st)\<lparr>cn_app := app_deliver gs user qs (cn_app st)\<rparr>"
  define st2 where "st2 = (if k \<and> \<not> se_pending_disconnect (cn_sess st1) then snd (RecvAsync r (with_rb rb' st1)) else with_rb rb' st1)"
  have run: "HandleRecvComplete (lift_handlers gs) r now (of_nat (length c)) (with_rb (fill_rb c (se_recv_buf (cn_sess st))) st) = Inr st2"
    using deliver_lift [of "touch now st" user gs qs] Cons.prems(3) by (simp add: rb'(3) st2_def st1_def)
  have s2: "se_recv_buf (cn_sess st2) = rb'" "se_engine (cn_sess st2) = Some e" "se_owner_user (cn_sess st2) = Some user"
      "cn_app st2 = app_deliver gs user qs (cn_app st)"
    using Cons.prems(2,3) by (simp_all add: st2_def st1_def RecvAsync_keeps)
  from Cons.IH [of st2 ps'] s2 rb'(1,2) fr' fit(4) r1 run ps show ?case
    by (auto simp: app_deliver_append)
qed

section \<open>Properties\<close>

text \<open>C3: Packet assembly: when the socket layer has put \<open>bs\<close> behind the bytes already buffered, the
  receive handler calls the packet handlers exactly on the packets of that byte stream, in order
  (id and payload, as \<open>frames\<close> specifies), keeps the incomplete rest in the buffer, and posts the
  next receive unless the session is disconnecting or the next length field is invalid. It never
  leaves the buffer, for any bytes.\<close>

theorem packet_assembly:
  assumes "handlers_ok hs" "RB_inv (se_recv_buf (cn_sess st))" "length (rb_contents (se_recv_buf (cn_sess st))) + length bs \<le> 8191"
    and "se_engine (cn_sess st) = Some e"
    and "frames (rb_contents (se_recv_buf (cn_sess st)) @ bs) = (ps, rest, ok)" and "length ps < 1000"
  shows "\<exists>rb'. RB_inv rb' \<and> rb_contents rb' = rest \<and>
    HandleRecvComplete hs r now (of_nat (length bs)) (with_rb (fill_rb bs (se_recv_buf (cn_sess st))) st) =
      rbind (deliver hs ps (touch now st)) (\<lambda>st'. Inr
        (if ok \<and> \<not> se_pending_disconnect (cn_sess st') then snd (RecvAsync r (with_rb rb' st')) else with_rb rb' st'))"
  using HandleRecvComplete_frames [OF assms(1-5), of r now] assms(6) by auto

definition idle_session :: Session where
  "idle_session = (Session_ctor fresh_ring)\<lparr>se_sock := 5, se_engine := Some 1, se_owner_user := Some 9\<rparr>"

definition idle_conn :: "'a \<Rightarrow> 'a conn" where
  "idle_conn a = \<lparr>cn_sess = idle_session, cn_world = \<lparr>w_vecs = Map.empty, w_fresh = 0, w_calls = []\<rparr>, cn_app = a\<rparr>"

lemma idle_conn_simps [simp]:
  "se_recv_buf (cn_sess (idle_conn a)) = fresh_ring" "se_engine (cn_sess (idle_conn a)) = Some 1"
  "se_owner_user (cn_sess (idle_conn a)) = Some 9" "cn_app (idle_conn a) = a" "se_sock (cn_sess (idle_conn a)) = 5"
  "\<not> se_pending_disconnect (cn_sess (idle_conn a))" "w_calls (cn_world (idle_conn a)) = []"
  by (simp_all add: idle_conn_def idle_session_def Session_ctor_def)

definition count_handlers :: "nat app_handlers" where
  "count_handlers = [7 \<mapsto> (\<lambda>user payload a. a + 1)]"

theorem packet_assembly_witness:
  "\<exists>rb'. RB_inv rb' \<and> rb_contents rb' = [1, 2] \<and>
    HandleRecvComplete (lift_handlers count_handlers) WsaPending 0 10
      (with_rb (fill_rb [8, 0, 0, 0, 7, 0, 0, 0, 1, 2] fresh_ring) (idle_conn 0)) =
      rbind (deliver (lift_handlers count_handlers) [(7, [])] (touch 0 (idle_conn 0))) (\<lambda>st'. Inr
        (if True \<and> \<not> se_pending_disconnect (cn_sess st') then snd (RecvAsync WsaPending (with_rb rb' st')) else with_rb rb' st'))"
proof -
  let ?bs = "[8, 0, 0, 0, 7, 0, 0, 0, 1, 2] :: byte list"
  have "frames ?bs = ([(7, [])], [1, 2], True)"
    by (simp add: frames.simps word_of_bytes_def)
  then show ?thesis
    using packet_assembly [OF lift_handlers_ok [of count_handlers], of "idle_conn 0" ?bs 1 "[(7, [])]" "[1, 2]" True WsaPending 0]
      fresh_ring_inv by simp
qed

text \<open>C13: Independence of fragmentation: however the byte stream is cut into pieces (each fitting into
  the buffer, completing fewer than a thousand packets, with valid length fields), after all pieces
  have been received the application has seen exactly the packets of the whole stream, in order, and
  the buffer holds the bytes behind the last of them.\<close>

theorem fragmentation_independent:
  assumes "RB_inv (se_recv_buf (cn_sess st))" "se_engine (cn_sess st) = Some e" "se_owner_user (cn_sess st) = Some user"
    and "rb_contents (se_recv_buf (cn_sess st)) = []" "pieces_fit [] cs" "frames (concat cs) = (ps, rest, ok)"
  shows "\<exists>st'. recv_pieces (lift_handlers gs) r now cs st = Inr st' \<and> cn_app st' = app_deliver gs user ps (cn_app st) \<and>
    RB_inv (se_recv_buf (cn_sess st')) \<and> rb_contents (se_recv_buf (cn_sess st')) = rest \<and> ok"
  using recv_pieces_frames [OF assms(1-3), of cs ps rest ok gs r now] assms(4-6) by (simp add: frames_short)

theorem fragmentation_independent_witness:
  "\<exists>st'. recv_pieces (lift_handlers count_handlers) WsaPending 0 [[8, 0, 0], [0, 7], [0, 0, 0, 8]] (idle_conn 0) = Inr st' \<and>
    cn_app st' = 1 \<and> rb_contents (se_recv_buf (cn_sess st')) = [8]"
proof -
  let ?cs = "[[8, 0, 0], [0, 7], [0, 0, 0, 8]] :: byte list list"
  have "pieces_fit [] ?cs" "frames (concat ?cs) = ([(7, [])], [8], True)"
    by (simp_all add: frames.simps word_of_bytes_def)
  then show ?thesis
    using fragmentation_independent [of "idle_conn 0" 1 9 ?cs "[(7, [])]" "[8]" True count_handlers WsaPending 0] fresh_ring_inv
    by (auto simp: count_handlers_def)
qed

lemma full_sizes_zero:
  assumes "RB_inv rb" "length (rb_contents rb) = 8191"
  shows "DirectEnqueueSize rb = 0" "RemainEnqueueSize rb = 0"
  using free_split [OF assms(1)] assms(2) by (simp_all add: word_unat_eq_iff)

text \<open>C38: A packet longer than the receive buffer stalls its session: when the buffer is full (8191
  bytes) and the length field at its front is valid but larger than 8191, no handler runs, no byte is
  consumed, and the next receive is posted with two empty buffers; \<open>MAX_PACKET_SIZE\<close> promises 4 MiB.\<close>

theorem oversized_packet_stalls:
  assumes "RB_inv (se_recv_buf (cn_sess st))" "length (rb_contents (se_recv_buf (cn_sess st)) @ bs) = 8191"
    and "IsValidPacketSize (packet_len (rb_contents (se_recv_buf (cn_sess st)) @ bs))"
    and "8191 < unat (packet_len (rb_contents (se_recv_buf (cn_sess st)) @ bs))"
    and "se_sock (cn_sess st) \<noteq> INVALID_SOCKET" "\<not> se_pending_disconnect (cn_sess st)"
  shows "\<exists>st'. HandleRecvComplete hs WsaPending now (of_nat (length bs)) (with_rb (fill_rb bs (se_recv_buf (cn_sess st))) st) = Inr st' \<and>
    rb_contents (se_recv_buf (cn_sess st')) = rb_contents (se_recv_buf (cn_sess st)) @ bs \<and> cn_app st' = cn_app st \<and>
    w_calls (cn_world st') = w_calls (cn_world st) @ [OsRecv (se_sock (cn_sess st)) 0 0]"
proof -
  let ?rb = "MoveRear (of_nat (length bs)) (fill_rb bs (se_recv_buf (cn_sess st)))"
  have rb: "RB_inv ?rb" "rb_contents ?rb = rb_contents (se_recv_buf (cn_sess st)) @ bs"
    using fill_rb_appends [OF assms(1)] assms(2) by simp_all
  let ?st1 = "with_rb ?rb (touch now st)"
  have "recv_loop hs 1000 ?st1 = Inr (True, ?st1)"
    using recv_loop_cases(3) [of ?st1 _ hs 999] rb assms(2-4) by simp
  moreover have "upd_sess (\<lambda>s. s\<lparr>se_recv_buf := MoveRear (of_nat (length bs)) (se_recv_buf s), se_last_recv_time := ucast now\<rparr>)
      (with_rb (fill_rb bs (se_recv_buf (cn_sess st))) st) = ?st1"
    by (simp add: upd_sess_def with_rb_def touch_def)
  ultimately have run: "HandleRecvComplete hs WsaPending now (of_nat (length bs)) (with_rb (fill_rb bs (se_recv_buf (cn_sess st))) st) =
      Inr (snd (RecvAsync WsaPending ?st1))"
    using assms(6) by (simp add: HandleRecvComplete_def MAX_LOOP_COUNT_def)
  have "w_calls (cn_world (snd (RecvAsync WsaPending ?st1))) = w_calls (cn_world st) @ [OsRecv (se_sock (cn_sess st)) 0 0]"
    using full_sizes_zero [OF rb(1)] rb(2) assms(2,5,6)
    by (simp add: RecvAsync_def Let_def os_def upd_sess_def) (simp add: with_rb_def upd_sess_def)
  with run rb(2) show ?thesis by (auto simp: RecvAsync_keeps)
qed

lemma oversized_example:
  "packet_len ([0, 0x20, 0, 0] @ replicate 8187 0) = 8192"
  by (simp add: packet_len_def word_of_bytes_def)

theorem oversized_packet_stalls_witness:
  "\<exists>st'. HandleRecvComplete Map.empty WsaPending 0 8191 (with_rb (fill_rb ([0, 0x20, 0, 0] @ replicate 8187 0) fresh_ring) (idle_conn (0::nat))) = Inr st' \<and>
    cn_app st' = 0 \<and> w_calls (cn_world st') = [OsRecv 5 0 0]"
proof -
  let ?bs = "[0, 0x20, 0, 0] @ replicate 8187 0 :: byte list"
  have len: "length ?bs = 8191" by (simp only: length_append length_replicate list.size)
  have v: "IsValidPacketSize 8192" "INVALID_SOCKET \<noteq> 5"
    by (simp_all add: IsValidPacketSize_unat INVALID_SOCKET_def)
  from oversized_packet_stalls [of "idle_conn 0" ?bs Map.empty 0] v fresh_ring_inv
  show ?thesis
    unfolding idle_conn_simps fresh_ring_inv(2) append_Nil len oversized_example
    by (simp only: append_Nil of_nat_numeral) auto
qed

text \<open>More than 999 packets in one piece silence the session: if a received piece completes a
  thousand packets or more, the handler delivers the first thousand and returns without posting the
  next receive, although the rest of the stream is valid.\<close>

lemma thousand_packets_end_receiving:
  assumes "handlers_ok hs" "RB_inv (se_recv_buf (cn_sess st))" "length (rb_contents (se_recv_buf (cn_sess st))) + length bs \<le> 8191"
    and "se_engine (cn_sess st) = Some e"
    and "frames (rb_contents (se_recv_buf (cn_sess st)) @ bs) = (ps, rest, ok)" and "1000 \<le> length ps"
  shows "\<exists>rb'. RB_inv rb' \<and>
    HandleRecvComplete hs r now (of_nat (length bs)) (with_rb (fill_rb bs (se_recv_buf (cn_sess st))) st) =
      rbind (deliver hs (take 1000 ps) (touch now st)) (\<lambda>st'. Inr (with_rb rb' st'))"
  using HandleRecvComplete_frames [OF assms(1-5), of r now] assms(6) by auto

definition thousand :: "byte list" where
  "thousand = concat (map frame_bytes (replicate 1000 (7, [])))"

lemma thousand_facts: "length thousand = 8000" "frames thousand = (replicate 1000 (7, []), [], True)"
proof -
  have "length (concat (map frame_bytes (replicate n (7, [])))) = n * 8" for n
    by (induction n) (simp_all add: frame_bytes_def)
  from this [of 1000] show "length thousand = 8000" by (simp only: thousand_def)
  have "\<forall>p\<in>set (replicate n (7, [] :: byte list)). length (snd p) \<le> 4194296" for n
    by (induction n) simp_all
  from frames_concat [OF this, where bs = "[]"] show "frames thousand = (replicate 1000 (7, []), [], True)"
    unfolding thousand_def by (simp only: append_Nil2 frames_short list.size Let_def prod.case)
qed

lemma thousand_packets_end_receiving_example:
  "\<exists>rb'. RB_inv rb' \<and>
    HandleRecvComplete (lift_handlers count_handlers) WsaPending 0 (of_nat (length thousand)) (with_rb (fill_rb thousand fresh_ring) (idle_conn 0)) =
      rbind (deliver (lift_handlers count_handlers) (take 1000 (replicate 1000 (7, []))) (touch 0 (idle_conn 0))) (\<lambda>st'. Inr (with_rb rb' st'))"
proof (rule thousand_packets_end_receiving [OF lift_handlers_ok, of "idle_conn 0", unfolded idle_conn_simps])
  show "RB_inv fresh_ring" by (rule fresh_ring_inv(1))
  show "length (rb_contents fresh_ring) + length thousand \<le> 8191"
    by (simp only: fresh_ring_inv(2) thousand_facts(1)) simp
  show "frames (rb_contents fresh_ring @ thousand) = (replicate 1000 (7, []), [], True)"
    by (simp only: fresh_ring_inv(2) thousand_facts(2) append_Nil)
  show "1000 \<le> length (replicate 1000 (7 :: u32, [] :: byte list))" by (simp only: length_replicate)
  show "Some 1 = Some 1" by simp
qed

end
