(* ===== verification/SendPath.thy ===== *)
theory SendPath
  imports IOCP
begin

text \<open>
  The send side of a session as a whole: \<open>SendPacket\<close> (\<^verbatim>\<open>Session.h\<close>), \<open>SendAsync\<close>, \<open>SendAsyncImpl\<close>
  (\<^verbatim>\<open>Session.cpp\<close>) and \<open>HandleSendComplete\<close> (\<^verbatim>\<open>IOCPManager.cpp\<close>) under any sequence of sends and
  completions. The abstract view of a session is the stream of packets handed to the socket, the
  packets still queued and the packets in flight.
\<close>

section \<open>Invariant\<close>

text \<open>The vectors in flight, and the stream already handed to the socket.\<close>

definition in_flight :: "Session \<Rightarrow> nat option list" where
  "in_flight s = take (nat (sint (se_send_packet_count s))) (se_send_packet_arr s)"

definition sent_stream :: "'a conn \<Rightarrow> byte list list" where
  "sent_stream st = concat (map (\<lambda>c. case c of OsSend _ bufs \<Rightarrow> bufs | _ \<Rightarrow> []) (w_calls (cn_world st)))"

definition queued :: "'a conn \<Rightarrow> byte list list" where
  "queued st = map (\<lambda>p. the (w_vecs (cn_world st) p)) (se_send_q (cn_sess st))"

text \<open>Every live vector is owned exactly once, by the queue or by a slot in flight; at most one send
  is outstanding, and without the send flag none (\<open>k\<close> counts completion packets that are already being
  handled); and unless the session is disconnecting, a session without the send
  flag has nothing to send.\<close>

definition send_inv :: "nat \<Rightarrow> 'a conn \<Rightarrow> bool" where
  "send_inv k st \<longleftrightarrow>
     (\<exists>fl. in_flight (cn_sess st) = map Some fl \<and> distinct (se_send_q (cn_sess st) @ fl) \<and>
       dom (w_vecs (cn_world st)) = set (se_send_q (cn_sess st) @ fl) \<and>
       se_send_packet_count (cn_sess st) = of_nat (length fl) \<and> length fl \<le> 200 \<and>
       (\<not> se_send_flag (cn_sess st) \<longrightarrow> fl = [])) \<and>
     length (se_send_packet_arr (cn_sess st)) = 200 \<and>
     count_list (se_ios (cn_sess st)) IO_SEND \<le> k + (if se_send_flag (cn_sess st) then 1 else 0) \<and>
     (\<forall>p\<in>dom (w_vecs (cn_world st)). p < w_fresh (cn_world st))"

definition no_idle_backlog :: "'a conn \<Rightarrow> bool" where
  "no_idle_backlog st \<longleftrightarrow>
     (\<not> se_send_flag (cn_sess st) \<and> \<not> se_pending_disconnect (cn_sess st) \<longrightarrow> se_send_q (cn_sess st) = [])"

lemma sint_small: "n \<le> 200 \<Longrightarrow> sint (of_nat n :: c_int) = int n"
  by (simp add: signed_of_nat signed_take_bit_int_eq_self)

lemma gather_send_all:
  assumes "length (se_send_q (cn_sess st)) \<le> k" "i + k \<le> length (se_send_packet_arr (cn_sess st))"
    and "set (se_send_q (cn_sess st)) \<subseteq> dom (w_vecs (cn_world st))"
  shows "gather_send k i st = Inr (queued st, upd_sess (\<lambda>s. s\<lparr>se_send_q := [],
    se_send_packet_arr := overwrite (se_send_packet_arr s) i (map Some (se_send_q s))\<rparr>) st)"
  using assms
proof (induction k arbitrary: i st)
  case 0
  then show ?case by (simp add: queued_def upd_sess_def)
next
  case (Suc k)
  show ?case
  proof (cases "se_send_q (cn_sess st)")
    case Nil
    then show ?thesis by (simp add: queued_def upd_sess_def)
  next
    case (Cons p ps)
    then obtain bs where bs: "w_vecs (cn_world st) p = Some bs" using Suc.prems(3) by auto
    let ?st1 = "upd_sess (\<lambda>s. s\<lparr>se_send_q := ps, se_send_packet_arr := (se_send_packet_arr s)[i := Some p]\<rparr>) st"
    have w: "cn_world ?st1 = cn_world st" "se_send_q (cn_sess ?st1) = ps"
      "se_send_packet_arr (cn_sess ?st1) = (se_send_packet_arr (cn_sess st))[i := Some p]"
      by (simp_all add: upd_sess_def)
    have "gather_send k (Suc i) ?st1 = Inr (queued ?st1, upd_sess (\<lambda>s. s\<lparr>se_send_q := [],
        se_send_packet_arr := overwrite (se_send_packet_arr s) (Suc i) (map Some (se_send_q s))\<rparr>) ?st1)"
      using Suc.prems Cons by (intro Suc.IH) (auto simp: w)
    moreover have "overwrite ((se_send_packet_arr (cn_sess st))[i := Some p]) (Suc i) (map Some ps) =
        overwrite (se_send_packet_arr (cn_sess st)) i (map Some (p # ps))"
      using Suc.prems(1,2) Cons by (simp add: overwrite_def take_Suc_conv_app_nth drop_update_cancel)
    ultimately show ?thesis
      using Cons bs by (simp add: Let_def w(1) queued_def upd_sess_def)
  qed
qed

section \<open>Starting a send\<close>

text \<open>What one call of \<open>SendAsync\<close> without the send flag does to the state.\<close>

lemma SendAsync_idle:
  assumes "\<not> se_send_flag (cn_sess st)" "set (se_send_q (cn_sess st)) \<subseteq> dom (w_vecs (cn_world st))"
    and "length (se_send_packet_arr (cn_sess st)) = 200"
  shows "SendAsync r st = Inr
    (if se_send_q (cn_sess st) = [] then st
     else if 200 < length (se_send_q (cn_sess st))
     then Session_Disconnect (upd_sess (\<lambda>s. s\<lparr>se_send_flag := True\<rparr>) st)
     else (if r = WsaError then os (OsPost IO_SEND) else id)
       (os (OsSend (se_sock (cn_sess st)) (queued st)) (upd_sess (\<lambda>s. s\<lparr>se_send_flag := True, se_send_q := [],
          se_send_packet_arr := overwrite (se_send_packet_arr s) 0 (map Some (se_send_q s)),
          se_send_packet_count := of_nat (length (se_send_q s)), se_ios := se_ios s @ [IO_SEND]\<rparr>) st)))"
proof -
  let ?st1 = "upd_sess (\<lambda>s. s\<lparr>se_send_flag := True\<rparr>) st"
  have "gather_send 200 0 ?st1 = Inr (queued ?st1, upd_sess (\<lambda>s. s\<lparr>se_send_q := [],
      se_send_packet_arr := overwrite (se_send_packet_arr s) 0 (map Some (se_send_q s))\<rparr>) ?st1)"
    if "length (se_send_q (cn_sess st)) \<le> 200"
    using that assms by (intro gather_send_all) (simp_all add: upd_sess_def)
  then show ?thesis
    using assms(1)
    by (subst SendAsync.simps)
      (auto simp: SendAsyncImpl_def MAX_SEND_MSG_def Let_def queued_def upd_sess_def split: wsa_result.split)
qed

lemma sent_stream_os [simp]:
  "sent_stream (os (OsSend s bufs) st) = sent_stream st @ bufs" "sent_stream (os (OsPost io) st) = sent_stream st"
  "sent_stream (os (OsCancel s) st) = sent_stream st" "sent_stream (upd_sess f st) = sent_stream st"
  by (simp_all add: sent_stream_def os_def upd_sess_def)

lemma queued_os [simp]: "queued (os c st) = queued st"
  by (simp add: queued_def os_def)

text \<open>The ownership part of the invariant with explicit components, so that a step is checked field by
  field.\<close>

lemma send_invI:
  assumes "in_flight (cn_sess st) = map Some fl" "distinct (se_send_q (cn_sess st) @ fl)"
    "dom (w_vecs (cn_world st)) = set (se_send_q (cn_sess st) @ fl)"
    "se_send_packet_count (cn_sess st) = of_nat (length fl)" "length fl \<le> 200"
    "\<not> se_send_flag (cn_sess st) \<Longrightarrow> fl = []" "length (se_send_packet_arr (cn_sess st)) = 200"
    "count_list (se_ios (cn_sess st)) IO_SEND \<le> k + (if se_send_flag (cn_sess st) then 1 else 0)"
    "\<And>p. p \<in> dom (w_vecs (cn_world st)) \<Longrightarrow> p < w_fresh (cn_world st)"
  shows "send_inv k st"
  using assms by (auto simp: send_inv_def)

lemma send_invE:
  assumes "send_inv k st"
  obtains fl where "in_flight (cn_sess st) = map Some fl" "distinct (se_send_q (cn_sess st) @ fl)"
    "dom (w_vecs (cn_world st)) = set (se_send_q (cn_sess st) @ fl)"
    "se_send_packet_count (cn_sess st) = of_nat (length fl)" "length fl \<le> 200" "\<not> se_send_flag (cn_sess st) \<longrightarrow> fl = []"
    "length (se_send_packet_arr (cn_sess st)) = 200"
    "count_list (se_ios (cn_sess st)) IO_SEND \<le> k + (if se_send_flag (cn_sess st) then 1 else 0)"
    "\<forall>p\<in>dom (w_vecs (cn_world st)). p < w_fresh (cn_world st)"
  using assms unfolding send_inv_def by (elim conjE exE) (rule that)

lemma SendAsync_step:
  assumes inv: "send_inv k st"
  shows "\<exists>st'. SendAsync r st = Inr st' \<and> send_inv k st' \<and> no_idle_backlog st' \<and>
    sent_stream st' @ queued st' = sent_stream st @ queued st \<and>
    set (se_ios (cn_sess st)) \<subseteq> set (se_ios (cn_sess st')) \<and> w_fresh (cn_world st') = w_fresh (cn_world st)"
proof (cases "se_send_flag (cn_sess st)")
  case True
  then show ?thesis using inv by (subst SendAsync.simps) (auto simp: no_idle_backlog_def)
next
  case False
  then have fl: "distinct (se_send_q (cn_sess st))" "dom (w_vecs (cn_world st)) = set (se_send_q (cn_sess st))"
      "se_send_packet_count (cn_sess st) = 0" and arr: "length (se_send_packet_arr (cn_sess st)) = 200"
      and io: "count_list (se_ios (cn_sess st)) IO_SEND \<le> k" and fresh: "\<forall>p\<in>dom (w_vecs (cn_world st)). p < w_fresh (cn_world st)"
    using inv by (auto simp: send_inv_def)
  note run = SendAsync_idle [OF False _ arr, of r]
  let ?q = "se_send_q (cn_sess st)"
  consider "?q = []" | "200 < length ?q" | "?q \<noteq> []" "length ?q \<le> 200" by linarith
  then show ?thesis
  proof cases
    case 1
    then show ?thesis using run fl(2) inv by (auto simp: no_idle_backlog_def)
  next
    case 2
    let ?st' = "Session_Disconnect (upd_sess (\<lambda>s. s\<lparr>se_send_flag := True\<rparr>) st)"
    have s': "se_send_q (cn_sess ?st') = ?q" "se_send_packet_count (cn_sess ?st') = 0" "se_send_flag (cn_sess ?st')"
        "se_send_packet_arr (cn_sess ?st') = se_send_packet_arr (cn_sess st)" "se_ios (cn_sess ?st') = se_ios (cn_sess st)"
        "w_vecs (cn_world ?st') = w_vecs (cn_world st)" "w_fresh (cn_world ?st') = w_fresh (cn_world st)"
      using fl(3) by (simp_all add: Session_Disconnect_def os_def upd_sess_def)
    have "send_inv k ?st'"
      by (rule send_invI [where fl = "[]"]) (use fl arr io fresh in \<open>simp_all add: s' in_flight_def\<close>)
    moreover have "queued ?st' = queued st" "sent_stream ?st' = sent_stream st" "no_idle_backlog ?st'"
        "se_ios (cn_sess ?st') = se_ios (cn_sess st)" "w_fresh (cn_world ?st') = w_fresh (cn_world st)"
      by (simp_all add: Session_Disconnect_def queued_def sent_stream_def no_idle_backlog_def os_def upd_sess_def)
    ultimately show ?thesis using run fl(2) 2 by auto
  next
    case 3
    define st1 where "st1 = upd_sess (\<lambda>s. s\<lparr>se_send_flag := True, se_send_q := [],
        se_send_packet_arr := overwrite (se_send_packet_arr s) 0 (map Some (se_send_q s)),
        se_send_packet_count := of_nat (length (se_send_q s)), se_ios := se_ios s @ [IO_SEND]\<rparr>) st"
    define st' where "st' = (if r = WsaError then os (OsPost IO_SEND) else id) (os (OsSend (se_sock (cn_sess st)) (queued st)) st1)"
    have s': "cn_sess st' = cn_sess st1" "w_vecs (cn_world st') = w_vecs (cn_world st)"
        "w_fresh (cn_world st') = w_fresh (cn_world st)"
      by (simp_all add: st'_def st1_def os_def upd_sess_def)
    have "nat (sint (of_nat (length ?q) :: c_int)) = length ?q" using 3(2) by (simp add: sint_small)
    then have "in_flight (cn_sess st') = map Some ?q"
      by (simp add: in_flight_def s'(1) st1_def upd_sess_def overwrite_def)
    then have "send_inv k st'"
      using fl arr io fresh 3(2)
      by (intro send_invI [where fl = ?q]) (auto simp: s' st1_def upd_sess_def)
    moreover have "sent_stream st' @ queued st' = sent_stream st @ queued st"
      by (simp add: st'_def) (simp add: st1_def queued_def sent_stream_def upd_sess_def)
    moreover have "no_idle_backlog st'" "set (se_ios (cn_sess st)) \<subseteq> set (se_ios (cn_sess st'))"
      by (auto simp: no_idle_backlog_def s'(1) st1_def upd_sess_def)
    ultimately show ?thesis using run fl(2) 3 s'(3) by (auto simp: st'_def st1_def)
  qed
qed

section \<open>Queueing a packet\<close>

definition queue_packet :: "byte list \<Rightarrow> 'a conn \<Rightarrow> 'a conn" where
  "queue_packet bs st = upd_sess (\<lambda>s. s\<lparr>se_send_q := se_send_q s @ [w_fresh (cn_world st)]\<rparr>) (snd (new_vec bs st))"

lemma queue_packet_step:
  assumes "send_inv k st"
  shows "send_inv k (queue_packet bs st)" "queued (queue_packet bs st) = queued st @ [bs]"
    "sent_stream (queue_packet bs st) = sent_stream st" "se_ios (cn_sess (queue_packet bs st)) = se_ios (cn_sess st)"
proof -
  let ?p = "w_fresh (cn_world st)"
  obtain fl where fl: "in_flight (cn_sess st) = map Some fl" "distinct (se_send_q (cn_sess st) @ fl)"
      "dom (w_vecs (cn_world st)) = set (se_send_q (cn_sess st) @ fl)"
      "se_send_packet_count (cn_sess st) = of_nat (length fl)" "length fl \<le> 200" "\<not> se_send_flag (cn_sess st) \<longrightarrow> fl = []"
      "length (se_send_packet_arr (cn_sess st)) = 200"
      "count_list (se_ios (cn_sess st)) IO_SEND \<le> k + (if se_send_flag (cn_sess st) then 1 else 0)"
      "\<forall>p\<in>dom (w_vecs (cn_world st)). p < ?p"
    using assms by (rule send_invE)
  have new: "?p \<notin> set (se_send_q (cn_sess st) @ fl)" using fl(3,9) by blast
  have q: "cn_sess (queue_packet bs st) = (cn_sess st)\<lparr>se_send_q := se_send_q (cn_sess st) @ [?p]\<rparr>"
      "w_vecs (cn_world (queue_packet bs st)) = (w_vecs (cn_world st))(?p \<mapsto> bs)"
      "w_fresh (cn_world (queue_packet bs st)) = Suc ?p"
    by (simp_all add: queue_packet_def new_vec_def Let_def upd_sess_def)
  show "send_inv k (queue_packet bs st)"
    using fl new by (intro send_invI [where fl = fl]) (auto simp: q in_flight_def less_Suc_eq)
  show "queued (queue_packet bs st) = queued st @ [bs]"
    using new by (auto simp: queued_def q intro!: map_cong)
  show "sent_stream (queue_packet bs st) = sent_stream st" "se_ios (cn_sess (queue_packet bs st)) = se_ios (cn_sess st)"
    by (simp_all add: queue_packet_def sent_stream_def new_vec_def Let_def upd_sess_def)
qed

lemma SendPacket_queues:
  assumes "proto_law P m enc" "length enc \<le> 4194296"
    and "se_sock (cn_sess st) \<noteq> INVALID_SOCKET" "\<not> se_pending_disconnect (cn_sess st)"
  obtains pid where "PACKET_ID P = Inr pid"
    "\<And>r. SendPacket P m r st = rbind (SendAsync r (queue_packet (frame_bytes (pid, enc)) st)) (\<lambda>st'. Inr (True, st'))"
proof -
  obtain pid where pid: "PACKET_ID P = Inr pid"
    using PACKET_ID_total assms(1) by (auto simp: proto_law_def)
  have bs: "unat (ByteSizeLong P m) = length enc" using assms(1) by (simp add: proto_law_def)
  define tot :: u64 where "tot = 8 + ByteSizeLong P m"
  have "ByteSizeLong P m = of_nat (length enc)"
    using assms(2) bs by (simp add: word_unat_eq_iff unat_of_nat)
  then have "tot = of_nat (8 + length enc)" by (simp add: tot_def)
  then have tot: "unat tot = 8 + length enc" and tot32: "(ucast tot :: u32) = of_nat (8 + length enc)"
    using assms(2) unat_of_nat_u64 [of "8 + length enc"] ucast_of_nat [of "8 + length enc"] by simp_all
  have ser: "SerializeToArray P m (replicate (length enc) 0) = (True, enc)"
    using assms(1) by (simp add: proto_law_def)
  have "SendPacket P m r st = rbind (SendAsync r (queue_packet (frame_bytes (pid, enc)) st)) (\<lambda>st'. Inr (True, st'))" for r
    using assms(3,4) pid ser
    by (simp add: SendPacket_def PACKET_ID_def UNIFIED_HEADER_SIZE_def Let_def tot tot32 new_vec_def queue_packet_def
        frame_bytes_def overwrite_def upd_sess_def flip: tot_def)
  with pid show thesis by (rule that)
qed

section \<open>The end of a send\<close>

lemma delete_sent_all:
  assumes "distinct fl" "set fl \<subseteq> dom (w_vecs (cn_world st))"
    and "slice (se_send_packet_arr (cn_sess st)) i (length fl) = map Some fl"
    and "i + length fl \<le> length (se_send_packet_arr (cn_sess st))"
  shows "\<exists>st'. delete_sent (length fl) i st = Inr st' \<and>
    st' = st\<lparr>cn_world := (cn_world st)\<lparr>w_vecs := (w_vecs (cn_world st)) |` (- set fl)\<rparr>,
      cn_sess := (cn_sess st)\<lparr>se_send_packet_arr := se_send_packet_arr (cn_sess st')\<rparr>\<rparr> \<and>
    length (se_send_packet_arr (cn_sess st')) = length (se_send_packet_arr (cn_sess st))"
  using assms
proof (induction fl arbitrary: i st)
  case Nil
  then show ?case by simp
next
  case (Cons p fl)
  obtain bs where bs: "w_vecs (cn_world st) p = Some bs" using Cons.prems(2) by auto
  have at: "se_send_packet_arr (cn_sess st) ! i = Some p" "i < length (se_send_packet_arr (cn_sess st))"
    using Cons.prems(3,4) nth_slice [of i "length (p # fl)" "se_send_packet_arr (cn_sess st)" 0] by auto
  define st1 where "st1 = st\<lparr>cn_world := (cn_world st)\<lparr>w_vecs := (w_vecs (cn_world st))(p := None)\<rparr>,
      cn_sess := (cn_sess st)\<lparr>se_send_packet_arr := (se_send_packet_arr (cn_sess st))[i := None]\<rparr>\<rparr>"
  have run: "delete_sent (length (p # fl)) i st = delete_sent (length fl) (Suc i) st1"
    using at bs by (simp add: delete_vec_def upd_sess_def st1_def)
  have "slice (se_send_packet_arr (cn_sess st1)) (Suc i) (length fl) = map Some fl"
    using Cons.prems(3) Cons_nth_drop_Suc [OF at(2), symmetric] by (simp add: st1_def slice_def)
  moreover have "set fl \<subseteq> dom (w_vecs (cn_world st1))" "Suc i + length fl \<le> length (se_send_packet_arr (cn_sess st1))"
      "distinct fl"
    using Cons.prems by (auto simp: st1_def)
  ultimately obtain st' where st': "delete_sent (length fl) (Suc i) st1 = Inr st'"
      "st' = st1\<lparr>cn_world := (cn_world st1)\<lparr>w_vecs := (w_vecs (cn_world st1)) |` (- set fl)\<rparr>,
        cn_sess := (cn_sess st1)\<lparr>se_send_packet_arr := se_send_packet_arr (cn_sess st')\<rparr>\<rparr>"
      "length (se_send_packet_arr (cn_sess st')) = length (se_send_packet_arr (cn_sess st1))"
    using Cons.IH [of st1 "Suc i"] by blast
  have "((w_vecs (cn_world st))(p := None)) |` (- set fl) = (w_vecs (cn_world st)) |` (- set (p # fl))"
    by (auto simp: restrict_map_def)
  with st' run show ?case
    by (intro exI [of _ st']) (simp add: st1_def)
qed

lemma HandleSendComplete_step:
  assumes "send_inv 0 st"
  shows "\<exists>st'. HandleSendComplete r st = Inr st' \<and> send_inv 1 st' \<and> no_idle_backlog st' \<and>
    sent_stream st' @ queued st' = sent_stream st @ queued st \<and>
    set (se_ios (cn_sess st)) \<subseteq> set (se_ios (cn_sess st'))"
proof -
  obtain fl where fl: "in_flight (cn_sess st) = map Some fl" "distinct (se_send_q (cn_sess st) @ fl)"
      "dom (w_vecs (cn_world st)) = set (se_send_q (cn_sess st) @ fl)"
      "se_send_packet_count (cn_sess st) = of_nat (length fl)" "length fl \<le> 200"
      and arr: "length (se_send_packet_arr (cn_sess st)) = 200"
      and io: "count_list (se_ios (cn_sess st)) IO_SEND \<le> 0 + (if se_send_flag (cn_sess st) then 1 else 0)"
      and fresh: "\<forall>p\<in>dom (w_vecs (cn_world st)). p < w_fresh (cn_world st)"
    using assms unfolding send_inv_def by (elim conjE exE) (rule that)
  have n: "nat (sint (se_send_packet_count (cn_sess st))) = length fl"
    using fl(4,5) by (simp add: sint_small)
  have "slice (se_send_packet_arr (cn_sess st)) 0 (length fl) = map Some fl"
    using fl(1) n by (simp add: in_flight_def slice_def)
  with delete_sent_all [of fl st 0] fl(2,3,5) arr obtain st1 where st1: "delete_sent (length fl) 0 st = Inr st1"
      "st1 = st\<lparr>cn_world := (cn_world st)\<lparr>w_vecs := (w_vecs (cn_world st)) |` (- set fl)\<rparr>,
        cn_sess := (cn_sess st)\<lparr>se_send_packet_arr := se_send_packet_arr (cn_sess st1)\<rparr>\<rparr>"
      "length (se_send_packet_arr (cn_sess st1)) = 200" by auto
  define a where "a = se_send_packet_arr (cn_sess st1)"
  define st2 where "st2 = upd_sess (\<lambda>s. s\<lparr>se_send_packet_count := 0, se_send_flag := False\<rparr>) st1"
  have s2: "se_send_q (cn_sess st2) = se_send_q (cn_sess st)" "se_send_packet_arr (cn_sess st2) = a"
      "se_ios (cn_sess st2) = se_ios (cn_sess st)" "se_send_packet_count (cn_sess st2) = 0" "\<not> se_send_flag (cn_sess st2)"
      "w_vecs (cn_world st2) = (w_vecs (cn_world st)) |` (- set fl)" "w_fresh (cn_world st2) = w_fresh (cn_world st)"
      "w_calls (cn_world st2) = w_calls (cn_world st)"
    unfolding st2_def by (subst st1(2); simp add: upd_sess_def a_def)+
  have "dom (w_vecs (cn_world st2)) = set (se_send_q (cn_sess st))"
    using fl(2,3) by (auto simp: s2)
  then have inv: "send_inv 1 st2"
    using fl(2,3) io fresh st1(3) by (intro send_invI [where fl = "[]"]) (auto simp: s2 in_flight_def a_def split: if_splits)
  have view: "queued st2 = queued st" "sent_stream st2 = sent_stream st"
    using fl(2) by (auto simp: queued_def sent_stream_def s2 restrict_map_def intro!: map_cong)
  have run: "HandleSendComplete r st =
      (if se_pending_disconnect (cn_sess st2) \<or> se_send_q (cn_sess st2) = [] then Inr st2 else SendAsync r st2)"
    by (simp add: HandleSendComplete_def n st1(1) Let_def flip: st2_def)
  show ?thesis
  proof (cases "se_pending_disconnect (cn_sess st2) \<or> se_send_q (cn_sess st2) = []")
    case True
    then show ?thesis using run inv view s2(3) by (auto simp: no_idle_backlog_def)
  next
    case False
    then show ?thesis using run SendAsync_step [OF inv, of r] view s2(3) by auto
  qed
qed

section \<open>Sends and completions in any order\<close>

text \<open>The application sends messages; the port delivers completion packets of outstanding sends, with
  the byte count reported (0 after a failed call).\<close>

datatype 'm send_event = SendMsg 'm wsa_result | SendDone u32 wsa_result

fun send_run :: "'a worker_env \<Rightarrow> 'm proto \<Rightarrow> 'm send_event list \<Rightarrow> 'a conn \<Rightarrow> fault + ('m list \<times> 'a conn)" where
  "send_run env P [] st = Inr ([], st)"
| "send_run env P (SendMsg m r # es) st =
     rbind (SendPacket P m r st) (\<lambda>(accepted, st1).
     rbind (send_run env P es st1) (\<lambda>(ms, st2). Inr (if accepted then m # ms else ms, st2)))"
| "send_run env P (SendDone n r # es) st =
     (if IO_SEND \<in> set (se_ios (cn_sess st))
      then rbind (worker_dispatch env r 0 n (Some (0x10000, IO_SEND)) st) (\<lambda>(_, st1). send_run env P es st1)
      else send_run env P es st)"

lemma count_list_remove1: "x \<in> set xs \<Longrightarrow> count_list xs x = Suc (count_list (remove1 x xs) x)"
  by (induction xs) auto

lemma send_inv_mono:
  assumes "send_inv k st" "k \<le> k'"
  shows "send_inv k' st"
  using assms(1)
proof (rule send_invE)
  fix fl
  assume "in_flight (cn_sess st) = map Some fl" "distinct (se_send_q (cn_sess st) @ fl)"
    "dom (w_vecs (cn_world st)) = set (se_send_q (cn_sess st) @ fl)"
    "se_send_packet_count (cn_sess st) = of_nat (length fl)" "length fl \<le> 200" "\<not> se_send_flag (cn_sess st) \<longrightarrow> fl = []"
    "length (se_send_packet_arr (cn_sess st)) = 200"
    "count_list (se_ios (cn_sess st)) IO_SEND \<le> k + (if se_send_flag (cn_sess st) then 1 else 0)"
    "\<forall>p\<in>dom (w_vecs (cn_world st)). p < w_fresh (cn_world st)"
  with assms(2) show ?thesis by (intro send_invI [where fl = fl]) (auto split: if_splits)
qed

lemma send_inv_drop_io:
  assumes "send_inv (Suc k) st" "IO_SEND \<in> set (se_ios (cn_sess st))"
  shows "send_inv k (upd_sess (\<lambda>s. s\<lparr>se_ios := remove1 IO_SEND (se_ios s)\<rparr>) st)"
proof -
  obtain fl where fl: "in_flight (cn_sess st) = map Some fl" "distinct (se_send_q (cn_sess st) @ fl)"
      "dom (w_vecs (cn_world st)) = set (se_send_q (cn_sess st) @ fl)"
      "se_send_packet_count (cn_sess st) = of_nat (length fl)" "length fl \<le> 200" "\<not> se_send_flag (cn_sess st) \<longrightarrow> fl = []"
      "length (se_send_packet_arr (cn_sess st)) = 200"
      "count_list (se_ios (cn_sess st)) IO_SEND \<le> Suc k + (if se_send_flag (cn_sess st) then 1 else 0)"
      "\<forall>p\<in>dom (w_vecs (cn_world st)). p < w_fresh (cn_world st)"
    using assms(1) by (rule send_invE)
  moreover have "count_list (remove1 IO_SEND (se_ios (cn_sess st))) IO_SEND \<le> k + (if se_send_flag (cn_sess st) then 1 else 0)"
    using fl(8) count_list_remove1 [OF assms(2)] by linarith
  ultimately show ?thesis
    by (intro send_invI [where fl = fl]) (simp_all add: upd_sess_def in_flight_def)
qed

lemma drop_io_view [simp]:
  "queued (upd_sess (\<lambda>s. s\<lparr>se_ios := f s\<rparr>) st) = queued st"
  "no_idle_backlog (upd_sess (\<lambda>s. s\<lparr>se_ios := f s\<rparr>) st) = no_idle_backlog st"
  "se_ios (cn_sess (upd_sess (\<lambda>s. s\<lparr>se_ios := f s\<rparr>) st)) = f (cn_sess st)"
  by (simp_all add: queued_def no_idle_backlog_def upd_sess_def)

lemma SendDone_step:
  assumes "send_inv 0 st" "no_idle_backlog st" "{IO_RECV, IO_SEND} \<subseteq> set (se_ios (cn_sess st))"
  shows "\<exists>st'. worker_dispatch env r now n (Some (0x10000, IO_SEND)) st = Inr (False, st') \<and> send_inv 0 st' \<and>
    no_idle_backlog st' \<and> sent_stream st' @ queued st' = sent_stream st @ queued st \<and> IO_RECV \<in> set (se_ios (cn_sess st'))"
proof -
  obtain st1 where st1: "(if n = 0 then Inr st else HandleSendComplete r st) = Inr st1" "send_inv 1 st1" "no_idle_backlog st1"
      "sent_stream st1 @ queued st1 = sent_stream st @ queued st" "set (se_ios (cn_sess st)) \<subseteq> set (se_ios (cn_sess st1))"
    using HandleSendComplete_step [OF assms(1), of r] assms(2) send_inv_mono [OF assms(1), of 1] by (cases "n = 0") auto
  let ?st' = "upd_sess (\<lambda>s. s\<lparr>se_ios := remove1 IO_SEND (se_ios s)\<rparr>) st1"
  have io: "IO_SEND \<in> set (se_ios (cn_sess st1))" "IO_RECV \<in> set (remove1 IO_SEND (se_ios (cn_sess st1)))"
    using st1(5) assms(3) in_set_remove1 [of IO_RECV IO_SEND] by auto
  then have "remove1 IO_SEND (se_ios (cn_sess st1)) \<noteq> []" by (metis empty_iff empty_set)
  then have "worker_dispatch env r now n (Some (0x10000, IO_SEND)) st = Inr (False, ?st')"
    using st1(1) by (auto simp: worker_dispatch_def delete_overlapped_def Let_def split: if_splits)
  with send_inv_drop_io [of 0 st1] st1 io show ?thesis by (intro exI [of _ ?st']) simp
qed

lemma SendMsg_step:
  assumes "send_inv 0 st" "no_idle_backlog st" "proto_law P m enc" "length enc \<le> 4194296" "PACKET_ID P = Inr pid"
  shows "\<exists>accepted st'. SendPacket P m r st = Inr (accepted, st') \<and> send_inv 0 st' \<and> no_idle_backlog st' \<and>
    sent_stream st' @ queued st' = sent_stream st @ queued st @ (if accepted then [frame_bytes (pid, enc)] else []) \<and>
    set (se_ios (cn_sess st)) \<subseteq> set (se_ios (cn_sess st'))"
proof (cases "se_sock (cn_sess st) = INVALID_SOCKET \<or> se_pending_disconnect (cn_sess st)")
  case True
  then show ?thesis using assms(1,2) by (auto simp: SendPacket_def)
next
  case False
  then obtain pid' where "PACKET_ID P = Inr pid'"
      and run: "\<And>r. SendPacket P m r st = rbind (SendAsync r (queue_packet (frame_bytes (pid', enc)) st)) (\<lambda>st'. Inr (True, st'))"
    using SendPacket_queues [OF assms(3,4), of st] by blast
  then have [simp]: "pid' = pid" using assms(5) by simp
  note q = queue_packet_step [OF assms(1), of "frame_bytes (pid, enc)"]
  from SendAsync_step [OF q(1), of r] run q(2-4) show ?thesis by auto
qed

lemma send_run_stream:
  assumes "send_inv 0 st" "no_idle_backlog st" "IO_RECV \<in> set (se_ios (cn_sess st))"
    and "\<And>m. proto_law P m (enc m) \<and> length (enc m) \<le> 4194296" "PACKET_ID P = Inr pid"
  shows "\<exists>ms st'. send_run env P es st = Inr (ms, st') \<and> send_inv 0 st' \<and> no_idle_backlog st' \<and>
    sent_stream st' @ queued st' = sent_stream st @ queued st @ map (\<lambda>m. frame_bytes (pid, enc m)) ms"
  using assms(1-3)
proof (induction es arbitrary: st)
  case Nil
  then show ?case by simp
next
  case (Cons ev es)
  show ?case
  proof (cases ev)
    case (SendMsg m r)
    obtain ok st1 where "SendPacket P m r st = Inr (ok, st1)" "send_inv 0 st1" "no_idle_backlog st1"
        "sent_stream st1 @ queued st1 = sent_stream st @ queued st @ (if ok then [frame_bytes (pid, enc m)] else [])"
        "IO_RECV \<in> set (se_ios (cn_sess st1))"
      using SendMsg_step [OF Cons.prems(1,2), of P m "enc m" pid r] assms(4,5) Cons.prems(3) by blast
    with Cons.IH [of st1] SendMsg show ?thesis by fastforce
  next
    case (SendDone n r)
    show ?thesis
    proof (cases "IO_SEND \<in> set (se_ios (cn_sess st))")
      case True
      then obtain st1 where "worker_dispatch env r 0 n (Some (0x10000, IO_SEND)) st = Inr (False, st1)" "send_inv 0 st1"
          "no_idle_backlog st1" "sent_stream st1 @ queued st1 = sent_stream st @ queued st" "IO_RECV \<in> set (se_ios (cn_sess st1))"
        using SendDone_step [OF Cons.prems(1,2), of env r 0 n] Cons.prems(3) by auto
      with Cons.IH [of st1] SendDone True show ?thesis by (auto simp flip: append_assoc)
    qed (use Cons SendDone in simp)
  qed
qed

section \<open>Properties\<close>

text \<open>C4: The send path keeps the stream: under any sequence of \<open>SendPacket\<close> calls and send completions
  (successful or failed) on a session with a receive outstanding, nothing faults, the packets handed
  to the socket followed by the packets still queued are exactly the accepted packets, framed, in the
  order of the calls; every packet vector is owned by exactly one of the queue and the slots in
  flight (none leaks, none is freed twice), at most one send is outstanding, and packets wait in the
  queue only while a send is outstanding or the session is disconnecting.\<close>

theorem send_stream_integrity:
  assumes "send_inv 0 st" "no_idle_backlog st" "IO_RECV \<in> set (se_ios (cn_sess st))"
    and "\<And>m. proto_law P m (enc m) \<and> length (enc m) \<le> 4194296" "PACKET_ID P = Inr pid"
  shows "\<exists>ms st'. send_run env P es st = Inr (ms, st') \<and> send_inv 0 st' \<and> no_idle_backlog st' \<and>
    sent_stream st' @ queued st' = sent_stream st @ queued st @ map (\<lambda>m. frame_bytes (pid, enc m)) ms"
  using assms by (rule send_run_stream)

definition busy_conn :: "nat conn" where
  "busy_conn = upd_sess (\<lambda>s. s\<lparr>se_ios := [IO_RECV]\<rparr>) (idle_conn 0)"

definition tiny_proto :: "bool proto" where
  "tiny_proto = \<lparr>full_name = ''t'', ByteSizeLong = (\<lambda>_. 1), SerializeToArray = (\<lambda>m dst. (True, [if m then 1 else 0])),
     ParseFromArray = (\<lambda>bs. Some (bs = [1]))\<rparr>"

lemma busy_conn_inv: "send_inv 0 busy_conn" "no_idle_backlog busy_conn" "IO_RECV \<in> set (se_ios (cn_sess busy_conn))"
  "sent_stream busy_conn = []" "queued busy_conn = []"
  by (auto simp: busy_conn_def idle_conn_def idle_session_def Session_ctor_def upd_sess_def no_idle_backlog_def
      sent_stream_def queued_def in_flight_def MAX_SEND_MSG_def intro!: send_invI [where fl = "[]"])

lemma tiny_proto_law: "proto_law tiny_proto m [if m then 1 else 0] \<and> length [if m then 1 else (0 :: byte)] \<le> 4194296"
  by (simp add: proto_law_def tiny_proto_def)

definition quiet_env :: "nat worker_env" where
  "quiet_env = \<lparr>we_handlers = Map.empty, we_accept = Inr, we_connect = Inr, we_on_disconnect = (\<lambda>e u a. a)\<rparr>"

theorem send_stream_integrity_witness:
  "\<exists>pid ms st'. send_run quiet_env tiny_proto [SendMsg True WsaPending, SendMsg False WsaPending, SendDone 9 WsaPending] busy_conn =
      Inr (ms, st') \<and> send_inv 0 st' \<and>
    sent_stream st' @ queued st' = map (\<lambda>m. frame_bytes (pid, [if m then 1 else 0])) ms"
proof -
  obtain pid where "PACKET_ID tiny_proto = Inr pid"
    using PACKET_ID_total tiny_proto_law by (auto simp: proto_law_def)
  from send_stream_integrity [OF busy_conn_inv(1-3) tiny_proto_law this, of quiet_env
      "[SendMsg True WsaPending, SendMsg False WsaPending, SendDone 9 WsaPending]"]
  show ?thesis unfolding busy_conn_inv(4,5) append_Nil by blast
qed

text \<open>A backlog of more than 200 packets cuts the connection: \<open>SendAsync\<close> on a session whose queue
  holds more than \<open>MAX_SEND_MSG\<close> packets sends nothing, marks the session as disconnecting, cancels its
  I/O, and keeps the send flag, so that no later call sends the queued packets.\<close>

lemma backlog_disconnects:
  assumes "send_inv 0 st" "\<not> se_send_flag (cn_sess st)" "200 < length (se_send_q (cn_sess st))" "\<not> se_pending_disconnect (cn_sess st)"
  shows "\<exists>st'. SendAsync r st = Inr st' \<and> sent_stream st' = sent_stream st \<and> se_pending_disconnect (cn_sess st') \<and>
    w_calls (cn_world st') = w_calls (cn_world st) @ [OsCancel (se_sock (cn_sess st))] \<and>
    (\<forall>r'. SendAsync r' st' = Inr st')"
proof -
  let ?st' = "Session_Disconnect (upd_sess (\<lambda>s. s\<lparr>se_send_flag := True\<rparr>) st)"
  have "SendAsync r st = Inr ?st'"
  proof (subst SendAsync_idle [OF assms(2)])
    show "set (se_send_q (cn_sess st)) \<subseteq> dom (w_vecs (cn_world st))" "length (se_send_packet_arr (cn_sess st)) = 200"
      using assms(1) by (auto elim!: send_invE)
  qed (use assms(3) in auto)
  moreover have "SendAsync r' ?st' = Inr ?st'" for r'
    by (subst SendAsync.simps) (simp add: Session_Disconnect_def os_def upd_sess_def)
  ultimately show ?thesis
    using assms(4) by (intro exI [of _ ?st']) (simp add: Session_Disconnect_def sent_stream_def os_def upd_sess_def)
qed

definition backlog_conn :: "nat conn" where
  "backlog_conn = \<lparr>cn_sess = idle_session\<lparr>se_send_q := [0..<201]\<rparr>,
     cn_world = \<lparr>w_vecs = (\<lambda>p. if p < 201 then Some [] else None), w_fresh = 201, w_calls = []\<rparr>, cn_app = 0\<rparr>"

lemma backlog_conn_inv: "send_inv 0 backlog_conn"
  by (intro send_invI [where fl = "[]"])
    (auto simp: backlog_conn_def idle_session_def Session_ctor_def in_flight_def MAX_SEND_MSG_def dom_def split: if_splits
      simp del: upt_Suc)

lemma backlog_disconnects_example:
  "\<exists>st'. SendAsync WsaPending backlog_conn = Inr st' \<and> se_pending_disconnect (cn_sess st') \<and> w_calls (cn_world st') = [OsCancel 5]"
proof -
  have "\<not> se_send_flag (cn_sess backlog_conn)" "200 < length (se_send_q (cn_sess backlog_conn))"
      "\<not> se_pending_disconnect (cn_sess backlog_conn)" "se_sock (cn_sess backlog_conn) = 5" "w_calls (cn_world backlog_conn) = []"
    by (simp_all add: backlog_conn_def idle_session_def Session_ctor_def)
  with backlog_disconnects [OF backlog_conn_inv, of WsaPending] show ?thesis by auto
qed

end
