(* ===== verification/Server.thy ===== *)
theory Server
  imports SendPath
begin

text \<open>
  The server engine (\<^verbatim>\<open>JunCore/network/Server.h\<close> and \<^verbatim>\<open>.cpp\<close>) and the accept completion
  (\<^verbatim>\<open>IOCPManager.cpp\<close>). The results of the socket calls are arguments; every call that creates, closes
  or uses a socket and every thread start or stop is recorded in order.

  Shown here: starting is all or nothing, stopping happens once, an accepted connection is fully set
  up before its first receive, and what the error paths do to the socket.
\<close>

section \<open>State\<close>

datatype srv_event =
    EvSocket u64 | EvBind u64 | EvListen u64 | EvClose u64 | EvAcceptEx u64 u64
  | EvCoreStart | EvManagerInit | EvGameStart nat | EvGameStop nat | EvCoreStop
  | EvServerStart | EvServerStop

record Server =
  sv_listenSocket :: u64
  sv_running :: bool
  sv_fnAcceptEx :: bool
  sv_fnGetAcceptExSockaddrs :: bool
  sv_initialized :: bool
  sv_game_threads :: nat
  sv_events :: "srv_event list"

definition sv_log :: "srv_event \<Rightarrow> Server \<Rightarrow> Server" where
  "sv_log e sv = sv\<lparr>sv_events := sv_events sv @ [e]\<rparr>"

definition sv_logs :: "srv_event list \<Rightarrow> Server \<Rightarrow> Server" where
  "sv_logs es sv = sv\<lparr>sv_events := sv_events sv @ es\<rparr>"

text \<open>What Windows answers during one call of \<open>PostAcceptEx\<close>, and during one call of \<open>StartServer\<close>.\<close>

record accept_os =
  ao_socket :: u64
  ao_register :: bool
  ao_acceptex :: wsa_result

record start_os =
  so_socket :: u64
  so_bind :: bool
  so_listen :: bool
  so_load_accept :: bool
  so_load_addrs :: bool
  so_register :: bool
  so_accept :: accept_os

section \<open>Operations\<close>

definition Server_ctor :: "nat \<Rightarrow> Server" where
  "Server_ctor game_thread_count =
     \<lparr>sv_listenSocket = INVALID_SOCKET, sv_running = False, sv_fnAcceptEx = False, sv_fnGetAcceptExSockaddrs = False,
      sv_initialized = False, sv_game_threads = game_thread_count, sv_events = []\<rparr>"

definition StartGameThreads :: "Server \<Rightarrow> Server" where
  "StartGameThreads sv = sv_logs ([EvCoreStart, EvManagerInit] @ map EvGameStart [0..<sv_game_threads sv]) sv"

definition StopGameThreads :: "Server \<Rightarrow> Server" where
  "StopGameThreads sv = sv_logs (map EvGameStop [0..<sv_game_threads sv] @ [EvCoreStop]) sv"

definition GetGameThread :: "c_int \<Rightarrow> Server \<Rightarrow> nat option" where
  "GetGameThread index sv =
     (if sint index < 0 \<or> sint (of_nat (sv_game_threads sv) :: c_int) \<le> sint index then None
      else Some (nat (sint index)))"

definition LoadAcceptExFunctions :: "bool \<Rightarrow> bool \<Rightarrow> Server \<Rightarrow> bool \<times> Server" where
  "LoadAcceptExFunctions ok1 ok2 sv =
     (if \<not> ok1 then (False, sv)
      else let sv1 = sv\<lparr>sv_fnAcceptEx := True\<rparr>
           in if \<not> ok2 then (False, sv1) else (True, sv1\<lparr>sv_fnGetAcceptExSockaddrs := True\<rparr>))"

text \<open>The session created for the pending accept is the second result; when \<open>AcceptEx\<close> fails, deleting
  the overlapped object destroys that session, whose destructor closes its socket once more.\<close>

definition PostAcceptEx :: "accept_os \<Rightarrow> addr \<Rightarrow> RingBuffer \<Rightarrow> Server \<Rightarrow> bool \<times> Session option \<times> Server" where
  "PostAcceptEx ao this rb sv =
     (if \<not> sv_fnAcceptEx sv then (False, None, sv)
      else
        let acceptSocket = ao_socket ao in
        if acceptSocket = INVALID_SOCKET then (False, None, sv)
        else
          let sv1 = sv_log (EvSocket acceptSocket) sv in
          if \<not> ao_register ao then (False, None, sv_log (EvClose acceptSocket) sv1)
          else
            let session = (Session_ctor rb)\<lparr>se_sock := acceptSocket, se_engine := Some this, se_ios := [IO_ACCEPT]\<rparr>;
                sv2 = sv_log (EvAcceptEx (sv_listenSocket sv1) acceptSocket) sv1
            in if ao_acceptex ao = WsaError
               then (False, None, sv_log (EvClose (se_sock session)) (sv_log (EvClose acceptSocket) sv2))
               else (True, Some session, sv2))"

definition StartServer :: "start_os \<Rightarrow> addr \<Rightarrow> RingBuffer \<Rightarrow> Server \<Rightarrow> bool \<times> Session option \<times> Server" where
  "StartServer so this rb sv =
     (if \<not> sv_initialized sv then (False, None, sv)
      else if sv_running sv then (False, None, sv)
      else
        let sv1 = StartGameThreads sv;
            sv2 = sv1\<lparr>sv_listenSocket := so_socket so\<rparr>
        in if so_socket so = INVALID_SOCKET then (False, None, StopGameThreads sv2)
        else
          let sv3 = sv_log (EvBind (sv_listenSocket sv2)) (sv_log (EvSocket (sv_listenSocket sv2)) sv2) in
          if \<not> so_bind so then (False, None, StopGameThreads (sv_log (EvClose (sv_listenSocket sv3)) sv3))
          else
            let sv4 = sv_log (EvListen (sv_listenSocket sv3)) sv3 in
            if \<not> so_listen so then (False, None, StopGameThreads (sv_log (EvClose (sv_listenSocket sv4)) sv4))
            else
              let (loaded, sv5) = LoadAcceptExFunctions (so_load_accept so) (so_load_addrs so) sv4 in
              if \<not> loaded then (False, None, StopGameThreads (sv_log (EvClose (sv_listenSocket sv5)) sv5))
              else if \<not> so_register so then (False, None, StopGameThreads (sv_log (EvClose (sv_listenSocket sv5)) sv5))
              else
                let sv6 = sv5\<lparr>sv_running := True\<rparr>;
                    (posted, session, sv7) = PostAcceptEx (so_accept so) this rb sv6
                in if \<not> posted
                   then (False, None, StopGameThreads (sv_log (EvClose (sv_listenSocket sv7)) (sv7\<lparr>sv_running := False\<rparr>)))
                   else (True, session, sv_log EvServerStart sv7))"

definition StopServer :: "Server \<Rightarrow> Server" where
  "StopServer sv =
     (if \<not> sv_running sv then sv
      else
        let sv1 = StopGameThreads (sv\<lparr>sv_running := False\<rparr>);
            sv2 = (if sv_listenSocket sv1 \<noteq> INVALID_SOCKET
                   then (sv_log (EvClose (sv_listenSocket sv1)) sv1)\<lparr>sv_listenSocket := INVALID_SOCKET\<rparr> else sv1)
        in sv_log EvServerStop sv2)"

definition IsServerRunning :: "Server \<Rightarrow> bool" where
  "IsServerRunning sv = sv_running sv"

text \<open>The accept completion. \<open>server\<close> is the result of the cast of the session's engine; \<open>peer\<close> the
  address \<open>getpeername\<close> found; \<open>user\<close> the address of the new user object; \<open>on_connect\<close> the
  application's \<open>OnSessionConnect\<close>.\<close>

record complete_os =
  co_setsockopt :: bool
  co_peer :: "(u32 \<times> u16) option"
  co_now :: u64
  co_user :: addr
  co_recv :: wsa_result

definition HandleAcceptComplete ::
  "complete_os \<Rightarrow> accept_os \<Rightarrow> addr \<Rightarrow> addr option \<Rightarrow> RingBuffer \<Rightarrow> (addr \<Rightarrow> 'a conn \<Rightarrow> 'a conn) \<Rightarrow> Server \<times> 'a conn \<Rightarrow>
   fault + (Server \<times> 'a conn)" where
  "HandleAcceptComplete co ao iocp server rb on_connect = (\<lambda>(sv, st).
     let acceptSocket = se_sock (cn_sess st) in
     case server of
       None \<Rightarrow> Inr (sv, os (OsClose acceptSocket) st)
     | Some this \<Rightarrow>
         rbind (if \<not> co_setsockopt co then Inr (os (OsClose acceptSocket) st)
                else case co_peer co of
                    None \<Rightarrow> Inr (os (OsClose acceptSocket) st)
                  | Some (ip, port) \<Rightarrow>
                      rbind (Session_Set (co_now co) acceptSocket ip port (Some this) iocp (Some (co_user co)) st)
                        (\<lambda>st1. Inr (snd (RecvAsync (co_recv co) (on_connect (co_user co) st1)))))
           (\<lambda>st2. let (_, _, sv') = PostAcceptEx ao this rb sv in Inr (sv', st2)))"

section \<open>Facts\<close>

lemma sv_log_simps [simp]:
  "sv_running (sv_log e sv) = sv_running sv" "sv_listenSocket (sv_log e sv) = sv_listenSocket sv"
  "sv_events (sv_log e sv) = sv_events sv @ [e]" "sv_game_threads (sv_log e sv) = sv_game_threads sv"
  "sv_fnAcceptEx (sv_log e sv) = sv_fnAcceptEx sv" "sv_initialized (sv_log e sv) = sv_initialized sv"
  "sv_running (sv_logs es sv) = sv_running sv" "sv_listenSocket (sv_logs es sv) = sv_listenSocket sv"
  "sv_events (sv_logs es sv) = sv_events sv @ es" "sv_game_threads (sv_logs es sv) = sv_game_threads sv"
  "sv_fnAcceptEx (sv_logs es sv) = sv_fnAcceptEx sv" "sv_initialized (sv_logs es sv) = sv_initialized sv"
  by (simp_all add: sv_log_def sv_logs_def)

text \<open>Accounting over a record of events.\<close>

fun ev_socks :: "srv_event \<Rightarrow> u64 list" where
  "ev_socks (EvSocket s) = [s]" | "ev_socks _ = []"

fun ev_closed :: "srv_event \<Rightarrow> u64 list" where
  "ev_closed (EvClose s) = [s]" | "ev_closed _ = []"

fun core_running :: "srv_event list \<Rightarrow> bool \<Rightarrow> bool" where
  "core_running [] b = b"
| "core_running (e # es) b = core_running es (case e of EvCoreStart \<Rightarrow> True | EvCoreStop \<Rightarrow> False | _ \<Rightarrow> b)"

lemma core_running_append: "core_running (xs @ ys) b = core_running ys (core_running xs b)"
  by (induction xs arbitrary: b) auto

lemma core_running_map [simp]: "core_running (map EvGameStart is) b = b" "core_running (map EvGameStop is) b = b"
  by (induction "is" arbitrary: b) auto

lemma core_stop: "core_running (sv_events (StopGameThreads sv)) b = False"
  by (simp add: StopGameThreads_def core_running_append)

lemma PostAcceptEx_result:
  "PostAcceptEx ao this rb sv = (ok, sess, sv') \<Longrightarrow>
   sv_running sv' = sv_running sv \<and> sv_listenSocket sv' = sv_listenSocket sv \<and> sv_game_threads sv' = sv_game_threads sv \<and>
   (\<exists>es. sv_events sv' = sv_events sv @ es \<and> core_running es b = b \<and>
      (ok \<longrightarrow> concat (map ev_closed es) = [] \<and> concat (map ev_socks es) = [ao_socket ao] \<and>
         (\<exists>s. sess = Some s \<and> se_sock s = ao_socket ao \<and> se_ios s = [IO_ACCEPT] \<and> se_engine s = Some this)) \<and>
      (\<not> ok \<longrightarrow> sess = None \<and> set (concat (map ev_socks es)) \<subseteq> set (concat (map ev_closed es)) \<and>
        set (concat (map ev_closed es)) \<subseteq> {ao_socket ao}))"
  by (auto simp: PostAcceptEx_def Let_def split: if_splits)

text \<open>A failed start: the events end with closing the listening socket and stopping the threads.\<close>

lemma start_events:
  "sv_events (StartGameThreads sv) = sv_events sv @ EvCoreStart # EvManagerInit # map EvGameStart [0..<sv_game_threads sv]"
  by (simp add: StartGameThreads_def)

lemma concat_game [simp]:
  "concat (map ev_socks (map EvGameStart is)) = []" "concat (map ev_closed (map EvGameStart is)) = []"
  "concat (map ev_socks (map EvGameStop is)) = []" "concat (map ev_closed (map EvGameStop is)) = []"
  by (simp_all add: concat_eq_Nil_conv)

definition clean_failure :: "Server \<Rightarrow> Server \<Rightarrow> bool" where
  "clean_failure sv sv' \<longleftrightarrow> \<not> sv_running sv' \<and> \<not> core_running (sv_events sv') False \<and>
     (\<exists>es. sv_events sv' = sv_events sv @ es \<and> set (concat (map ev_socks es)) \<subseteq> set (concat (map ev_closed es)))"

lemma clean_failureI:
  assumes "\<not> sv_running sv1" "sv_events sv1 = sv_events sv @ es"
    and "set (concat (map ev_socks es)) \<subseteq> set (concat (map ev_closed es))"
  shows "clean_failure sv (StopGameThreads sv1)"
  using assms core_stop [of sv1 False]
  by (auto simp: clean_failure_def StopGameThreads_def simp del: map_map)

lemma StartServer_fails:
  assumes "sv_initialized sv" "\<not> sv_running sv" "StartServer so this rb sv = (False, sess, sv')"
  shows "clean_failure sv sv' \<and> sess = None"
proof -
  let ?sv1 = "(StartGameThreads sv)\<lparr>sv_listenSocket := so_socket so\<rparr>"
  have base: "sv_events ?sv1 = sv_events sv @ EvCoreStart # EvManagerInit # map EvGameStart [0..<sv_game_threads sv]"
    "\<not> sv_running ?sv1" "sv_listenSocket ?sv1 = so_socket so"
    using assms(2) by (simp_all add: start_events) (simp add: StartGameThreads_def)
  obtain loaded sv5 where load: "LoadAcceptExFunctions (so_load_accept so) (so_load_addrs so)
      (sv_log (EvListen (so_socket so)) (sv_log (EvBind (so_socket so)) (sv_log (EvSocket (so_socket so)) ?sv1))) = (loaded, sv5)"
    by (metis prod.exhaust)
  then have sv5: "sv_events sv5 = sv_events ?sv1 @ [EvSocket (so_socket so), EvBind (so_socket so), EvListen (so_socket so)]"
      "\<not> sv_running sv5" "sv_listenSocket sv5 = so_socket so"
    using base by (auto simp: LoadAcceptExFunctions_def Let_def split: if_splits)
  obtain posted session sv7 where post: "PostAcceptEx (so_accept so) this rb (sv5\<lparr>sv_running := True\<rparr>) = (posted, session, sv7)"
    by (metis prod.exhaust)
  note pr = PostAcceptEx_result [OF post, of False]
  have run: "StartServer so this rb sv =
     (if so_socket so = INVALID_SOCKET then (False, None, StopGameThreads ?sv1)
      else if \<not> so_bind so then (False, None, StopGameThreads (sv_log (EvClose (so_socket so))
        (sv_log (EvBind (so_socket so)) (sv_log (EvSocket (so_socket so)) ?sv1))))
      else if \<not> so_listen so then (False, None, StopGameThreads (sv_log (EvClose (so_socket so))
        (sv_log (EvListen (so_socket so)) (sv_log (EvBind (so_socket so)) (sv_log (EvSocket (so_socket so)) ?sv1)))))
      else if \<not> loaded \<or> \<not> so_register so then (False, None, StopGameThreads (sv_log (EvClose (so_socket so)) sv5))
      else if \<not> posted then (False, None, StopGameThreads (sv_log (EvClose (so_socket so)) (sv7\<lparr>sv_running := False\<rparr>)))
      else (True, session, sv_log EvServerStart sv7))"
    using assms(1,2) load post base(3) sv5(3) pr by (simp add: StartServer_def Let_def split: if_splits)
  consider "so_socket so = INVALID_SOCKET" "sv' = StopGameThreads ?sv1"
    | "sv' = StopGameThreads (sv_log (EvClose (so_socket so)) (sv_log (EvBind (so_socket so)) (sv_log (EvSocket (so_socket so)) ?sv1)))"
    | "sv' = StopGameThreads (sv_log (EvClose (so_socket so))
        (sv_log (EvListen (so_socket so)) (sv_log (EvBind (so_socket so)) (sv_log (EvSocket (so_socket so)) ?sv1))))"
    | "sv' = StopGameThreads (sv_log (EvClose (so_socket so)) sv5)"
    | "\<not> posted" "sv' = StopGameThreads (sv_log (EvClose (so_socket so)) (sv7\<lparr>sv_running := False\<rparr>))"
    using assms(3) unfolding run by (auto split: if_splits)
  then have "clean_failure sv sv'"
  proof cases
    case 5
    then obtain es where "sv_events sv7 = sv_events sv5 @ es" "set (concat (map ev_socks es)) \<subseteq> set (concat (map ev_closed es))"
      using pr by auto
    then show ?thesis
      unfolding 5(2)
      by (intro clean_failureI [where es = "EvCoreStart # EvManagerInit # map EvGameStart [0..<sv_game_threads sv] @
          [EvSocket (so_socket so), EvBind (so_socket so), EvListen (so_socket so)] @ es @ [EvClose (so_socket so)]"])
        (auto simp: sv5 base simp del: map_map)
  qed (use base sv5 in \<open>auto intro!: clean_failureI simp del: map_map\<close>)
  moreover have "sess = None" using assms(3) unfolding run by (auto split: if_splits)
  ultimately show ?thesis by blast
qed

section \<open>Properties\<close>


definition bind_fails :: start_os where
  "bind_fails = \<lparr>so_socket = 4, so_bind = False, so_listen = True, so_load_accept = True, so_load_addrs = True, so_register = True,
     so_accept = \<lparr>ao_socket = 6, ao_register = True, ao_acceptex = WsaPending\<rparr>\<rparr>"


text \<open>A server stops once: the first \<open>StopServer\<close> of a running server stops its game threads and then
  its core thread, closes the listening socket once, calls \<open>OnServerStop\<close> last, and further calls
  change nothing.\<close>

lemma stop_server_once:
  assumes "sv_running sv" "sv_listenSocket sv \<noteq> INVALID_SOCKET"
  shows "sv_events (StopServer sv) = sv_events sv @ map EvGameStop [0..<sv_game_threads sv] @
      [EvCoreStop, EvClose (sv_listenSocket sv), EvServerStop] \<and>
    \<not> IsServerRunning (StopServer sv) \<and> sv_listenSocket (StopServer sv) = INVALID_SOCKET \<and>
    StopServer (StopServer sv) = StopServer sv"
  using assms by (simp add: StopServer_def StopGameThreads_def Let_def IsServerRunning_def)

lemma stop_server_once_example:
  "sv_events (StopServer ((Server_ctor 2)\<lparr>sv_running := True, sv_listenSocket := 4\<rparr>)) =
    [EvGameStop 0, EvGameStop 1, EvCoreStop, EvClose 4, EvServerStop]"
  using stop_server_once [of "(Server_ctor 2)\<lparr>sv_running := True, sv_listenSocket := 4\<rparr>"]
  by (simp add: Server_ctor_def INVALID_SOCKET_def upt_rec)

text \<open>An accepted connection is complete before it is used: when the two socket calls succeed, the
  session has the peer's address, its engine and a user of its own, an empty receive buffer, no
  pending disconnect, and nothing queued; \<open>OnSessionConnect\<close> runs on exactly that state, and only then
  the first receive is posted.\<close>

lemma Session_Set_empty:
  assumes "se_send_q (cn_sess st) = []"
  shows "Session_Set now sock ip port eng iocp user st =
    Inr (upd_sess (\<lambda>s. s\<lparr>se_sock := sock, se_ip := ip, se_port := port, se_send_flag := False,
        se_pending_disconnect := False, se_send_packet_count := 0, se_last_recv_time := ucast now,
        se_engine := eng, se_h_iocp := iocp, se_owner_user := user, se_recv_buf := rb_Clear (se_recv_buf s)\<rparr>) st)"
  using assms by (simp add: Session_Set_def Let_def upd_sess_def)

lemma accept_sets_up_session:
  assumes "co_setsockopt co" "co_peer co = Some (ip, port)" "se_send_q (cn_sess st) = []" "RB_inv (se_recv_buf (cn_sess st))"
  shows "\<exists>st1 sv'. HandleAcceptComplete co ao iocp (Some this) rb on_connect (sv, st) =
      Inr (sv', snd (RecvAsync (co_recv co) (on_connect (co_user co) st1))) \<and>
    sv' = snd (snd (PostAcceptEx ao this rb sv)) \<and>
    se_sock (cn_sess st1) = se_sock (cn_sess st) \<and> se_ip (cn_sess st1) = ip \<and> se_port (cn_sess st1) = port \<and>
    se_engine (cn_sess st1) = Some this \<and> se_owner_user (cn_sess st1) = Some (co_user co) \<and>
    rb_contents (se_recv_buf (cn_sess st1)) = [] \<and> \<not> se_pending_disconnect (cn_sess st1) \<and>
    \<not> se_send_flag (cn_sess st1) \<and> se_send_q (cn_sess st1) = [] \<and> cn_app st1 = cn_app st"
proof -
  define st1 where "st1 = upd_sess (\<lambda>s. s\<lparr>se_ip := ip, se_port := port, se_send_flag := False,
        se_pending_disconnect := False, se_send_packet_count := 0, se_last_recv_time := ucast (co_now co),
        se_engine := Some this, se_h_iocp := iocp, se_owner_user := Some (co_user co), se_recv_buf := rb_Clear (se_recv_buf s)\<rparr>) st"
  have "Session_Set (co_now co) (se_sock (cn_sess st)) ip port (Some this) iocp (Some (co_user co)) st = Inr st1"
    using Session_Set_empty [OF assms(3)] by (simp add: st1_def upd_sess_def)
  then have "HandleAcceptComplete co ao iocp (Some this) rb on_connect (sv, st) =
      Inr (snd (snd (PostAcceptEx ao this rb sv)), snd (RecvAsync (co_recv co) (on_connect (co_user co) st1)))"
    using assms(1,2) by (simp add: HandleAcceptComplete_def split_beta Let_def)
  then show ?thesis
    using assms(3) rb_Clear_inv [OF assms(4)] by (intro exI [of _ st1] exI) (simp add: st1_def upd_sess_def)
qed

definition accepting_conn :: "nat conn" where
  "accepting_conn = upd_sess (\<lambda>s. (Session_ctor fresh_ring)\<lparr>se_sock := 6, se_engine := Some 1, se_ios := [IO_ACCEPT]\<rparr>) (idle_conn 0)"

lemma accepting_conn_simps [simp]:
  "se_send_q (cn_sess accepting_conn) = []" "se_recv_buf (cn_sess accepting_conn) = fresh_ring"
  "se_sock (cn_sess accepting_conn) = 6" "cn_app accepting_conn = 0" "w_calls (cn_world accepting_conn) = []"
  "se_ios (cn_sess accepting_conn) = [IO_ACCEPT]" "se_owner_user (cn_sess accepting_conn) = None"
  by (simp_all add: accepting_conn_def upd_sess_def Session_ctor_def idle_conn_def)

definition good_peer :: complete_os where
  "good_peer = \<lparr>co_setsockopt = True, co_peer = Some (0x7F000001, 80), co_now = 3, co_user = 9, co_recv = WsaPending\<rparr>"

definition next_accept :: accept_os where
  "next_accept = \<lparr>ao_socket = 8, ao_register = True, ao_acceptex = WsaPending\<rparr>"

lemma accept_sets_up_session_example:
  "\<exists>st1 sv'. HandleAcceptComplete good_peer next_accept 2 (Some 1) fresh_ring (\<lambda>u st. st) (Server_ctor 0, accepting_conn) =
      Inr (sv', snd (RecvAsync WsaPending st1)) \<and> se_ip (cn_sess st1) = 0x7F000001 \<and> se_owner_user (cn_sess st1) = Some 9"
  using accept_sets_up_session [where co = good_peer and ip = "0x7F000001" and port = 80 and st = accepting_conn and
      ao = next_accept and iocp = 2 and ?this = 1 and rb = fresh_ring and on_connect = "\<lambda>u st. st" and sv = "Server_ctor 0"]
    fresh_ring_inv by (auto simp: good_peer_def)

text \<open>The accept error path closes the client socket twice: when \<open>setsockopt\<close> or \<open>getpeername\<close> fails,
  the handler closes the socket but leaves it in the session; the worker then deletes the last
  reference, and the session's destructor closes the same socket handle again.\<close>

lemma accept_failure_closes_twice:
  assumes "\<not> co_setsockopt co \<or> co_peer co = None" "se_send_q (cn_sess st) = []" "se_ios (cn_sess st) = [IO_ACCEPT]"
    and "se_sock (cn_sess st) \<noteq> INVALID_SOCKET" "se_owner_user (cn_sess st) = None"
  shows "\<exists>sv' st1 st2. HandleAcceptComplete co ao iocp (Some this) rb on_connect (sv, st) = Inr (sv', st1) \<and>
    delete_overlapped on_disc now IO_ACCEPT st1 = Inr st2 \<and>
    w_calls (cn_world st2) = w_calls (cn_world st) @ [OsClose (se_sock (cn_sess st)), OsClose (se_sock (cn_sess st))]"
proof -
  let ?st1 = "os (OsClose (se_sock (cn_sess st))) st"
  have "HandleAcceptComplete co ao iocp (Some this) rb on_connect (sv, st) = Inr (snd (snd (PostAcceptEx ao this rb sv)), ?st1)"
    using assms(1) by (auto simp: HandleAcceptComplete_def split_beta Let_def)
  moreover have "\<exists>st2. delete_overlapped on_disc now IO_ACCEPT ?st1 = Inr st2 \<and>
      w_calls (cn_world st2) = w_calls (cn_world st) @ [OsClose (se_sock (cn_sess st)), OsClose (se_sock (cn_sess st))]"
    using assms(2-5)
    by (simp add: delete_overlapped_def Session_dtor_def Session_Release_def Session_Set_def Let_def os_def upd_sess_def
        split: option.split)
  ultimately show ?thesis by blast
qed

lemma accept_failure_closes_twice_example:
  "\<exists>sv' st1 st2. HandleAcceptComplete (good_peer\<lparr>co_setsockopt := False\<rparr>) next_accept 2 (Some 1) fresh_ring (\<lambda>u st. st)
      (Server_ctor 0, accepting_conn) = Inr (sv', st1) \<and>
    delete_overlapped (\<lambda>e u a. a) 0 IO_ACCEPT st1 = Inr st2 \<and> w_calls (cn_world st2) = [OsClose 6, OsClose 6]"
  using accept_failure_closes_twice [of "good_peer\<lparr>co_setsockopt := False\<rparr>" accepting_conn next_accept 2 1 fresh_ring
      "\<lambda>u st. st" "Server_ctor 0" "\<lambda>e u a. a" 0]
  by (simp add: INVALID_SOCKET_def)

end
