(* ===== verification/Client.thy ===== *)
theory Client
  imports Server
begin

text \<open>
  The client engine (\<^verbatim>\<open>JunCore/network/Client.h\<close> and \<^verbatim>\<open>.cpp\<close>) and the connect completion
  (\<^verbatim>\<open>IOCPManager.cpp\<close>): connections are started asynchronously, and a thread restarts those that failed
  or were lost. The results of the socket calls are arguments.

  Shown here, on a step relation of completions, losses and reconnect rounds: while posting a connect
  succeeds, the client accounts for its target number of connections at all times; a post that fails
  inside a reconnect round is forgotten.
\<close>

section \<open>State\<close>

datatype cli_event = CvSocket u64 | CvClose u64 | CvConnectEx u64 | CvStart | CvStop | CvDeleteUser addr

record Client =
  cl_target :: c_int
  cl_pendingConnectCount :: c_int
  cl_running :: bool
  cl_reconnectSignal :: nat
  cl_thread_started :: bool
  cl_fnConnectEx :: bool
  cl_initialized :: bool
  cl_events :: "cli_event list"

definition cl_log :: "cli_event \<Rightarrow> Client \<Rightarrow> Client" where
  "cl_log e cl = cl\<lparr>cl_events := cl_events cl @ [e]\<rparr>"

record connect_os =
  xo_socket :: u64
  xo_bind :: bool
  xo_register :: bool
  xo_addr :: bool
  xo_connectex :: wsa_result

section \<open>Operations\<close>

definition Client_ctor :: "c_int \<Rightarrow> Client" where
  "Client_ctor targetConnectionCount =
     \<lparr>cl_target = targetConnectionCount, cl_pendingConnectCount = 0, cl_running = False, cl_reconnectSignal = 0,
      cl_thread_started = False, cl_fnConnectEx = False, cl_initialized = False, cl_events = []\<rparr>"

text \<open>\<open>temp\<close> is the socket made for loading the function pointer, \<open>ok\<close> the result of \<open>WSAIoctl\<close>.\<close>

definition LoadConnectExFunctions :: "u64 \<Rightarrow> bool \<Rightarrow> Client \<Rightarrow> bool \<times> Client" where
  "LoadConnectExFunctions temp ok cl =
     (if temp = INVALID_SOCKET then (False, cl)
      else let cl1 = cl_log (CvSocket temp) cl;
               cl2 = (if ok then cl1\<lparr>cl_fnConnectEx := True\<rparr> else cl1);
               cl3 = cl_log (CvClose temp) cl2
           in if \<not> ok then (False, cl3) else (True, cl3))"

definition PostConnectEx :: "connect_os \<Rightarrow> addr \<Rightarrow> RingBuffer \<Rightarrow> Client \<Rightarrow> bool \<times> Session option \<times> Client" where
  "PostConnectEx xo this rb cl =
     (if \<not> cl_fnConnectEx cl then (False, None, cl)
      else
        let clientSocket = xo_socket xo in
        if clientSocket = INVALID_SOCKET then (False, None, cl)
        else
          let cl1 = cl_log (CvSocket clientSocket) cl in
          if \<not> xo_bind xo then (False, None, cl_log (CvClose clientSocket) cl1)
          else if \<not> xo_register xo then (False, None, cl_log (CvClose clientSocket) cl1)
          else
            let session = (Session_ctor rb)\<lparr>se_sock := clientSocket, se_engine := Some this, se_ios := [IO_CONNECT]\<rparr> in
            if \<not> xo_addr xo
            then (False, None, cl_log (CvClose (se_sock session)) (cl_log (CvClose clientSocket) cl1))
            else
              let cl2 = cl_log (CvConnectEx clientSocket) cl1 in
              if xo_connectex xo = WsaError
              then (False, None, cl_log (CvClose (se_sock session)) (cl_log (CvClose clientSocket) cl2))
              else (True, Some session, cl2))"

text \<open>The loops over \<open>PostConnectEx\<close>, one answer of the system per round; the number of posts that
  succeeded is the first result.\<close>

fun post_many :: "connect_os list \<Rightarrow> addr \<Rightarrow> RingBuffer \<Rightarrow> Client \<Rightarrow> nat \<times> Client" where
  "post_many [] this rb cl = (0, cl)"
| "post_many (xo # xos) this rb cl =
     (let (ok, _, cl1) = PostConnectEx xo this rb cl; (n, cl2) = post_many xos this rb cl1
      in (if ok then Suc n else n, cl2))"

definition StartClient :: "u64 \<Rightarrow> bool \<Rightarrow> (nat \<Rightarrow> connect_os) \<Rightarrow> addr \<Rightarrow> RingBuffer \<Rightarrow> Client \<Rightarrow> nat \<times> Client" where
  "StartClient temp ok xo this rb cl =
     (if \<not> cl_initialized cl then (0, cl)
      else
        let cl1 = cl\<lparr>cl_running := True\<rparr>;
            (loaded, cl2) = LoadConnectExFunctions temp ok cl1
        in if \<not> loaded then (0, cl2\<lparr>cl_running := False\<rparr>)
           else post_many (map xo [0..<nat (sint (cl_target cl2))]) this rb
                  (cl_log CvStart (cl2\<lparr>cl_thread_started := True\<rparr>)))"

definition StopClient :: "Client \<Rightarrow> Client" where
  "StopClient cl =
     (if \<not> cl_running cl then cl
      else
        let cl1 = cl_log CvStop cl;
            cl2 = cl1\<lparr>cl_running := False, cl_reconnectSignal := cl_reconnectSignal cl1 + 1\<rparr>
        in cl2\<lparr>cl_thread_started := False\<rparr>)"

definition TriggerReconnect :: "Client \<Rightarrow> Client" where
  "TriggerReconnect cl =
     cl\<lparr>cl_pendingConnectCount := cl_pendingConnectCount cl + 1, cl_reconnectSignal := cl_reconnectSignal cl + 1\<rparr>"

definition Client_OnUserDisconnect :: "addr \<Rightarrow> Client \<Rightarrow> Client" where
  "Client_OnUserDisconnect user cl =
     cl_log (CvDeleteUser user) (if cl_running cl then TriggerReconnect cl else cl)"

text \<open>One round of the reconnect thread after it has taken the signal; the flag tells whether the
  thread goes on. \<open>xo\<close> answers the posts. The sleep before the posts has no effect on the state.\<close>

definition reconnect_round :: "(nat \<Rightarrow> connect_os) \<Rightarrow> addr \<Rightarrow> RingBuffer \<Rightarrow> Client \<Rightarrow> bool \<times> nat \<times> Client" where
  "reconnect_round xo this rb cl =
     (let cl0 = cl\<lparr>cl_reconnectSignal := cl_reconnectSignal cl - 1\<rparr> in
      if \<not> cl_running cl0 then (False, 0, cl0)
      else
        let pending = cl_pendingConnectCount cl0 in
        if 0 < sint pending
        then let (n, cl1) = post_many (map xo [0..<nat (sint pending)]) this rb cl0
             in (True, n, cl1\<lparr>cl_pendingConnectCount := cl_pendingConnectCount cl1 - pending\<rparr>)
        else (True, 0, cl0))"

text \<open>The connect completion; \<open>client\<close> is the result of the cast, \<open>local\<close> the address \<open>getsockname\<close>
  found.\<close>

definition HandleConnectComplete ::
  "complete_os \<Rightarrow> addr \<Rightarrow> addr option \<Rightarrow> (addr option \<Rightarrow> bool \<Rightarrow> 'a conn \<Rightarrow> 'a conn) \<Rightarrow> Client \<times> 'a conn \<Rightarrow>
   fault + (Client \<times> 'a conn)" where
  "HandleConnectComplete co iocp client on_complete = (\<lambda>(cl, st).
     let connectSocket = se_sock (cn_sess st) in
     case client of
       None \<Rightarrow> Inr (cl, os (OsClose connectSocket) st)
     | Some this \<Rightarrow>
         if co_setsockopt co then
           let (ip, port) = (case co_peer co of Some ap \<Rightarrow> ap | None \<Rightarrow> (0, 0))
           in rbind (Session_Set (co_now co) connectSocket ip port (Some this) iocp (Some (co_user co)) st)
                (\<lambda>st1. Inr (cl, on_complete (Some (co_user co)) True (snd (RecvAsync (co_recv co) st1))))
         else Inr (TriggerReconnect cl, on_complete None False (os (OsClose connectSocket) st)))"

section \<open>Facts\<close>

lemma cl_log_simps [simp]:
  "cl_target (cl_log e cl) = cl_target cl" "cl_pendingConnectCount (cl_log e cl) = cl_pendingConnectCount cl"
  "cl_running (cl_log e cl) = cl_running cl" "cl_reconnectSignal (cl_log e cl) = cl_reconnectSignal cl"
  "cl_fnConnectEx (cl_log e cl) = cl_fnConnectEx cl" "cl_events (cl_log e cl) = cl_events cl @ [e]"
  by (simp_all add: cl_log_def)

lemma PostConnectEx_keeps:
  assumes "PostConnectEx xo this rb cl = (ok, sess, cl')"
  shows "cl_target cl' = cl_target cl" "cl_pendingConnectCount cl' = cl_pendingConnectCount cl" "cl_running cl' = cl_running cl"
    "cl_fnConnectEx cl' = cl_fnConnectEx cl" "cl_reconnectSignal cl' = cl_reconnectSignal cl"
  using assms by (auto simp: PostConnectEx_def Let_def split: if_splits)

lemma post_many_keeps:
  assumes "post_many xos this rb cl = (n, cl')"
  shows "cl_target cl' = cl_target cl \<and> cl_pendingConnectCount cl' = cl_pendingConnectCount cl \<and> cl_running cl' = cl_running cl \<and>
    cl_fnConnectEx cl' = cl_fnConnectEx cl \<and> cl_reconnectSignal cl' = cl_reconnectSignal cl \<and> n \<le> length xos"
  using assms
proof (induction xos arbitrary: cl n cl')
  case (Cons xo xos)
  obtain ok s cl1 where p: "PostConnectEx xo this rb cl = (ok, s, cl1)" by (metis prod.exhaust)
  obtain m cl2 where "post_many xos this rb cl1 = (m, cl2)" by (metis prod.exhaust)
  with Cons.IH [OF this] p Cons.prems PostConnectEx_keeps [OF p] show ?case by (auto split: if_splits)
qed simp

text \<open>The answers with which a post succeeds.\<close>

definition connect_ok :: "connect_os \<Rightarrow> bool" where
  "connect_ok xo \<longleftrightarrow> xo_socket xo \<noteq> INVALID_SOCKET \<and> xo_bind xo \<and> xo_register xo \<and> xo_addr xo \<and> xo_connectex xo \<noteq> WsaError"

lemma PostConnectEx_ok:
  "cl_fnConnectEx cl \<Longrightarrow> fst (PostConnectEx xo this rb cl) \<longleftrightarrow> connect_ok xo"
  by (auto simp: PostConnectEx_def connect_ok_def Let_def)

lemma post_many_count:
  "cl_fnConnectEx cl \<Longrightarrow> fst (post_many xos this rb cl) = length (filter connect_ok xos)"
proof (induction xos arbitrary: cl)
  case (Cons xo xos)
  obtain ok s cl1 where p: "PostConnectEx xo this rb cl = (ok, s, cl1)" by (metis prod.exhaust)
  with PostConnectEx_ok [OF Cons.prems, of xo this rb] PostConnectEx_keeps(4) [OF p] Cons.IH [of cl1] Cons.prems
  show ?case by (auto simp: split_beta)
qed simp

section \<open>Connections over time\<close>

text \<open>The connections of a running client: \<open>connecting\<close> posts are outstanding, \<open>connected\<close> sessions
  live. The posts of a reconnect round all succeed in this relation.\<close>

inductive client_step :: "Client \<times> nat \<times> nat \<Rightarrow> Client \<times> nat \<times> nat \<Rightarrow> bool" where
  connect_done: "client_step (cl, Suc c, d) (cl, c, Suc d)"
| connect_failed: "client_step (cl, Suc c, d) (TriggerReconnect cl, c, d)"
| lost: "cl_running cl \<Longrightarrow> client_step (cl, c, Suc d) (Client_OnUserDisconnect user cl, c, d)"
| round: "reconnect_round xo this rb cl = (True, n, cl') \<Longrightarrow> 0 < cl_reconnectSignal cl \<Longrightarrow> cl_running cl \<Longrightarrow>
    (\<And>i. connect_ok (xo i)) \<Longrightarrow> client_step (cl, c, d) (cl', c + n, d)"

inductive_cases client_stepE: "client_step s s'"

definition accounted :: "Client \<times> nat \<times> nat \<Rightarrow> bool" where
  "accounted = (\<lambda>(cl, c, d). cl_running cl \<and> cl_fnConnectEx cl \<and> 0 \<le> sint (cl_pendingConnectCount cl) \<and>
     int c + int d + sint (cl_pendingConnectCount cl) = sint (cl_target cl))"

lemma accounted_step:
  assumes "client_step s s'" "accounted s" "fst s = cl" "cl_target (fst s') = cl_target cl"
  shows "accounted s'"
  using assms(1)
proof cases
  case (connect_done cl c d)
  then show ?thesis using assms(2) by (simp add: accounted_def)
next
  case (connect_failed cl c d)
  then show ?thesis
    using assms(2) sint_inc [of "cl_pendingConnectCount cl"] sint_lt [of "cl_target cl"]
    by (simp add: accounted_def TriggerReconnect_def)
next
  case (lost cl c d user)
  then show ?thesis
    using assms(2) sint_inc [of "cl_pendingConnectCount cl"] sint_lt [of "cl_target cl"]
    by (simp add: accounted_def TriggerReconnect_def Client_OnUserDisconnect_def)
next
  case (round xo this rb cl n cl' c d)
  let ?cl0 = "cl\<lparr>cl_reconnectSignal := cl_reconnectSignal cl - 1\<rparr>" and ?k = "nat (sint (cl_pendingConnectCount cl))"
  have acc: "accounted (cl, c, d)" using assms(2) round by simp
  obtain m cl1 where p: "post_many (map xo [0..<?k]) this rb ?cl0 = (m, cl1)" by (metis prod.exhaust)
  have "m = ?k"
    using post_many_count [of ?cl0 "map xo [0..<?k]" this rb] p round(6) acc by (simp add: accounted_def o_def)
  with post_many_keeps [OF p] p round acc show ?thesis
    by (auto simp: accounted_def reconnect_round_def Let_def split: if_splits)
qed

lemma reconnect_round_target:
  assumes "reconnect_round xo this rb cl = (b, n, cl')"
  shows "cl_target cl' = cl_target cl"
proof -
  let ?cl0 = "cl\<lparr>cl_reconnectSignal := cl_reconnectSignal cl - 1\<rparr>" and ?k = "nat (sint (cl_pendingConnectCount cl))"
  obtain m cl1 where p: "post_many (map xo [0..<?k]) this rb ?cl0 = (m, cl1)" by (metis prod.exhaust)
  from post_many_keeps [OF p] have "cl_target cl1 = cl_target cl" by simp
  then show ?thesis using assms p by (auto simp: reconnect_round_def Let_def split: if_splits)
qed

lemma client_step_target: "client_step s s' \<Longrightarrow> cl_target (fst s') = cl_target (fst s)"
  by (erule client_stepE) (simp_all add: TriggerReconnect_def Client_OnUserDisconnect_def reconnect_round_target)

section \<open>Properties\<close>


definition example_client :: Client where
  "example_client = (Client_ctor 2)\<lparr>cl_running := True, cl_fnConnectEx := True\<rparr>"


text \<open>A connect that cannot be posted in a reconnect round is forgotten: the round subtracts the
  whole pending count although only the posts with good answers succeeded, so afterwards the client
  accounts for exactly the failed posts fewer.\<close>

lemma failed_posts_are_forgotten:
  assumes "accounted (cl, c, d)" "reconnect_round xo this rb cl = (True, n, cl')"
  shows "int (c + n) + int d + sint (cl_pendingConnectCount cl') =
    sint (cl_target cl) - int (length (filter (\<lambda>i. \<not> connect_ok (xo i)) [0..<nat (sint (cl_pendingConnectCount cl))]))"
proof -
  let ?k = "nat (sint (cl_pendingConnectCount cl))" and ?cl0 = "cl\<lparr>cl_reconnectSignal := cl_reconnectSignal cl - 1\<rparr>"
  have acc: "cl_running cl" "cl_fnConnectEx cl" "0 \<le> sint (cl_pendingConnectCount cl)"
      "int c + int d + sint (cl_pendingConnectCount cl) = sint (cl_target cl)"
    using assms(1) by (simp_all add: accounted_def)
  obtain m cl1 where p: "post_many (map xo [0..<?k]) this rb ?cl0 = (m, cl1)" by (metis prod.exhaust)
  have m: "m = length (filter (\<lambda>i. connect_ok (xo i)) [0..<?k])"
    using post_many_count [of ?cl0 "map xo [0..<?k]" this rb] p acc(2) by (simp add: filter_map o_def)
  have sum: "length (filter (\<lambda>i. connect_ok (xo i)) [0..<?k]) + length (filter (\<lambda>i. \<not> connect_ok (xo i)) [0..<?k]) = ?k"
    using sum_length_filter_compl [of "\<lambda>i. connect_ok (xo i)" "[0..<?k]"] by simp
  show ?thesis
  proof (cases "0 < sint (cl_pendingConnectCount cl)")
    case True
    then have "n = m" "cl_pendingConnectCount cl' = 0"
      using assms(2) p acc(1) post_many_keeps [OF p] by (auto simp: reconnect_round_def Let_def)
    then show ?thesis using m sum acc(3,4) by simp
  next
    case False
    then have "sint (cl_pendingConnectCount cl) = 0" "n = 0" "cl_pendingConnectCount cl' = cl_pendingConnectCount cl"
      using assms(2) acc(1,3) by (auto simp: reconnect_round_def Let_def)
    then show ?thesis using acc(4) by simp
  qed
qed

lemma failed_posts_are_forgotten_example:
  "\<exists>cl'. reconnect_round (\<lambda>_. \<lparr>xo_socket = INVALID_SOCKET, xo_bind = True, xo_register = True, xo_addr = True, xo_connectex = WsaPending\<rparr>)
      1 fresh_ring (TriggerReconnect example_client) = (True, 0, cl') \<and>
    int (1 + 0) + int 0 + sint (cl_pendingConnectCount cl') = 1"
proof -
  let ?xo = "\<lambda>_ :: nat. \<lparr>xo_socket = INVALID_SOCKET, xo_bind = True, xo_register = True, xo_addr = True, xo_connectex = WsaPending\<rparr>"
  let ?cl = "TriggerReconnect example_client"
  have "accounted (?cl, 1, 0)"
    by (simp add: accounted_def TriggerReconnect_def example_client_def Client_ctor_def)
  moreover obtain cl' where "reconnect_round ?xo 1 fresh_ring ?cl = (True, 0, cl')"
    by (simp add: reconnect_round_def TriggerReconnect_def example_client_def Client_ctor_def PostConnectEx_def Let_def)
  ultimately show ?thesis
    using failed_posts_are_forgotten [of ?cl 1 0 ?xo 1 fresh_ring 0 cl']
    by (simp add: connect_ok_def TriggerReconnect_def example_client_def Client_ctor_def)
qed

end
