(* ===== verification/ProtocolBuffer.thy ===== *)
theory ProtocolBuffer
  imports Prelude
begin

text \<open>
  The serialisation buffer (\<^verbatim>\<open>JunCommon/network/ProtocolBuffer.h\<close> and \<^verbatim>\<open>.cpp\<close>): a linear block with a
  write position and a read position, twelve pairs of stream operators for the arithmetic types, two
  string operators and raw block transfer. Positions are offsets from \<open>begin\<close> (integers, because
  \<open>Move_Wp\<close> and \<open>Move_Rp\<close> take any \<open>int\<close>). \<open>float\<close> and \<open>double\<close> values are their bit patterns. A
  \<open>throw;\<close> outside a handler calls \<open>std::terminate\<close>: the value \<^const>\<open>Terminate\<close>.

  Shown here: what is written is read back, in order and with every type; when an operation fails;
  what a negative size does; what \<open>Full\<close> really tests.
\<close>

section \<open>The object and its operations\<close>

definition PB_BUF_SIZE :: c_int where
  "PB_BUF_SIZE = 4000"

record ProtocolBuffer =
  pb_end :: int
  pb_buf_size :: c_int
  pb_write_pos :: int
  pb_read_pos :: int
  pb_block :: "byte list"

text \<open>The constructor; \<open>m\<close> is the block \<open>malloc\<close> returned, \<open>None\<close> for a null pointer.\<close>

definition ProtocolBuffer_ctor :: "c_int \<Rightarrow> byte list option \<Rightarrow> ProtocolBuffer" where
  "ProtocolBuffer_ctor sz m =
     \<lparr>pb_end = sint sz, pb_buf_size = sz, pb_write_pos = 0, pb_read_pos = 0,
      pb_block = (case m of None \<Rightarrow> [] | Some bs \<Rightarrow> bs)\<rparr>"

definition pb_Clear :: "ProtocolBuffer \<Rightarrow> ProtocolBuffer" where
  "pb_Clear pb = pb\<lparr>pb_write_pos := 0, pb_read_pos := 0\<rparr>"

definition pb_Empty :: "ProtocolBuffer \<Rightarrow> bool" where
  "pb_Empty pb \<longleftrightarrow> pb_write_pos pb \<le> pb_read_pos pb"

definition pb_Full :: "ProtocolBuffer \<Rightarrow> bool" where
  "pb_Full pb \<longleftrightarrow> pb_write_pos pb + 1 = pb_end pb"

definition Get_FreeSize :: "ProtocolBuffer \<Rightarrow> c_int" where
  "Get_FreeSize pb = of_int (pb_end pb - pb_write_pos pb)"

definition Get_UseSize :: "ProtocolBuffer \<Rightarrow> c_int" where
  "Get_UseSize pb = of_int (pb_write_pos pb - pb_read_pos pb)"

definition Get_BufSize :: "ProtocolBuffer \<Rightarrow> c_int" where
  "Get_BufSize pb = pb_buf_size pb"

definition Get_writePos :: "ProtocolBuffer \<Rightarrow> int" where
  "Get_writePos pb = pb_write_pos pb"

definition Get_readPos :: "ProtocolBuffer \<Rightarrow> int" where
  "Get_readPos pb = pb_read_pos pb"

definition Move_Wp :: "c_int \<Rightarrow> ProtocolBuffer \<Rightarrow> ProtocolBuffer" where
  "Move_Wp sz pb = pb\<lparr>pb_write_pos := pb_write_pos pb + sint sz\<rparr>"

definition Move_Rp :: "c_int \<Rightarrow> ProtocolBuffer \<Rightarrow> ProtocolBuffer" where
  "Move_Rp sz pb = pb\<lparr>pb_read_pos := pb_read_pos pb + sint sz\<rparr>"

text \<open>\<open>memmove\<close> into and out of the block at an offset.\<close>

definition pb_store :: "int \<Rightarrow> byte list \<Rightarrow> ProtocolBuffer \<Rightarrow> fault + ProtocolBuffer" where
  "pb_store p bs pb =
     (if 0 \<le> p \<and> p + int (length bs) \<le> int (length (pb_block pb))
      then Inr (pb\<lparr>pb_block := overwrite (pb_block pb) (nat p) bs\<rparr>) else Inl WriteOverrun)"

definition pb_load :: "int \<Rightarrow> nat \<Rightarrow> ProtocolBuffer \<Rightarrow> fault + byte list" where
  "pb_load p n pb =
     (if 0 \<le> p \<and> p + int n \<le> int (length (pb_block pb))
      then Inr (slice (pb_block pb) (nat p) n) else Inl ReadOverrun)"

text \<open>The common body of the stream operators: \<open>bs\<close> are the bytes of the operand.\<close>

definition put_value :: "byte list \<Rightarrow> ProtocolBuffer \<Rightarrow> fault + ProtocolBuffer" where
  "put_value bs pb =
     (if pb_write_pos pb + int (length bs) \<le> pb_end pb
      then rbind (pb_store (pb_write_pos pb) bs pb)
             (\<lambda>pb'. Inr (pb'\<lparr>pb_write_pos := pb_write_pos pb' + int (length bs)\<rparr>))
      else Inl Terminate)"

definition get_value :: "nat \<Rightarrow> ProtocolBuffer \<Rightarrow> fault + (byte list \<times> ProtocolBuffer)" where
  "get_value n pb =
     (if pb_read_pos pb + int n \<le> pb_write_pos pb
      then rbind (pb_load (pb_read_pos pb) n pb)
             (\<lambda>bs. Inr (bs, pb\<lparr>pb_read_pos := pb_read_pos pb + int n\<rparr>))
      else Inl Terminate)"

definition put_char :: "byte \<Rightarrow> ProtocolBuffer \<Rightarrow> fault + ProtocolBuffer" where
  "put_char d = put_value (bytes_of_word d)"

definition put_uchar :: "byte \<Rightarrow> ProtocolBuffer \<Rightarrow> fault + ProtocolBuffer" where
  "put_uchar d = put_value (bytes_of_word d)"

definition put_int :: "c_int \<Rightarrow> ProtocolBuffer \<Rightarrow> fault + ProtocolBuffer" where
  "put_int d = put_value (bytes_of_word d)"

definition put_uint :: "u32 \<Rightarrow> ProtocolBuffer \<Rightarrow> fault + ProtocolBuffer" where
  "put_uint d = put_value (bytes_of_word d)"

definition put_long :: "u32 \<Rightarrow> ProtocolBuffer \<Rightarrow> fault + ProtocolBuffer" where
  "put_long d = put_value (bytes_of_word d)"

definition put_ulong :: "u32 \<Rightarrow> ProtocolBuffer \<Rightarrow> fault + ProtocolBuffer" where
  "put_ulong d = put_value (bytes_of_word d)"

definition put_short :: "u16 \<Rightarrow> ProtocolBuffer \<Rightarrow> fault + ProtocolBuffer" where
  "put_short d = put_value (bytes_of_word d)"

definition put_ushort :: "u16 \<Rightarrow> ProtocolBuffer \<Rightarrow> fault + ProtocolBuffer" where
  "put_ushort d = put_value (bytes_of_word d)"

definition put_float :: "u32 \<Rightarrow> ProtocolBuffer \<Rightarrow> fault + ProtocolBuffer" where
  "put_float d = put_value (bytes_of_word d)"

definition put_double :: "u64 \<Rightarrow> ProtocolBuffer \<Rightarrow> fault + ProtocolBuffer" where
  "put_double d = put_value (bytes_of_word d)"

definition put_llong :: "u64 \<Rightarrow> ProtocolBuffer \<Rightarrow> fault + ProtocolBuffer" where
  "put_llong d = put_value (bytes_of_word d)"

definition put_ullong :: "u64 \<Rightarrow> ProtocolBuffer \<Rightarrow> fault + ProtocolBuffer" where
  "put_ullong d = put_value (bytes_of_word d)"

text \<open>The size argument is an \<open>int\<close>: the pointer comparison uses its value, \<open>memmove\<close> its conversion
  to \<open>size_t\<close>. \<open>src\<close> is the memory readable from the source pointer on.\<close>

definition Put_Data :: "byte list \<Rightarrow> c_int \<Rightarrow> ProtocolBuffer \<Rightarrow> fault + ProtocolBuffer" where
  "Put_Data src sz pb =
     (if pb_write_pos pb + sint sz \<le> pb_end pb
      then let n = unat (scast sz :: u64)
           in if length src < n then Inl ReadOverrun
              else rbind (pb_store (pb_write_pos pb) (take n src) pb)
                     (\<lambda>pb'. Inr (pb'\<lparr>pb_write_pos := pb_write_pos pb' + sint sz\<rparr>))
      else Inl Terminate)"

definition Get_Data :: "c_int \<Rightarrow> ProtocolBuffer \<Rightarrow> fault + (byte list \<times> ProtocolBuffer)" where
  "Get_Data sz pb =
     (if pb_read_pos pb + sint sz \<le> pb_write_pos pb
      then rbind (pb_load (pb_read_pos pb) (unat (scast sz :: u64)) pb)
             (\<lambda>bs. Inr (bs, pb\<lparr>pb_read_pos := pb_read_pos pb + sint sz\<rparr>))
      else Inl Terminate)"

text \<open>\<open>strlen\<close> and \<open>wcslen\<close> on the memory readable from the pointer on.\<close>

fun c_strlen :: "'a::zero list \<Rightarrow> fault + nat" where
  "c_strlen [] = Inl ReadOverrun"
| "c_strlen (c # cs) = (if c = 0 then Inr 0 else rbind (c_strlen cs) (\<lambda>n. Inr (Suc n)))"

definition put_cstr :: "byte list \<Rightarrow> ProtocolBuffer \<Rightarrow> fault + ProtocolBuffer" where
  "put_cstr str pb = rbind (c_strlen str) (\<lambda>n. Put_Data str (ucast (of_nat n :: u64)) pb)"

definition put_wstr :: "u16 list \<Rightarrow> ProtocolBuffer \<Rightarrow> fault + ProtocolBuffer" where
  "put_wstr str pb =
     rbind (c_strlen str)
       (\<lambda>n. Put_Data (concat (map bytes_of_word str)) (ucast (of_nat n * 2 :: u64)) pb)"

text \<open>The outstream operators deliver the operand with the buffer.\<close>

definition get_word :: "ProtocolBuffer \<Rightarrow> fault + ('a::len word \<times> ProtocolBuffer)" where
  "get_word pb = rbind (get_value (LENGTH('a) div 8) pb) (\<lambda>(bs, pb'). Inr (word_of_bytes bs, pb'))"

definition get_char :: "ProtocolBuffer \<Rightarrow> fault + (byte \<times> ProtocolBuffer)" where
  "get_char pb = get_word pb"

definition get_uchar :: "ProtocolBuffer \<Rightarrow> fault + (byte \<times> ProtocolBuffer)" where
  "get_uchar pb = get_word pb"

definition get_int :: "ProtocolBuffer \<Rightarrow> fault + (c_int \<times> ProtocolBuffer)" where
  "get_int pb = get_word pb"

definition get_uint :: "ProtocolBuffer \<Rightarrow> fault + (u32 \<times> ProtocolBuffer)" where
  "get_uint pb = get_word pb"

definition get_long :: "ProtocolBuffer \<Rightarrow> fault + (u32 \<times> ProtocolBuffer)" where
  "get_long pb = get_word pb"

definition get_ulong :: "ProtocolBuffer \<Rightarrow> fault + (u32 \<times> ProtocolBuffer)" where
  "get_ulong pb = get_word pb"

definition get_short :: "ProtocolBuffer \<Rightarrow> fault + (u16 \<times> ProtocolBuffer)" where
  "get_short pb = get_word pb"

definition get_ushort :: "ProtocolBuffer \<Rightarrow> fault + (u16 \<times> ProtocolBuffer)" where
  "get_ushort pb = get_word pb"

definition get_float :: "ProtocolBuffer \<Rightarrow> fault + (u32 \<times> ProtocolBuffer)" where
  "get_float pb = get_word pb"

definition get_double :: "ProtocolBuffer \<Rightarrow> fault + (u64 \<times> ProtocolBuffer)" where
  "get_double pb = get_word pb"

definition get_llong :: "ProtocolBuffer \<Rightarrow> fault + (u64 \<times> ProtocolBuffer)" where
  "get_llong pb = get_word pb"

definition get_ullong :: "ProtocolBuffer \<Rightarrow> fault + (u64 \<times> ProtocolBuffer)" where
  "get_ullong pb = get_word pb"

section \<open>The contract: a bounded byte stream\<close>

text \<open>A stream of bytes with a fixed amount of room: a write appends or is refused, a read takes the
  oldest bytes or is refused. Clients write and read sequences of chunks.\<close>

fun put_all :: "(byte list \<Rightarrow> 's \<Rightarrow> fault + 's) \<Rightarrow> byte list list \<Rightarrow> 's \<Rightarrow> fault + 's" where
  "put_all put [] s = Inr s"
| "put_all put (bs # bss) s = rbind (put bs s) (put_all put bss)"

fun get_all :: "(nat \<Rightarrow> 's \<Rightarrow> fault + (byte list \<times> 's)) \<Rightarrow> nat list \<Rightarrow> 's \<Rightarrow> fault + (byte list list \<times> 's)" where
  "get_all get [] s = Inr ([], s)"
| "get_all get (n # ns) s =
     rbind (get n s) (\<lambda>(bs, s1). rbind (get_all get ns s1) (\<lambda>(bss, s2). Inr (bs # bss, s2)))"

locale byte_stream =
  fixes invar :: "'s \<Rightarrow> bool"
    and cont :: "'s \<Rightarrow> byte list"
    and room :: "'s \<Rightarrow> nat"
    and put :: "byte list \<Rightarrow> 's \<Rightarrow> fault + 's"
    and get :: "nat \<Rightarrow> 's \<Rightarrow> fault + (byte list \<times> 's)"
  assumes put_fits: "invar s \<Longrightarrow> length bs \<le> room s \<Longrightarrow>
      \<exists>s'. put bs s = Inr s' \<and> invar s' \<and> cont s' = cont s @ bs \<and> room s' = room s - length bs"
    and put_refused: "invar s \<Longrightarrow> room s < length bs \<Longrightarrow> put bs s = Inl Terminate"
    and get_fits: "invar s \<Longrightarrow> n \<le> length (cont s) \<Longrightarrow>
      \<exists>s'. get n s = Inr (take n (cont s), s') \<and> invar s' \<and> cont s' = drop n (cont s) \<and> room s' = room s"
    and get_refused: "invar s \<Longrightarrow> length (cont s) < n \<Longrightarrow> get n s = Inl Terminate"
begin

lemma put_all_appends:
  assumes "invar s" "length (concat bss) \<le> room s"
  shows "\<exists>s'. put_all put bss s = Inr s' \<and> invar s' \<and> cont s' = cont s @ concat bss \<and>
    room s' = room s - length (concat bss)"
  using assms
proof (induction bss arbitrary: s)
  case Nil
  then show ?case by simp
next
  case (Cons bs bss)
  from put_fits [OF Cons.prems(1), of bs] Cons.prems(2) obtain s1 where s1: "put bs s = Inr s1" "invar s1"
      "cont s1 = cont s @ bs" "room s1 = room s - length bs" by auto
  from Cons.IH [OF s1(2)] Cons.prems(2) s1 show ?case by auto
qed

lemma get_all_takes:
  assumes "invar s" "cont s = concat bss @ rest"
  shows "\<exists>s'. get_all get (map length bss) s = Inr (bss, s') \<and> invar s' \<and> cont s' = rest"
  using assms
proof (induction bss arbitrary: s)
  case Nil
  then show ?case by simp
next
  case (Cons bs bss)
  from get_fits [OF Cons.prems(1), of "length bs"] Cons.prems(2) obtain s1 where
      s1: "get (length bs) s = Inr (bs, s1)" "invar s1" "cont s1 = concat bss @ rest" by auto
  from Cons.IH [OF s1(2,3)] s1 show ?case by auto
qed

lemma put_succeeds_iff: "invar s \<Longrightarrow> (\<exists>s'. put bs s = Inr s') \<longleftrightarrow> length bs \<le> room s"
  using put_fits [of s bs] put_refused [of s bs] by (cases "length bs \<le> room s") auto

end

definition PB_inv :: "ProtocolBuffer \<Rightarrow> bool" where
  "PB_inv pb \<longleftrightarrow> 0 \<le> pb_read_pos pb \<and> pb_read_pos pb \<le> pb_write_pos pb \<and> pb_write_pos pb \<le> pb_end pb \<and>
     pb_end pb = int (length (pb_block pb)) \<and> pb_end pb = sint (pb_buf_size pb)"

definition pb_contents :: "ProtocolBuffer \<Rightarrow> byte list" where
  "pb_contents pb = slice (pb_block pb) (nat (pb_read_pos pb)) (nat (pb_write_pos pb - pb_read_pos pb))"

definition pb_room :: "ProtocolBuffer \<Rightarrow> nat" where
  "pb_room pb = nat (pb_end pb - pb_write_pos pb)"

lemma length_pb_contents: "PB_inv pb \<Longrightarrow> length (pb_contents pb) = nat (pb_write_pos pb - pb_read_pos pb)"
  by (auto simp: PB_inv_def pb_contents_def intro!: length_slice)

lemma slice_overwrite_extend:
  assumes "r \<le> w" "w + length bs \<le> length xs"
  shows "slice (overwrite xs w bs) r (w - r + length bs) = slice xs r (w - r) @ bs"
  using assms by (simp add: slice_def overwrite_def take_drop)

lemma drop_slice: "k \<le> n \<Longrightarrow> drop k (slice xs i n) = slice xs (i + k) (n - k)"
  by (simp add: slice_def drop_take add.commute)

lemma take_slice: "k \<le> n \<Longrightarrow> take k (slice xs i n) = slice xs i k"
  by (simp add: slice_def)

lemma pb_store_at_end:
  assumes "PB_inv pb" "length bs \<le> pb_room pb"
  defines "pb' \<equiv> pb\<lparr>pb_block := overwrite (pb_block pb) (nat (pb_write_pos pb)) bs,
      pb_write_pos := pb_write_pos pb + int (length bs)\<rparr>"
  shows "PB_inv pb'" "pb_contents pb' = pb_contents pb @ bs" "pb_room pb' = pb_room pb - length bs"
    and "pb_store (pb_write_pos pb) bs pb = Inr (pb\<lparr>pb_block := overwrite (pb_block pb) (nat (pb_write_pos pb)) bs\<rparr>)"
proof -
  have fit: "nat (pb_write_pos pb) + length bs \<le> length (pb_block pb)"
    using assms(1,2) by (auto simp: PB_inv_def pb_room_def)
  show "PB_inv pb'"
    using assms(1,2) fit by (auto simp: PB_inv_def pb_room_def pb'_def)
  show "pb_room pb' = pb_room pb - length bs"
    using assms(1) by (auto simp: PB_inv_def pb_room_def pb'_def)
  show "pb_store (pb_write_pos pb) bs pb = Inr (pb\<lparr>pb_block := overwrite (pb_block pb) (nat (pb_write_pos pb)) bs\<rparr>)"
    using assms(1) fit by (auto simp: PB_inv_def pb_store_def)
  have "nat (pb_write_pos pb + int (length bs) - pb_read_pos pb) =
      nat (pb_write_pos pb) - nat (pb_read_pos pb) + length bs"
    and "nat (pb_write_pos pb - pb_read_pos pb) = nat (pb_write_pos pb) - nat (pb_read_pos pb)"
    using assms(1) by (auto simp: PB_inv_def)
  note ends = this
  have "nat (pb_read_pos pb) \<le> nat (pb_write_pos pb)"
    using assms(1) by (auto simp: PB_inv_def)
  moreover have "pb_block pb' = overwrite (pb_block pb) (nat (pb_write_pos pb)) bs"
    "pb_read_pos pb' = pb_read_pos pb" "pb_write_pos pb' = pb_write_pos pb + int (length bs)"
    by (simp_all add: pb'_def)
  ultimately show "pb_contents pb' = pb_contents pb @ bs"
    using slice_overwrite_extend [OF _ fit] by (simp only: pb_contents_def ends)
qed

lemma pb_load_at_front:
  assumes "PB_inv pb" "n \<le> length (pb_contents pb)"
  defines "pb' \<equiv> pb\<lparr>pb_read_pos := pb_read_pos pb + int n\<rparr>"
  shows "PB_inv pb'" "pb_contents pb' = drop n (pb_contents pb)" "pb_room pb' = pb_room pb"
    and "pb_load (pb_read_pos pb) n pb = Inr (take n (pb_contents pb))"
proof -
  have n: "int n \<le> pb_write_pos pb - pb_read_pos pb"
    using assms(1,2) by (auto simp: length_pb_contents PB_inv_def)
  then show "PB_inv pb'" "pb_room pb' = pb_room pb"
    using assms(1) by (auto simp: PB_inv_def pb'_def pb_room_def)
  show "pb_load (pb_read_pos pb) n pb = Inr (take n (pb_contents pb))"
    using assms(1) n by (auto simp: PB_inv_def pb_load_def pb_contents_def take_slice)
  have "nat (pb_read_pos pb + int n) = nat (pb_read_pos pb) + n"
    and "nat (pb_write_pos pb - (pb_read_pos pb + int n)) = nat (pb_write_pos pb - pb_read_pos pb) - n"
    using assms(1) n by (auto simp: PB_inv_def)
  then show "pb_contents pb' = drop n (pb_contents pb)"
    using n by (simp add: pb_contents_def pb'_def drop_slice)
qed

lemma put_value_fits:
  assumes "PB_inv pb" "length bs \<le> pb_room pb"
  shows "\<exists>pb'. put_value bs pb = Inr pb' \<and> PB_inv pb' \<and> pb_contents pb' = pb_contents pb @ bs \<and>
    pb_room pb' = pb_room pb - length bs"
proof -
  have "pb_write_pos pb + int (length bs) \<le> pb_end pb"
    using assms by (auto simp: PB_inv_def pb_room_def)
  then have "put_value bs pb = Inr (pb\<lparr>pb_block := overwrite (pb_block pb) (nat (pb_write_pos pb)) bs,
      pb_write_pos := pb_write_pos pb + int (length bs)\<rparr>)"
    by (simp add: put_value_def pb_store_at_end(4) [OF assms])
  with pb_store_at_end(1-3) [OF assms] show ?thesis by blast
qed

lemma put_value_refused: "PB_inv pb \<Longrightarrow> pb_room pb < length bs \<Longrightarrow> put_value bs pb = Inl Terminate"
  by (auto simp: put_value_def pb_room_def PB_inv_def)

lemma get_value_fits:
  assumes "PB_inv pb" "n \<le> length (pb_contents pb)"
  shows "\<exists>pb'. get_value n pb = Inr (take n (pb_contents pb), pb') \<and> PB_inv pb' \<and>
    pb_contents pb' = drop n (pb_contents pb) \<and> pb_room pb' = pb_room pb"
proof -
  have "pb_read_pos pb + int n \<le> pb_write_pos pb"
    using assms(2) length_pb_contents [OF assms(1)] assms(1) unfolding PB_inv_def by linarith
  then have "get_value n pb = Inr (take n (pb_contents pb), pb\<lparr>pb_read_pos := pb_read_pos pb + int n\<rparr>)"
    by (simp add: get_value_def pb_load_at_front(4) [OF assms])
  with pb_load_at_front(1-3) [OF assms] show ?thesis by blast
qed

lemma get_value_refused:
  "PB_inv pb \<Longrightarrow> length (pb_contents pb) < n \<Longrightarrow> get_value n pb = Inl Terminate"
  using length_pb_contents [of pb] by (auto simp: get_value_def)

interpretation pbs: byte_stream PB_inv pb_contents pb_room put_value get_value
  by unfold_locales
    (fact put_value_fits put_value_refused get_value_fits get_value_refused)+

section \<open>Typed transfer\<close>

text \<open>An operand of a stream operator with its C++ type, and the operator that the type selects.\<close>

datatype pb_type = TChar | TUChar | TInt | TUInt | TLong | TULong | TShort | TUShort
  | TFloat | TDouble | TLLong | TULLong

datatype pb_value = VChar byte | VUChar byte | VInt c_int | VUInt u32 | VLong u32 | VULong u32
  | VShort u16 | VUShort u16 | VFloat u32 | VDouble u64 | VLLong u64 | VULLong u64

fun pb_type_of :: "pb_value \<Rightarrow> pb_type" where
  "pb_type_of (VChar _) = TChar" | "pb_type_of (VUChar _) = TUChar"
| "pb_type_of (VInt _) = TInt" | "pb_type_of (VUInt _) = TUInt"
| "pb_type_of (VLong _) = TLong" | "pb_type_of (VULong _) = TULong"
| "pb_type_of (VShort _) = TShort" | "pb_type_of (VUShort _) = TUShort"
| "pb_type_of (VFloat _) = TFloat" | "pb_type_of (VDouble _) = TDouble"
| "pb_type_of (VLLong _) = TLLong" | "pb_type_of (VULLong _) = TULLong"

fun pb_sizeof :: "pb_type \<Rightarrow> nat" where
  "pb_sizeof TChar = 1" | "pb_sizeof TUChar = 1" | "pb_sizeof TInt = 4" | "pb_sizeof TUInt = 4"
| "pb_sizeof TLong = 4" | "pb_sizeof TULong = 4" | "pb_sizeof TShort = 2" | "pb_sizeof TUShort = 2"
| "pb_sizeof TFloat = 4" | "pb_sizeof TDouble = 8" | "pb_sizeof TLLong = 8" | "pb_sizeof TULLong = 8"

fun put_typed :: "pb_value \<Rightarrow> ProtocolBuffer \<Rightarrow> fault + ProtocolBuffer" where
  "put_typed (VChar d) = put_char d" | "put_typed (VUChar d) = put_uchar d"
| "put_typed (VInt d) = put_int d" | "put_typed (VUInt d) = put_uint d"
| "put_typed (VLong d) = put_long d" | "put_typed (VULong d) = put_ulong d"
| "put_typed (VShort d) = put_short d" | "put_typed (VUShort d) = put_ushort d"
| "put_typed (VFloat d) = put_float d" | "put_typed (VDouble d) = put_double d"
| "put_typed (VLLong d) = put_llong d" | "put_typed (VULLong d) = put_ullong d"

fun get_typed :: "pb_type \<Rightarrow> ProtocolBuffer \<Rightarrow> fault + (pb_value \<times> ProtocolBuffer)" where
  "get_typed TChar pb = rbind (get_char pb) (\<lambda>(d, p). Inr (VChar d, p))"
| "get_typed TUChar pb = rbind (get_uchar pb) (\<lambda>(d, p). Inr (VUChar d, p))"
| "get_typed TInt pb = rbind (get_int pb) (\<lambda>(d, p). Inr (VInt d, p))"
| "get_typed TUInt pb = rbind (get_uint pb) (\<lambda>(d, p). Inr (VUInt d, p))"
| "get_typed TLong pb = rbind (get_long pb) (\<lambda>(d, p). Inr (VLong d, p))"
| "get_typed TULong pb = rbind (get_ulong pb) (\<lambda>(d, p). Inr (VULong d, p))"
| "get_typed TShort pb = rbind (get_short pb) (\<lambda>(d, p). Inr (VShort d, p))"
| "get_typed TUShort pb = rbind (get_ushort pb) (\<lambda>(d, p). Inr (VUShort d, p))"
| "get_typed TFloat pb = rbind (get_float pb) (\<lambda>(d, p). Inr (VFloat d, p))"
| "get_typed TDouble pb = rbind (get_double pb) (\<lambda>(d, p). Inr (VDouble d, p))"
| "get_typed TLLong pb = rbind (get_llong pb) (\<lambda>(d, p). Inr (VLLong d, p))"
| "get_typed TULLong pb = rbind (get_ullong pb) (\<lambda>(d, p). Inr (VULLong d, p))"

fun put_seq :: "pb_value list \<Rightarrow> ProtocolBuffer \<Rightarrow> fault + ProtocolBuffer" where
  "put_seq [] pb = Inr pb"
| "put_seq (v # vs) pb = rbind (put_typed v pb) (put_seq vs)"

fun get_seq :: "pb_type list \<Rightarrow> ProtocolBuffer \<Rightarrow> fault + (pb_value list \<times> ProtocolBuffer)" where
  "get_seq [] pb = Inr ([], pb)"
| "get_seq (t # ts) pb =
     rbind (get_typed t pb) (\<lambda>(v, p1). rbind (get_seq ts p1) (\<lambda>(vs, p2). Inr (v # vs, p2)))"

fun pb_bytes :: "pb_value \<Rightarrow> byte list" where
  "pb_bytes (VChar d) = bytes_of_word d" | "pb_bytes (VUChar d) = bytes_of_word d"
| "pb_bytes (VInt d) = bytes_of_word d" | "pb_bytes (VUInt d) = bytes_of_word d"
| "pb_bytes (VLong d) = bytes_of_word d" | "pb_bytes (VULong d) = bytes_of_word d"
| "pb_bytes (VShort d) = bytes_of_word d" | "pb_bytes (VUShort d) = bytes_of_word d"
| "pb_bytes (VFloat d) = bytes_of_word d" | "pb_bytes (VDouble d) = bytes_of_word d"
| "pb_bytes (VLLong d) = bytes_of_word d" | "pb_bytes (VULLong d) = bytes_of_word d"

lemmas put_ops = put_char_def put_uchar_def put_int_def put_uint_def put_long_def put_ulong_def
  put_short_def put_ushort_def put_float_def put_double_def put_llong_def put_ullong_def

lemmas get_ops = get_char_def get_uchar_def get_int_def get_uint_def get_long_def get_ulong_def
  get_short_def get_ushort_def get_float_def get_double_def get_llong_def get_ullong_def

lemma length_pb_bytes [simp]: "length (pb_bytes v) = pb_sizeof (pb_type_of v)"
  by (cases v) simp_all

lemma put_typed_value: "put_typed v = put_value (pb_bytes v)"
  by (cases v) (simp_all add: put_ops)

lemma get_typed_value:
  "get_value (pb_sizeof (pb_type_of v)) pb = Inr (pb_bytes v, pb') \<Longrightarrow>
   get_typed (pb_type_of v) pb = Inr (v, pb')"
  by (cases v) (simp_all add: get_ops get_word_def le_simps)

lemma get_typed_refused:
  "get_value (pb_sizeof t) pb = Inl e \<Longrightarrow> get_typed t pb = Inl e"
  by (cases t) (simp_all add: get_ops get_word_def)

lemma put_seq_all: "put_seq vs pb = put_all put_value (map pb_bytes vs) pb"
  by (induction vs arbitrary: pb) (simp_all add: put_typed_value rbind_def split: sum.split)

lemma get_seq_all:
  "get_all get_value (map (\<lambda>v. pb_sizeof (pb_type_of v)) vs) pb = Inr (map pb_bytes vs, pb') \<Longrightarrow>
   get_seq (map pb_type_of vs) pb = Inr (vs, pb')"
proof (induction vs arbitrary: pb)
  case Nil
  then show ?case by simp
next
  case (Cons v vs)
  then obtain p1 where "get_value (pb_sizeof (pb_type_of v)) pb = Inr (pb_bytes v, p1)"
      and "get_all get_value (map (\<lambda>v. pb_sizeof (pb_type_of v)) vs) p1 = Inr (map pb_bytes vs, pb')"
    by (auto simp: rbind_eq_Inr)
  then show ?case
    using Cons.IH get_typed_value by fastforce
qed

lemma pb_room_bound: "PB_inv pb \<Longrightarrow> pb_room pb < 2 ^ 31"
  using sint_lt [of "pb_buf_size pb"] by (auto simp: PB_inv_def pb_room_def)

lemma pb_free_of_nat: "PB_inv pb \<Longrightarrow> Get_FreeSize pb = of_nat (pb_room pb)"
  unfolding Get_FreeSize_def pb_room_def by (subst of_nat_nat) (auto simp: PB_inv_def)

lemma pb_free_unat: "PB_inv pb \<Longrightarrow> sint (Get_FreeSize pb) = int (pb_room pb)"
  using pb_room_bound [of pb] by (simp add: pb_free_of_nat signed_of_nat signed_take_bit_int_eq_self)

lemma pb_ctor_inv:
  assumes "0 \<le> sint sz" "length m = nat (sint sz)"
  shows "PB_inv (ProtocolBuffer_ctor sz (Some m))" "pb_contents (ProtocolBuffer_ctor sz (Some m)) = []"
    "pb_room (ProtocolBuffer_ctor sz (Some m)) = length m"
  using assms by (simp_all add: ProtocolBuffer_ctor_def PB_inv_def pb_contents_def pb_room_def)

section \<open>Properties\<close>

text \<open>C21: Typed round trip: on a consistent buffer with nothing unread, writing any sequence of values
  of the twelve operand types that fits and then reading with the same sequence of types succeeds,
  returns exactly those values in that order, and leaves nothing unread.\<close>

theorem protocol_buffer_roundtrip:
  assumes "PB_inv pb" "pb_contents pb = []"
    and "int (\<Sum>v\<leftarrow>vs. pb_sizeof (pb_type_of v)) \<le> sint (Get_FreeSize pb)"
  shows "\<exists>pb1 pb2. put_seq vs pb = Inr pb1 \<and> get_seq (map pb_type_of vs) pb1 = Inr (vs, pb2) \<and>
    PB_inv pb2 \<and> pb_contents pb2 = []"
proof -
  have "length (concat (map pb_bytes vs)) \<le> pb_room pb"
    using assms(3) by (simp add: pb_free_unat [OF assms(1)] length_concat o_def)
  from pbs.put_all_appends [OF assms(1) this] obtain pb1 where pb1: "put_seq vs pb = Inr pb1" "PB_inv pb1"
      "pb_contents pb1 = concat (map pb_bytes vs) @ []"
    using assms(2) by (auto simp: put_seq_all)
  from pbs.get_all_takes [OF pb1(2,3)] pb1(1) show ?thesis
    using get_seq_all by (fastforce simp: o_def)
qed

definition fresh_pb :: ProtocolBuffer where
  "fresh_pb = ProtocolBuffer_ctor 16 (Some (replicate 16 0))"

lemma fresh_pb_inv: "PB_inv fresh_pb" "pb_contents fresh_pb = []" "sint (Get_FreeSize fresh_pb) = 16"
  using pb_ctor_inv [of 16 "replicate 16 0"] pb_free_unat [of fresh_pb]
  by (simp_all add: fresh_pb_def)

theorem protocol_buffer_roundtrip_witness:
  "\<exists>pb1 pb2. put_seq [VInt 5, VDouble 9, VChar 1] fresh_pb = Inr pb1 \<and>
    get_seq [TInt, TDouble, TChar] pb1 = Inr ([VInt 5, VDouble 9, VChar 1], pb2) \<and>
    PB_inv pb2 \<and> pb_contents pb2 = []"
  using protocol_buffer_roundtrip [OF fresh_pb_inv(1,2), of "[VInt 5, VDouble 9, VChar 1]"] fresh_pb_inv(3)
  by simp

text \<open>A stream operator never corrupts memory: on a consistent buffer an instream operator either
  appends exactly the operand's bytes, which happens exactly when they fit in the free space, or
  terminates the program; an outstream operator either removes exactly the operand's size of unread
  bytes, which happens exactly when they are there, or terminates the program.\<close>

lemma stream_operators_exact:
  assumes "PB_inv pb"
  shows "(if int (pb_sizeof (pb_type_of v)) \<le> sint (Get_FreeSize pb)
          then \<exists>pb'. put_typed v pb = Inr pb' \<and> PB_inv pb' \<and> pb_contents pb' = pb_contents pb @ pb_bytes v
          else put_typed v pb = Inl Terminate) \<and>
    (if pb_sizeof t \<le> length (pb_contents pb)
     then \<exists>v' pb'. get_typed t pb = Inr (v', pb') \<and> PB_inv pb' \<and> pb_contents pb' = drop (pb_sizeof t) (pb_contents pb)
     else get_typed t pb = Inl Terminate)"
proof (intro conjI)
  show "if int (pb_sizeof (pb_type_of v)) \<le> sint (Get_FreeSize pb)
      then \<exists>pb'. put_typed v pb = Inr pb' \<and> PB_inv pb' \<and> pb_contents pb' = pb_contents pb @ pb_bytes v
      else put_typed v pb = Inl Terminate"
    using pbs.put_fits [OF assms, of "pb_bytes v"] pbs.put_refused [OF assms, of "pb_bytes v"]
    by (auto simp: pb_free_unat [OF assms] put_typed_value)
  show "if pb_sizeof t \<le> length (pb_contents pb)
     then \<exists>v' pb'. get_typed t pb = Inr (v', pb') \<and> PB_inv pb' \<and> pb_contents pb' = drop (pb_sizeof t) (pb_contents pb)
     else get_typed t pb = Inl Terminate"
  proof (cases "pb_sizeof t \<le> length (pb_contents pb)")
    case True
    from pbs.get_fits [OF assms True] obtain pb' where "get_value (pb_sizeof t) pb =
        Inr (take (pb_sizeof t) (pb_contents pb), pb')" "PB_inv pb'"
        "pb_contents pb' = drop (pb_sizeof t) (pb_contents pb)" by blast
    with True show ?thesis
      by (cases t) (simp_all add: get_ops get_word_def)
  next
    case False
    then show ?thesis
      using pbs.get_refused [OF assms, of "pb_sizeof t"] get_typed_refused by simp
  qed
qed

lemma stream_operators_exact_example:
  "(\<exists>pb'. put_typed (VLLong 3) fresh_pb = Inr pb' \<and> PB_inv pb' \<and> pb_contents pb' = bytes_of_word (3::u64)) \<and>
   get_typed TShort fresh_pb = Inl Terminate"
  using stream_operators_exact [OF fresh_pb_inv(1), of "VLLong 3" TShort] fresh_pb_inv(2,3) by simp

text \<open>Block transfer trusts the sign of its size: a negative size passes the bounds test of
  \<open>Put_Data\<close> and \<open>Get_Data\<close>, whose \<open>memmove\<close> then gets a length near \<open>2 ^ 64\<close> and leaves the source
  (of less than \<open>2 ^ 63\<close> bytes) or the block; for a size that is not negative, \<open>Put_Data\<close> appends
  the first bytes of the source when they fit and terminates otherwise.\<close>

lemma uint_scast: "uint (scast (sz :: c_int) :: u64) = sint sz mod 2 ^ 64"
  unfolding scast_eq uint_word_of_int by simp

lemma unat_scast_negative:
  assumes "sint (sz :: c_int) < 0"
  shows "2 ^ 63 \<le> unat (scast sz :: u64)"
proof -
  have b: "- (2 ^ 31) \<le> sint sz" using sint_greater_eq [of sz] by simp
  have "sint sz mod 2 ^ 64 = (sint sz + 2 ^ 64) mod 2 ^ 64"
    by (simp only: mod_add_self2)
  also have "\<dots> = sint sz + 2 ^ 64"
    using assms b by (intro mod_pos_pos_trivial) auto
  finally have "2 ^ 63 \<le> uint (scast sz :: u64)"
    using b unfolding uint_scast by simp
  then show ?thesis by (simp add: le_nat_iff flip: nat_uint_eq)
qed

lemma unat_scast_nonneg:
  assumes "0 \<le> sint (sz :: c_int)"
  shows "unat (scast sz :: u64) = nat (sint sz)"
proof -
  have "sint sz mod 2 ^ 64 = sint sz"
    using assms sint_lt [of sz] by (intro mod_pos_pos_trivial) auto
  then show ?thesis
    by (simp only: uint_scast flip: nat_uint_eq)
qed

lemma Put_Data_value:
  assumes "0 \<le> sint sz" "nat (sint sz) \<le> length src"
  shows "Put_Data src sz pb = put_value (take (nat (sint sz)) src) pb"
  using assms by (simp add: Put_Data_def put_value_def unat_scast_nonneg min_absorb2)

lemma negative_size_overruns:
  assumes "PB_inv pb" "length src < 2 ^ 63"
  shows "if sint sz < 0 then Put_Data src sz pb = Inl ReadOverrun \<and> Get_Data sz pb = Inl ReadOverrun
    else if sint (Get_FreeSize pb) < sint sz then Put_Data src sz pb = Inl Terminate
    else nat (sint sz) \<le> length src \<longrightarrow>
      (\<exists>pb'. Put_Data src sz pb = Inr pb' \<and> PB_inv pb' \<and> pb_contents pb' = pb_contents pb @ take (nat (sint sz)) src)"
proof (cases "sint sz < 0")
  case True
  define n where "n = unat (scast sz :: u64)"
  have "2 ^ 63 \<le> n"
    unfolding n_def by (rule unat_scast_negative [OF True])
  moreover have "int (length (pb_block pb)) < 2 ^ 31" "0 \<le> pb_read_pos pb"
    using assms(1) sint_lt [of "pb_buf_size pb"] by (simp_all add: PB_inv_def)
  ultimately have big: "length src < n" "\<not> pb_read_pos pb + int n \<le> int (length (pb_block pb))"
    using assms(2) by auto
  have "pb_write_pos pb + sint sz \<le> pb_end pb" "pb_read_pos pb + sint sz \<le> pb_write_pos pb"
    using True assms(1) by (auto simp: PB_inv_def)
  with True big show ?thesis
    by (simp add: Put_Data_def Get_Data_def pb_load_def Let_def flip: n_def)
next
  case False
  show ?thesis
  proof (cases "sint (Get_FreeSize pb) < sint sz")
    case True
    then have "\<not> pb_write_pos pb + sint sz \<le> pb_end pb"
      using assms(1) by (auto simp: pb_free_unat pb_room_def PB_inv_def)
    then show ?thesis using True False by (simp add: Put_Data_def)
  next
    case fits: False
    then have "length (take (nat (sint sz)) src) \<le> pb_room pb"
      by (simp add: pb_free_unat [OF assms(1)])
    from put_value_fits [OF assms(1) this] show ?thesis
      using False fits Put_Data_value [of sz src pb] by auto
  qed
qed

lemma negative_size_overruns_example:
  "Put_Data [1, 2, 3] (- 1) fresh_pb = Inl ReadOverrun \<and> Get_Data (- 1) fresh_pb = Inl ReadOverrun"
  using negative_size_overruns [OF fresh_pb_inv(1), of "[1, 2, 3]" "- 1"] by simp

text \<open>\<open>Full\<close> is off by one: it holds exactly when one byte is still free, and so it is false on a
  buffer in which no byte fits.\<close>

lemma full_means_one_byte_free:
  assumes "PB_inv pb"
  shows "(pb_Full pb \<longleftrightarrow> Get_FreeSize pb = 1) \<and> (put_char c pb = Inl Terminate \<longrightarrow> \<not> pb_Full pb)"
proof -
  have "Get_FreeSize pb = 1 \<longleftrightarrow> pb_room pb = 1"
    using pb_room_bound [OF assms] unat_of_nat_u32 [of "pb_room pb"] pb_free_of_nat [OF assms] by auto
  moreover have "pb_Full pb \<longleftrightarrow> pb_room pb = 1"
    using assms by (auto simp: pb_Full_def pb_room_def PB_inv_def)
  moreover have "\<exists>pb'. put_char c pb = Inr pb'" if "pb_room pb = 1"
    using pbs.put_fits [OF assms, of "bytes_of_word c"] that by (auto simp: put_char_def)
  ultimately show ?thesis by auto
qed

lemma full_means_one_byte_free_example:
  "pb_Full (Move_Wp 15 fresh_pb) \<and> \<not> pb_Full (Move_Wp 16 fresh_pb) \<and> put_char 7 (Move_Wp 16 fresh_pb) = Inl Terminate"
proof -
  have "PB_inv (Move_Wp 15 fresh_pb)" and i16: "PB_inv (Move_Wp 16 fresh_pb)"
    by (simp_all add: PB_inv_def Move_Wp_def fresh_pb_def ProtocolBuffer_ctor_def)
  moreover have "Get_FreeSize (Move_Wp 15 fresh_pb) = 1"
    by (simp add: Get_FreeSize_def Move_Wp_def fresh_pb_def ProtocolBuffer_ctor_def)
  moreover have "put_char 7 (Move_Wp 16 fresh_pb) = Inl Terminate"
    using pbs.put_refused [OF i16, of "bytes_of_word (7::byte)"]
    by (simp add: put_char_def pb_room_def Move_Wp_def fresh_pb_def ProtocolBuffer_ctor_def)
  ultimately show ?thesis
    using full_means_one_byte_free [of _ 7] by blast
qed

text \<open>A string operator writes the characters before the terminator and nothing that marks the
  end, so two adjacent strings leave the same buffer wherever the boundary between them was.\<close>

lemma c_strlen_terminated: "0 \<notin> set bs \<Longrightarrow> c_strlen (bs @ 0 # rest) = Inr (length bs)"
  by (induction bs) auto

lemma sint_ucast_len: "n < 2 ^ 31 \<Longrightarrow> sint (ucast (of_nat n :: u64) :: c_int) = int n"
  by (simp add: ucast_of_nat signed_of_nat signed_take_bit_int_eq_self)

lemma put_cstr_value:
  assumes "PB_inv pb" "0 \<notin> set bs" "length bs \<le> pb_room pb"
  shows "put_cstr (bs @ 0 # rest) pb = put_value bs pb"
proof -
  have "pb_end pb < 2 ^ 31"
    using assms(1) sint_lt [of "pb_buf_size pb"] by (simp add: PB_inv_def)
  then have small: "length bs < 2 ^ 31" using assms(1,3) by (auto simp: pb_room_def PB_inv_def)
  note si = sint_ucast_len [OF small]
  have "unat (scast (ucast (of_nat (length bs) :: u64) :: c_int) :: u64) = length bs"
    by (subst unat_scast_nonneg) (simp_all only: si nat_int)
  then show ?thesis
    by (simp add: put_cstr_def c_strlen_terminated [OF assms(2)] Put_Data_def put_value_def si Let_def)
qed

lemma strings_have_no_boundary:
  assumes "PB_inv pb" "0 \<notin> set (xs @ ys)" "int (length (xs @ ys)) \<le> sint (Get_FreeSize pb)"
  shows "\<exists>pb'. rbind (put_cstr (xs @ [0]) pb) (put_cstr (ys @ [0])) = Inr pb' \<and>
    pb_contents pb' = pb_contents pb @ xs @ ys"
proof -
  have fit: "length xs + length ys \<le> pb_room pb"
    using assms(3) by (simp add: pb_free_unat [OF assms(1)])
  then obtain p1 where p1: "put_value xs pb = Inr p1" "PB_inv p1" "pb_contents p1 = pb_contents pb @ xs"
      "pb_room p1 = pb_room pb - length xs"
    using pbs.put_fits [OF assms(1), of xs] by auto
  have "length ys \<le> pb_room p1" using p1(4) fit by linarith
  then obtain p2 where p2: "put_value ys p1 = Inr p2" "pb_contents p2 = pb_contents p1 @ ys"
    using pbs.put_fits [OF p1(2), of ys] by auto
  from p1 p2 fit assms(2) put_cstr_value [OF assms(1), of xs "[]"] put_cstr_value [OF p1(2), of ys "[]"]
  show ?thesis by simp
qed

lemma strings_have_no_boundary_example:
  "\<exists>pb'. rbind (put_cstr ([65] @ [0]) fresh_pb) (put_cstr ([66, 67] @ [0])) = Inr pb' \<and> pb_contents pb' = [65, 66, 67]"
  using strings_have_no_boundary [OF fresh_pb_inv(1), of "[65]" "[66, 67]"] fresh_pb_inv(2,3) by simp

end
