(* ===== verification/LFObjectPool.thy ===== *)
theory LFObjectPool
  imports Prelude
begin

text \<open>
  The object pools (\<^verbatim>\<open>JunCommon/pool/LFObjectPool.h\<close>, \<^verbatim>\<open>ObjectPool.h\<close>). A pool is a
  stack of free nodes linked through \<open>next\<close>; \<open>Alloc\<close> pops a node or creates one, \<open>Free\<close> checks the
  guards and pushes the node back. The lock-free pool keeps a 17-bit stamp in the upper bits of its
  top word. The heap of nodes is a map from addresses; \<open>new\<close> is a parameter, a function of the heap
  that returns an address (\<open>None\<close> for \<open>bad_alloc\<close>). This theory follows one thread at a time: a
  compare-and-exchange loop is a recursive function whose value is \<open>None\<close> when it does not return.

  Shown here: both pools implement one contract, stated as the locale \<open>object_pool\<close>: an object is
  never handed out twice, returning it makes it available again, other objects keep their contents,
  and a foreign or damaged object is refused.
\<close>

section \<open>Stamps\<close>

definition kStampMask :: u64 where
  "kStampMask = 0xFFFF800000000000"

definition kUseBitMask :: u64 where
  "kUseBitMask = 0x00007FFFFFFFFFFF"

definition kStampCount :: u64 where
  "kStampCount = 0x0000800000000000"

definition kMemGuard :: u64 where
  "kMemGuard = 0xFDFDFDFDFDFDFDFD"

text \<open>\<open>InterlockedCompareExchange64\<close>: the value seen and the value left behind.\<close>

definition cas64 :: "u64 \<Rightarrow> u64 \<Rightarrow> u64 \<Rightarrow> u64 \<times> u64" where
  "cas64 dst exch cmp = (dst, if dst = cmp then exch else dst)"

text \<open>An address that carries no stamp bits, as \<open>new\<close> returns on the target.\<close>

definition user_addr :: "addr \<Rightarrow> bool" where
  "user_addr a \<longleftrightarrow> a AND kStampMask = 0"

lemma kStampMask_not: "kStampMask = NOT kUseBitMask"
  by (simp add: kStampMask_def kUseBitMask_def)

lemma user_addr_mask:
  assumes "user_addr a"
  shows "a AND kUseBitMask = a"
proof (rule bit_eqI)
  fix n
  assume "possible_bit TYPE(64 word) n"
  moreover have "\<not> bit (a AND NOT kUseBitMask) n"
    using assms by (simp add: user_addr_def kStampMask_not)
  ultimately show "bit (a AND kUseBitMask) n \<longleftrightarrow> bit a n"
    by (auto simp: bit_simps)
qed

lemma next_stamp_strip:
  assumes "user_addr a"
  shows "((x AND kStampMask) OR a) AND kUseBitMask = a"
proof -
  have "((x AND NOT kUseBitMask) OR a) AND kUseBitMask = a AND kUseBitMask"
    by (rule bit_eqI) (auto simp: bit_simps)
  then show ?thesis
    using user_addr_mask [OF assms] by (simp add: kStampMask_not)
qed

lemma user_addr_0 [simp]: "user_addr 0"
  by (simp add: user_addr_def)

lemma user_addr_less:
  assumes "unat a < 2 ^ 47"
  shows "user_addr a"
proof -
  have "a = take_bit 47 a"
    using assms by (simp add: word_unat_eq_iff unsigned_take_bit_eq take_bit_nat_eq_self)
  then have "a AND NOT (mask 47) = take_bit 47 a AND NOT (mask 47)" by simp
  also have "\<dots> = 0" by (rule bit_eqI) (auto simp: bit_simps)
  finally have "a AND NOT (mask 47) = 0" .
  moreover have "kUseBitMask = mask 47"
    by (simp add: kUseBitMask_def mask_eq_exp_minus_1)
  ultimately show ?thesis
    by (simp only: user_addr_def kStampMask_not)
qed

text \<open>The application address range of the target; its last 64 KiB are kept free.\<close>

definition app_addr :: "addr \<Rightarrow> bool" where
  "app_addr a \<longleftrightarrow> a \<noteq> 0 \<and> a \<le> 0x7FFFFFFEFFFF"

lemma app_addr_user:
  assumes "app_addr a" "unat d < 0x10000"
  shows "user_addr (a + d)" "a + d \<noteq> 0"
proof -
  have "unat a \<le> 0x7FFFFFFEFFFF" "unat a \<noteq> 0"
    using assms(1) by (auto simp: app_addr_def word_le_nat_alt unat_eq_0)
  moreover from this have "unat (a + d) = unat a + unat d"
    using assms(2) by (intro unat_add_lem [THEN iffD1]) simp
  ultimately show "user_addr (a + d)" "a + d \<noteq> 0"
    using assms(2) by (auto intro!: user_addr_less simp: word_unat_eq_iff)
qed

lemmas app_addr_self = app_addr_user [where d = 0, simplified]

section \<open>The lock-free pool\<close>

datatype pool_error = STAMP_NA | ERROR_INTEGRITY | ERROR_INVALID_OVER | ERROR_INVALID_UNDER
  | BadAlloc | AccessViolation | NoActiveException

text \<open>The object type: the value of \<open>T()\<close>, what the default constructor and the destructor make of
  the bytes in place.\<close>

record 'o obj_ops =
  value_init :: 'o
  default_ctor :: "'o \<Rightarrow> 'o"
  obj_dtor :: "'o \<Rightarrow> 'o"

record 'o pool_node =
  pn_integrity :: u64
  pn_under_guard :: u64
  pn_object :: 'o
  pn_over_guard :: u64
  pn_next :: addr

type_synonym 'o node_heap = "addr \<rightharpoonup> 'o pool_node"
type_synonym 'o allocator = "'o node_heap \<Rightarrow> addr option"

definition new_pool_node :: "'o obj_ops \<Rightarrow> u64 \<Rightarrow> 'o pool_node" where
  "new_pool_node ops i =
     \<lparr>pn_integrity = i, pn_under_guard = kMemGuard, pn_object = value_init ops, pn_over_guard = kMemGuard, pn_next = 0\<rparr>"

record 'o LFObjectPool =
  lp_integrity :: u64
  lp_top_stamp :: u64
  lp_object_offset :: c_int
  lp_use_ctor :: bool
  lp_capacity :: c_int
  lp_use_count :: c_int
  lp_heap :: "'o node_heap"

text \<open>The constructor's loop over \<open>node_num\<close>; \<open>this\<close> is the pool's own address.\<close>

fun lp_prealloc :: "'o obj_ops \<Rightarrow> 'o allocator \<Rightarrow> nat \<Rightarrow> 'o LFObjectPool \<Rightarrow> pool_error + 'o LFObjectPool" where
  "lp_prealloc ops al 0 p = Inr p"
| "lp_prealloc ops al (Suc n) p =
     (case al (lp_heap p) of None \<Rightarrow> Inl BadAlloc
      | Some a \<Rightarrow> lp_prealloc ops al n
          (p\<lparr>lp_heap := (lp_heap p)(a \<mapsto> (new_pool_node ops (lp_integrity p))\<lparr>pn_next := lp_top_stamp p\<rparr>),
             lp_top_stamp := a\<rparr>))"

text \<open>\<open>max_app\<close> is \<open>lpMaximumApplicationAddress\<close>, \<open>off\<close> the distance of \<open>object\<close> from the start of a
  node.\<close>

definition LFObjectPool_ctor ::
  "'o obj_ops \<Rightarrow> 'o allocator \<Rightarrow> addr \<Rightarrow> addr \<Rightarrow> u64 \<Rightarrow> c_int \<Rightarrow> bool \<Rightarrow> 'o node_heap \<Rightarrow> pool_error + 'o LFObjectPool" where
  "LFObjectPool_ctor ops al max_app this off node_num use_ctor h =
     (if max_app AND kStampMask \<noteq> 0 then Inl STAMP_NA
      else lp_prealloc ops al (nat (sint node_num))
             \<lparr>lp_integrity = this, lp_top_stamp = 0, lp_object_offset = ucast off, lp_use_ctor = use_ctor,
              lp_capacity = node_num, lp_use_count = 0, lp_heap = h\<rparr>)"

text \<open>The destructor deletes the nodes of the free list, and only those.\<close>

partial_function (option) lp_delete_loop :: "addr \<Rightarrow> 'o node_heap \<Rightarrow> (pool_error + 'o node_heap) option" where
  "lp_delete_loop cur h =
     (if cur = 0 then Some (Inr h)
      else case h cur of None \<Rightarrow> Some (Inl AccessViolation)
           | Some nd \<Rightarrow> lp_delete_loop (pn_next nd) (h(cur := None)))"

definition LFObjectPool_dtor :: "'o LFObjectPool \<Rightarrow> (pool_error + 'o node_heap) option" where
  "LFObjectPool_dtor p = lp_delete_loop (lp_top_stamp p AND kUseBitMask) (lp_heap p)"

partial_function (option) LFObjectPool_Alloc ::
  "'o obj_ops \<Rightarrow> 'o allocator \<Rightarrow> 'o LFObjectPool \<Rightarrow> (pool_error + (addr \<times> 'o LFObjectPool)) option" where
  "LFObjectPool_Alloc ops al p =
     (let copyTopStamp = lp_top_stamp p; topClean = copyTopStamp AND kUseBitMask in
      if topClean \<noteq> 0 then
        (case lp_heap p topClean of None \<Rightarrow> Some (Inl AccessViolation)
         | Some nd \<Rightarrow>
             let nextStamp = (copyTopStamp + kStampCount) AND kStampMask;
                 newTopStamp = nextStamp OR pn_next nd;
                 (seen, top') = cas64 (lp_top_stamp p) newTopStamp copyTopStamp;
                 p1 = p\<lparr>lp_top_stamp := top'\<rparr>
             in if copyTopStamp \<noteq> seen then LFObjectPool_Alloc ops al p1
                else let p2 = (if lp_use_ctor p1
                               then p1\<lparr>lp_heap := (lp_heap p1)(topClean \<mapsto> nd\<lparr>pn_object := default_ctor ops (pn_object nd)\<rparr>)\<rparr>
                               else p1)
                     in Some (Inr (topClean + scast (lp_object_offset p2), p2\<lparr>lp_use_count := lp_use_count p2 + 1\<rparr>)))
      else
        let p1 = p\<lparr>lp_capacity := lp_capacity p + 1, lp_use_count := lp_use_count p + 1\<rparr> in
        (case al (lp_heap p1) of None \<Rightarrow> Some (Inl BadAlloc)
         | Some a \<Rightarrow> Some (Inr (a + scast (lp_object_offset p1),
             p1\<lparr>lp_heap := (lp_heap p1)(a \<mapsto> new_pool_node ops (lp_integrity p1))\<rparr>))))"

text \<open>The push loop of \<open>Free\<close>.\<close>

partial_function (option) lp_free_loop :: "addr \<Rightarrow> 'o LFObjectPool \<Rightarrow> (pool_error + 'o LFObjectPool) option" where
  "lp_free_loop pushNode p =
     (case lp_heap p pushNode of None \<Rightarrow> Some (Inl AccessViolation)
      | Some nd \<Rightarrow>
          let copyTopStamp = lp_top_stamp p;
              p1 = p\<lparr>lp_heap := (lp_heap p)(pushNode \<mapsto> nd\<lparr>pn_next := copyTopStamp AND kUseBitMask\<rparr>)\<rparr>;
              nextStamp = (copyTopStamp + kStampCount) AND kStampMask;
              newTopStamp = nextStamp OR pushNode;
              (seen, top') = cas64 (lp_top_stamp p1) newTopStamp copyTopStamp;
              p2 = p1\<lparr>lp_top_stamp := top'\<rparr>
          in if copyTopStamp \<noteq> seen then lp_free_loop pushNode p2
             else Some (Inr (p2\<lparr>lp_use_count := lp_use_count p2 - 1\<rparr>)))"

definition LFObjectPool_Free ::
  "'o obj_ops \<Rightarrow> addr \<Rightarrow> 'o LFObjectPool \<Rightarrow> (pool_error + 'o LFObjectPool) option" where
  "LFObjectPool_Free ops object p =
     (let pushNode = object - scast (lp_object_offset p) in
      case lp_heap p pushNode of None \<Rightarrow> Some (Inl AccessViolation)
      | Some nd \<Rightarrow>
          if lp_integrity p \<noteq> pn_integrity nd then Some (Inl ERROR_INTEGRITY)
          else if kMemGuard \<noteq> pn_over_guard nd then Some (Inl ERROR_INVALID_OVER)
          else if kMemGuard \<noteq> pn_under_guard nd then Some (Inl ERROR_INVALID_UNDER)
          else lp_free_loop pushNode
                 (if lp_use_ctor p
                  then p\<lparr>lp_heap := (lp_heap p)(pushNode \<mapsto> nd\<lparr>pn_object := obj_dtor ops (pn_object nd)\<rparr>)\<rparr>
                  else p))"

definition SetUseCtor :: "bool \<Rightarrow> 'o LFObjectPool \<Rightarrow> 'o LFObjectPool" where
  "SetUseCtor is_use p = p\<lparr>lp_use_ctor := is_use\<rparr>"

definition lp_GetCapacityCount :: "'o LFObjectPool \<Rightarrow> c_int" where
  "lp_GetCapacityCount p = lp_capacity p"

definition lp_GetUseCount :: "'o LFObjectPool \<Rightarrow> c_int" where
  "lp_GetUseCount p = lp_use_count p"

section \<open>The single-threaded pool\<close>

record 'o ObjectPool =
  op_integrity :: u64
  op_flag_placementNew :: bool
  op_top :: addr
  op_capacity :: c_int
  op_use_count :: c_int
  op_heap :: "'o node_heap"

fun op_prealloc :: "'o obj_ops \<Rightarrow> 'o allocator \<Rightarrow> nat \<Rightarrow> 'o ObjectPool \<Rightarrow> pool_error + 'o ObjectPool" where
  "op_prealloc ops al 0 p = Inr p"
| "op_prealloc ops al (Suc n) p =
     (case al (op_heap p) of None \<Rightarrow> Inl BadAlloc
      | Some a \<Rightarrow> op_prealloc ops al n
          (p\<lparr>op_heap := (op_heap p)(a \<mapsto> (new_pool_node ops (op_integrity p))\<lparr>pn_next := op_top p\<rparr>), op_top := a\<rparr>))"

definition ObjectPool_ctor ::
  "'o obj_ops \<Rightarrow> 'o allocator \<Rightarrow> addr \<Rightarrow> c_int \<Rightarrow> bool \<Rightarrow> 'o node_heap \<Rightarrow> pool_error + 'o ObjectPool" where
  "ObjectPool_ctor ops al this node_num flag h =
     op_prealloc ops al (nat (sint node_num))
       \<lparr>op_integrity = this, op_flag_placementNew = flag, op_top = 0, op_capacity = node_num, op_use_count = 0,
        op_heap = h\<rparr>"

definition ObjectPool_dtor :: "'o ObjectPool \<Rightarrow> (pool_error + 'o node_heap) option" where
  "ObjectPool_dtor p = lp_delete_loop (op_top p) (op_heap p)"

text \<open>\<open>off\<close> is the distance of \<open>obejct\<close> from the start of a node, which the compiler chooses; \<open>Free\<close>
  computes with \<open>sizeof(size_t) + sizeof(ULONG_PTR)\<close>, that is 16.\<close>

definition ObjectPool_Alloc ::
  "'o obj_ops \<Rightarrow> 'o allocator \<Rightarrow> u64 \<Rightarrow> 'o ObjectPool \<Rightarrow> pool_error + (addr \<times> 'o ObjectPool)" where
  "ObjectPool_Alloc ops al off p =
     (if op_top p \<noteq> 0 then
        (case op_heap p (op_top p) of None \<Rightarrow> Inl AccessViolation
         | Some nd \<Rightarrow>
             let p1 = (if op_flag_placementNew p
                       then p\<lparr>op_heap := (op_heap p)(op_top p \<mapsto> nd\<lparr>pn_object := default_ctor ops (pn_object nd)\<rparr>)\<rparr>
                       else p);
                 old_top = op_top p1
             in Inr (old_top + off, p1\<lparr>op_top := pn_next nd, op_use_count := op_use_count p1 + 1\<rparr>))
      else
        let p1 = p\<lparr>op_capacity := op_capacity p + 1, op_use_count := op_use_count p + 1\<rparr> in
        (case al (op_heap p1) of None \<Rightarrow> Inl BadAlloc
         | Some a \<Rightarrow> Inr (a + off, p1\<lparr>op_heap := (op_heap p1)(a \<mapsto> new_pool_node ops (op_integrity p1))\<rparr>)))"

definition ObjectPool_Free :: "'o obj_ops \<Rightarrow> addr \<Rightarrow> 'o ObjectPool \<Rightarrow> pool_error + 'o ObjectPool" where
  "ObjectPool_Free ops p_obejct p =
     (let a = p_obejct - 8 - 8 in
      case op_heap p a of None \<Rightarrow> Inl AccessViolation
      | Some nd \<Rightarrow>
          if op_integrity p \<noteq> pn_integrity nd then Inl NoActiveException
          else if kMemGuard \<noteq> pn_over_guard nd then Inl NoActiveException
          else if kMemGuard \<noteq> pn_under_guard nd then Inl NoActiveException
          else let ob = (if op_flag_placementNew p then obj_dtor ops (pn_object nd) else pn_object nd)
               in Inr (p\<lparr>op_use_count := op_use_count p - 1,
                        op_heap := (op_heap p)(a \<mapsto> nd\<lparr>pn_object := ob, pn_next := op_top p\<rparr>), op_top := a\<rparr>))"

definition op_GetCapacityCount :: "'o ObjectPool \<Rightarrow> c_int" where
  "op_GetCapacityCount p = op_capacity p"

definition op_GetUseCount :: "'o ObjectPool \<Rightarrow> c_int" where
  "op_GetUseCount p = op_use_count p"

section \<open>Linked lists in a heap\<close>

fun linked :: "(addr \<rightharpoonup> addr) \<Rightarrow> addr \<Rightarrow> addr list \<Rightarrow> bool" where
  "linked nx a [] \<longleftrightarrow> a = 0"
| "linked nx a (x # xs) \<longleftrightarrow> a = x \<and> x \<noteq> 0 \<and> (\<exists>b. nx x = Some b \<and> linked nx b xs)"

lemma linked_unique: "linked nx a xs \<Longrightarrow> linked nx a ys \<Longrightarrow> xs = ys"
proof (induction xs arbitrary: a ys)
  case Nil
  then show ?case by (cases ys) auto
next
  case (Cons x xs)
  then show ?case by (cases ys) auto
qed

lemma linked_cong: "(\<And>x. x \<in> set xs \<Longrightarrow> nx x = nx' x) \<Longrightarrow> linked nx a xs \<longleftrightarrow> linked nx' a xs"
  by (induction xs arbitrary: a) auto

lemma linked_upd [simp]: "x \<notin> set xs \<Longrightarrow> linked (nx(x := v)) a xs \<longleftrightarrow> linked nx a xs"
  by (intro linked_cong) auto

lemma linked_null [simp]: "linked nx 0 xs \<longleftrightarrow> xs = []"
  by (cases xs) auto

lemma linked_nonnull: "linked nx a xs \<Longrightarrow> 0 \<notin> set xs"
  by (induction xs arbitrary: a) auto

section \<open>The representation of a pool\<close>

definition nexts :: "'o node_heap \<Rightarrow> addr \<rightharpoonup> addr" where
  "nexts h a = map_option pn_next (h a)"

definition own_nodes :: "u64 \<Rightarrow> 'o node_heap \<Rightarrow> addr set" where
  "own_nodes i h = {a. \<exists>nd. h a = Some nd \<and> pn_integrity nd = i}"

definition free_nodes :: "'o node_heap \<Rightarrow> addr \<Rightarrow> addr list" where
  "free_nodes h t = (THE fl. linked (nexts h) t fl)"

definition node_intact :: "'o pool_node \<Rightarrow> bool" where
  "node_intact nd \<longleftrightarrow> pn_under_guard nd = kMemGuard \<and> pn_over_guard nd = kMemGuard \<and> user_addr (pn_next nd)"

text \<open>A pool with integrity value \<open>i\<close> whose free list starts at \<open>t\<close> and is \<open>fl\<close>.\<close>

definition pool_ok :: "u64 \<Rightarrow> 'o node_heap \<Rightarrow> addr \<Rightarrow> addr list \<Rightarrow> bool" where
  "pool_ok i h t fl \<longleftrightarrow> linked (nexts h) t fl \<and> distinct fl \<and> set fl \<subseteq> own_nodes i h \<and> finite (own_nodes i h) \<and>
     (\<forall>a\<in>own_nodes i h. app_addr a \<and> node_intact (the (h a)))"

text \<open>What the code relies on of \<open>new\<close>: a fresh, non-null application address.\<close>

definition allocator_ok :: "'o allocator \<Rightarrow> bool" where
  "allocator_ok al \<longleftrightarrow> (\<forall>h a. al h = Some a \<longrightarrow> h a = None \<and> app_addr a)"

lemma nexts_upd [simp]: "nexts (h(a \<mapsto> nd)) = (nexts h)(a \<mapsto> pn_next nd)"
  by (auto simp: nexts_def)

lemma free_nodes_eq: "linked (nexts h) t fl \<Longrightarrow> free_nodes h t = fl"
  unfolding free_nodes_def by (rule the_equality) (auto dest: linked_unique)

lemma own_nodes_upd: "own_nodes i (h(a \<mapsto> nd)) = (if pn_integrity nd = i then insert a (own_nodes i h) else own_nodes i h - {a})"
  by (auto simp: own_nodes_def)

lemma own_nodes_same: "h a = Some nd \<Longrightarrow> pn_integrity nd' = pn_integrity nd \<Longrightarrow> own_nodes i (h(a \<mapsto> nd')) = own_nodes i h"
  by (auto simp: own_nodes_def)

lemma pool_ok_top: "pool_ok i h t fl \<Longrightarrow> user_addr t"
  by (cases fl) (auto simp: pool_ok_def app_addr_self)

lemma pool_ok_node:
  assumes "pool_ok i h t fl" "a \<in> own_nodes i h"
  obtains nd where "h a = Some nd" "pn_integrity nd = i" "node_intact nd" "app_addr a"
  using assms by (auto simp: pool_ok_def own_nodes_def)

lemma pool_pop:
  assumes "pool_ok i h t fl" "t \<noteq> 0"
  obtains nd xs where "fl = t # xs" "h t = Some nd" "pn_integrity nd = i" "user_addr (pn_next nd)"
    "\<And>ob. own_nodes i (h(t \<mapsto> nd\<lparr>pn_object := ob\<rparr>)) = own_nodes i h"
    "\<And>ob. pool_ok i (h(t \<mapsto> nd\<lparr>pn_object := ob\<rparr>)) (pn_next nd) xs"
proof -
  obtain xs where fl: "fl = t # xs"
    using assms by (cases fl) (auto simp: pool_ok_def)
  then have "t \<in> own_nodes i h" using assms by (auto simp: pool_ok_def)
  from pool_ok_node [OF assms(1) this] obtain nd where nd: "h t = Some nd" "pn_integrity nd = i" "node_intact nd" .
  have same: "own_nodes i (h(t \<mapsto> nd\<lparr>pn_object := ob\<rparr>)) = own_nodes i h" for ob
    using nd by (simp add: own_nodes_same)
  have "nexts h t = Some (pn_next nd)" using nd by (simp add: nexts_def)
  then have "pool_ok i (h(t \<mapsto> nd\<lparr>pn_object := ob\<rparr>)) (pn_next nd) xs" for ob
    using assms(1) nd fl unfolding pool_ok_def same by (auto simp: node_intact_def)
  then show thesis
    using that [OF fl nd(1,2) _ same] nd(3) by (simp add: node_intact_def)
qed

lemma pool_push:
  assumes "pool_ok i h t fl" "a \<in> own_nodes i h" "a \<notin> set fl" "h a = Some nd"
  shows "pool_ok i (h(a \<mapsto> nd\<lparr>pn_object := ob, pn_next := t\<rparr>)) a (a # fl)"
    and "own_nodes i (h(a \<mapsto> nd\<lparr>pn_object := ob, pn_next := t\<rparr>)) = own_nodes i h"
proof -
  show same: "own_nodes i (h(a \<mapsto> nd\<lparr>pn_object := ob, pn_next := t\<rparr>)) = own_nodes i h"
    using assms(4) by (simp add: own_nodes_same)
  show "pool_ok i (h(a \<mapsto> nd\<lparr>pn_object := ob, pn_next := t\<rparr>)) a (a # fl)"
    using assms pool_ok_top [OF assms(1)] unfolding pool_ok_def same
    by (auto simp: node_intact_def app_addr_def)
qed

lemma pool_new:
  assumes "pool_ok i h 0 fl" "h a = None" "app_addr a"
  shows "pool_ok i (h(a \<mapsto> new_pool_node ops i)) 0 []" "fl = []"
    and "own_nodes i (h(a \<mapsto> new_pool_node ops i)) = insert a (own_nodes i h)" "a \<notin> own_nodes i h"
proof -
  show own: "own_nodes i (h(a \<mapsto> new_pool_node ops i)) = insert a (own_nodes i h)"
    by (simp add: own_nodes_upd new_pool_node_def)
  show "a \<notin> own_nodes i h" using assms(2) by (simp add: own_nodes_def)
  show "fl = []" using assms(1) by (simp add: pool_ok_def)
  show "pool_ok i (h(a \<mapsto> new_pool_node ops i)) 0 []"
    using assms unfolding pool_ok_def own by (auto simp: node_intact_def new_pool_node_def)
qed

section \<open>The contract of a pool\<close>

datatype pool_call = PAlloc | PFree nat

text \<open>A client that keeps the objects it was given (newest first) and returns the \<open>k\<close>-th of them.\<close>

fun pool_run ::
  "('p \<Rightarrow> (pool_error + (addr \<times> 'p)) option) \<Rightarrow> (addr \<Rightarrow> 'p \<Rightarrow> (pool_error + 'p) option) \<Rightarrow>
   pool_call list \<Rightarrow> addr list \<Rightarrow> 'p \<Rightarrow> (pool_error + (addr list \<times> 'p)) option" where
  "pool_run alloc free [] objs p = Some (Inr (objs, p))"
| "pool_run alloc free (PAlloc # cs) objs p =
     (case alloc p of None \<Rightarrow> None | Some (Inl e) \<Rightarrow> Some (Inl e)
      | Some (Inr (a, p')) \<Rightarrow> pool_run alloc free cs (a # objs) p')"
| "pool_run alloc free (PFree k # cs) objs p =
     (if k < length objs
      then case free (objs ! k) p of None \<Rightarrow> None | Some (Inl e) \<Rightarrow> Some (Inl e)
           | Some (Inr p') \<Rightarrow> pool_run alloc free cs (take k objs @ drop (Suc k) objs) p'
      else pool_run alloc free cs objs p)"

locale object_pool =
  fixes invar :: "'p \<Rightarrow> bool"
    and used :: "'p \<Rightarrow> addr set"
    and obj :: "'p \<Rightarrow> addr \<Rightarrow> 'o"
    and alloc :: "'p \<Rightarrow> (pool_error + (addr \<times> 'p)) option"
    and free :: "addr \<Rightarrow> 'p \<Rightarrow> (pool_error + 'p) option"
    and in_use :: "'p \<Rightarrow> c_int"
  assumes alloc: "invar p \<Longrightarrow> alloc p = Some (Inl BadAlloc) \<or>
      (\<exists>a p'. alloc p = Some (Inr (a, p')) \<and> invar p' \<and> a \<notin> used p \<and> used p' = insert a (used p) \<and>
        (\<forall>b\<in>used p. obj p' b = obj p b))"
    and free: "invar p \<Longrightarrow> a \<in> used p \<Longrightarrow>
      \<exists>p'. free a p = Some (Inr p') \<and> invar p' \<and> used p' = used p - {a} \<and> (\<forall>b\<in>used p - {a}. obj p' b = obj p b)"
    and count: "invar p \<Longrightarrow> finite (used p) \<and> in_use p = of_nat (card (used p))"
begin

lemma remove_nth:
  assumes "distinct objs" "k < length objs"
  shows "distinct (take k objs @ drop (Suc k) objs)"
    and "set (take k objs @ drop (Suc k) objs) = set objs - {objs ! k}"
proof -
  have split: "objs = take k objs @ objs ! k # drop (Suc k) objs"
    using assms(2) by (rule id_take_nth_drop)
  then have "distinct (take k objs @ objs ! k # drop (Suc k) objs)"
    using assms(1) by simp
  then show "distinct (take k objs @ drop (Suc k) objs)"
    and "set (take k objs @ drop (Suc k) objs) = set objs - {objs ! k}"
    using arg_cong [OF split, of set] by auto
qed

lemma run_exclusive:
  assumes "invar p" "distinct objs" "set objs = used p"
  shows "pool_run alloc free cs objs p = Some (Inl BadAlloc) \<or>
    (\<exists>objs' p'. pool_run alloc free cs objs p = Some (Inr (objs', p')) \<and> invar p' \<and> distinct objs' \<and>
      set objs' = used p' \<and> in_use p' = of_nat (length objs'))"
  using assms
proof (induction cs arbitrary: objs p)
  case Nil
  then show ?case using count [of p] distinct_card [of objs] by simp
next
  case (Cons c cs)
  show ?case
  proof (cases c)
    case PAlloc
    from alloc [OF Cons.prems(1)] show ?thesis
    proof (elim disjE exE conjE)
      fix a p'
      assume a: "alloc p = Some (Inr (a, p'))" "invar p'" "a \<notin> used p" "used p' = insert a (used p)"
      then show ?thesis using Cons.IH [OF a(2), of "a # objs"] Cons.prems PAlloc by auto
    qed (simp add: PAlloc)
  next
    case (PFree k)
    show ?thesis
    proof (cases "k < length objs")
      case True
      then have "objs ! k \<in> used p" using Cons.prems(3) nth_mem by blast
      from free [OF Cons.prems(1) this] obtain p' where p': "free (objs ! k) p = Some (Inr p')" "invar p'"
          "used p' = used p - {objs ! k}" by blast
      with Cons.IH [OF p'(2) remove_nth(1) [OF Cons.prems(2) True]] remove_nth(2) [OF Cons.prems(2) True]
      show ?thesis using True PFree Cons.prems(3) by simp
    qed (use Cons PFree in simp)
  qed
qed

end

section \<open>Both pools meet the contract\<close>

definition shift :: "u64 \<Rightarrow> addr set \<Rightarrow> addr set" where
  "shift off A = (\<lambda>a. a + off) ` A"

lemma shift_mem [simp]: "a + off \<in> shift off A \<longleftrightarrow> a \<in> A"
  by (auto simp: shift_def)

lemma shift_insert [simp]: "shift off (insert a A) = insert (a + off) (shift off A)"
  by (simp add: shift_def)

lemma shift_Diff [simp]: "shift off (A - {a}) = shift off A - {a + off}"
  by (auto simp: shift_def)

lemma card_shift [simp]: "card (shift off A) = card A"
  unfolding shift_def by (intro card_image injI) simp

lemma finite_shift [simp]: "finite A \<Longrightarrow> finite (shift off A)"
  by (simp add: shift_def)

text \<open>The nodes in use, and the counters.\<close>

definition busy :: "u64 \<Rightarrow> 'o node_heap \<Rightarrow> addr \<Rightarrow> addr set" where
  "busy i h t = own_nodes i h - set (free_nodes h t)"

definition pool_inv :: "u64 \<Rightarrow> 'o node_heap \<Rightarrow> addr \<Rightarrow> c_int \<Rightarrow> bool" where
  "pool_inv i h t n \<longleftrightarrow> (\<exists>fl. pool_ok i h t fl) \<and> n = of_nat (card (busy i h t))"

definition LP_inv :: "'o LFObjectPool \<Rightarrow> bool" where
  "LP_inv p \<longleftrightarrow> pool_inv (lp_integrity p) (lp_heap p) (lp_top_stamp p AND kUseBitMask) (lp_use_count p)"

definition lp_used :: "'o LFObjectPool \<Rightarrow> addr set" where
  "lp_used p = shift (scast (lp_object_offset p)) (busy (lp_integrity p) (lp_heap p) (lp_top_stamp p AND kUseBitMask))"

definition lp_obj :: "'o LFObjectPool \<Rightarrow> addr \<Rightarrow> 'o" where
  "lp_obj p b = pn_object (the (lp_heap p (b - scast (lp_object_offset p))))"

definition OP_inv :: "'o ObjectPool \<Rightarrow> bool" where
  "OP_inv p \<longleftrightarrow> pool_inv (op_integrity p) (op_heap p) (op_top p) (op_use_count p)"

definition op_used :: "'o ObjectPool \<Rightarrow> addr set" where
  "op_used p = shift 16 (busy (op_integrity p) (op_heap p) (op_top p))"

definition op_obj :: "'o ObjectPool \<Rightarrow> addr \<Rightarrow> 'o" where
  "op_obj p b = pn_object (the (op_heap p (b - 16)))"

lemma busy_ok: "pool_ok i h t fl \<Longrightarrow> busy i h t = own_nodes i h - set fl"
  by (auto simp: busy_def pool_ok_def dest: free_nodes_eq)

lemma pool_inv_pop:
  assumes "pool_inv i h t n" "t \<noteq> 0"
  obtains nd where "h t = Some nd" "pn_integrity nd = i" "user_addr (pn_next nd)" "t \<notin> busy i h t"
    "\<forall>ob. pool_inv i (h(t \<mapsto> nd\<lparr>pn_object := ob\<rparr>)) (pn_next nd) (n + 1)"
    "\<forall>ob. busy i (h(t \<mapsto> nd\<lparr>pn_object := ob\<rparr>)) (pn_next nd) = insert t (busy i h t)"
proof -
  obtain fl where ok: "pool_ok i h t fl" using assms(1) by (auto simp: pool_inv_def)
  from pool_pop [OF ok assms(2)] obtain nd xs where nd: "fl = t # xs" "h t = Some nd" "pn_integrity nd = i"
      "user_addr (pn_next nd)" and own: "\<And>ob. own_nodes i (h(t \<mapsto> nd\<lparr>pn_object := ob\<rparr>)) = own_nodes i h"
      and step: "\<And>ob. pool_ok i (h(t \<mapsto> nd\<lparr>pn_object := ob\<rparr>)) (pn_next nd) xs" by blast
  have fin: "finite (busy i h t)" using ok by (simp add: busy_ok pool_ok_def)
  have t: "t \<in> own_nodes i h" "t \<notin> set xs" using ok nd(1) by (auto simp: pool_ok_def)
  have busy: "busy i (h(t \<mapsto> nd\<lparr>pn_object := ob\<rparr>)) (pn_next nd) = insert t (busy i h t)" for ob
    using t nd(1) by (auto simp: busy_ok [OF ok] busy_ok [OF step] own)
  have out: "t \<notin> busy i h t" using nd(1) by (simp add: busy_ok [OF ok])
  have "pool_inv i (h(t \<mapsto> nd\<lparr>pn_object := ob\<rparr>)) (pn_next nd) (n + 1)" for ob
    using step assms(1) fin out unfolding pool_inv_def busy by auto
  with nd out busy show thesis by (intro that) auto
qed

lemma pool_inv_new:
  assumes "pool_inv i h 0 n" "h a = None" "app_addr a"
  shows "pool_inv i (h(a \<mapsto> new_pool_node ops i)) 0 (n + 1)" "a \<notin> busy i h 0"
    "busy i (h(a \<mapsto> new_pool_node ops i)) 0 = insert a (busy i h 0)"
proof -
  obtain fl where ok: "pool_ok i h 0 fl" using assms(1) by (auto simp: pool_inv_def)
  note new = pool_new(1) [OF ok assms(2,3), of ops] pool_new(2) [OF ok assms(2,3)]
    pool_new(3) [OF ok assms(2,3), of ops] pool_new(4) [OF ok assms(2,3)]
  show out: "a \<notin> busy i h 0" using new(4) by (simp add: busy_ok [OF ok])
  show busy: "busy i (h(a \<mapsto> new_pool_node ops i)) 0 = insert a (busy i h 0)"
    using new by (simp add: busy_ok [OF ok] busy_ok [OF new(1)])
  have "finite (busy i h 0)" using ok by (simp add: busy_ok pool_ok_def)
  then show "pool_inv i (h(a \<mapsto> new_pool_node ops i)) 0 (n + 1)"
    using new(1) out assms(1) unfolding pool_inv_def busy by auto
qed

lemma pool_inv_push:
  assumes "pool_inv i h t n" "a \<in> busy i h t"
  obtains nd where "h a = Some nd" "pn_integrity nd = i" "pn_over_guard nd = kMemGuard" "pn_under_guard nd = kMemGuard"
    "app_addr a"
    "\<forall>ob. pool_inv i (h(a \<mapsto> nd\<lparr>pn_object := ob, pn_next := t\<rparr>)) a (n - 1)"
    "\<forall>ob. busy i (h(a \<mapsto> nd\<lparr>pn_object := ob, pn_next := t\<rparr>)) a = busy i h t - {a}"
proof -
  obtain fl where ok: "pool_ok i h t fl" using assms(1) by (auto simp: pool_inv_def)
  have a: "a \<in> own_nodes i h" "a \<notin> set fl" using assms(2) by (auto simp: busy_ok [OF ok])
  from pool_ok_node [OF ok a(1)] obtain nd where nd: "h a = Some nd" "pn_integrity nd = i" "node_intact nd"
      "app_addr a" .
  note push = pool_push [OF ok a nd(1)]
  have busy: "busy i (h(a \<mapsto> nd\<lparr>pn_object := ob, pn_next := t\<rparr>)) a = busy i h t - {a}" for ob
    by (auto simp: busy_ok [OF ok] busy_ok [OF push(1)] push(2))
  have "finite (busy i h t)" using ok by (simp add: busy_ok pool_ok_def)
  then have "Suc (card (busy i h t - {a})) = card (busy i h t)"
    using assms(2) by (rule card_Suc_Diff1)
  then have "n - 1 = of_nat (card (busy i h t - {a}))"
    using assms(1) unfolding pool_inv_def by (metis add_diff_cancel_right' of_nat_1 of_nat_add Suc_eq_plus1)
  then have "pool_inv i (h(a \<mapsto> nd\<lparr>pn_object := ob, pn_next := t\<rparr>)) a (n - 1)" for ob
    using push(1) unfolding pool_inv_def busy by auto
  with nd busy show thesis by (intro that) (auto simp: node_intact_def)
qed

lemma LFObjectPool_Alloc_spec:
  assumes "allocator_ok al" "LP_inv p"
  shows "LFObjectPool_Alloc ops al p = Some (Inl BadAlloc) \<or>
    (\<exists>a p'. LFObjectPool_Alloc ops al p = Some (Inr (a, p')) \<and> LP_inv p' \<and> a \<notin> lp_used p \<and>
      lp_used p' = insert a (lp_used p) \<and> (\<forall>b\<in>lp_used p. lp_obj p' b = lp_obj p b) \<and>
      lp_object_offset p' = lp_object_offset p \<and> lp_use_ctor p' = lp_use_ctor p \<and>
      (lp_use_ctor p \<longrightarrow> lp_obj p' a = value_init ops \<or> (\<exists>ob. lp_obj p' a = default_ctor ops ob)))"
proof (cases "lp_top_stamp p AND kUseBitMask = 0")
  case True
  show ?thesis
  proof (cases "al (lp_heap p)")
    case None
    then show ?thesis using True by (subst LFObjectPool_Alloc.simps) (simp add: Let_def)
  next
    case (Some a)
    then have a: "lp_heap p a = None" "app_addr a" using assms(1) by (auto simp: allocator_ok_def)
    have "pool_inv (lp_integrity p) (lp_heap p) 0 (lp_use_count p)"
      using assms(2) True by (simp add: LP_inv_def)
    note new = pool_inv_new [OF this a]
    have "b - scast (lp_object_offset p) \<noteq> a" if "b \<in> lp_used p" for b
      using that new(2) True by (auto simp: lp_used_def shift_def)
    then show ?thesis
      using True Some new(1) [of ops] new(2) new(3) [of ops]
      by (subst (1 2) LFObjectPool_Alloc.simps) (simp add: Let_def LP_inv_def lp_used_def lp_obj_def new_pool_node_def)
  qed
next
  case False
  let ?t = "lp_top_stamp p AND kUseBitMask"
  have "pool_inv (lp_integrity p) (lp_heap p) ?t (lp_use_count p)"
    using assms(2) by (simp add: LP_inv_def)
  from pool_inv_pop [OF this False] obtain nd where nd: "lp_heap p ?t = Some nd" "pn_integrity nd = lp_integrity p"
      "user_addr (pn_next nd)" "?t \<notin> busy (lp_integrity p) (lp_heap p) ?t"
      "\<forall>ob. pool_inv (lp_integrity p) ((lp_heap p)(?t \<mapsto> nd\<lparr>pn_object := ob\<rparr>)) (pn_next nd) (lp_use_count p + 1)"
      "\<forall>ob. busy (lp_integrity p) ((lp_heap p)(?t \<mapsto> nd\<lparr>pn_object := ob\<rparr>)) (pn_next nd) =
        insert ?t (busy (lp_integrity p) (lp_heap p) ?t)" .
  have same: "(lp_heap p)(?t \<mapsto> nd\<lparr>pn_object := pn_object nd\<rparr>) = lp_heap p"
    using nd(1) by auto
  have "b - scast (lp_object_offset p) \<noteq> ?t" if "b \<in> lp_used p" for b
    using that nd(4) by (auto simp: lp_used_def shift_def)
  then show ?thesis
    using False nd nd(5,6) [rule_format, of "pn_object nd", unfolded same] next_stamp_strip [OF nd(3)]
    by (subst (1 2) LFObjectPool_Alloc.simps) (auto simp: Let_def LP_inv_def lp_used_def lp_obj_def cas64_def)
qed

lemma LFObjectPool_Free_spec:
  assumes "LP_inv p" "a \<in> lp_used p"
  shows "\<exists>p'. LFObjectPool_Free ops a p = Some (Inr p') \<and> LP_inv p' \<and> lp_used p' = lp_used p - {a} \<and>
    (\<forall>b\<in>lp_used p - {a}. lp_obj p' b = lp_obj p b) \<and>
    lp_object_offset p' = lp_object_offset p \<and> lp_use_ctor p' = lp_use_ctor p"
proof -
  let ?t = "lp_top_stamp p AND kUseBitMask" and ?off = "scast (lp_object_offset p) :: u64"
  define x where "x = a - ?off"
  have a: "a = x + ?off" by (simp add: x_def)
  have inv: "pool_inv (lp_integrity p) (lp_heap p) ?t (lp_use_count p)"
    using assms(1) by (simp add: LP_inv_def)
  have "x \<in> busy (lp_integrity p) (lp_heap p) ?t"
    using assms(2) by (simp add: lp_used_def a)
  from pool_inv_push [OF inv this] obtain nd where nd: "lp_heap p x = Some nd" "pn_integrity nd = lp_integrity p"
      "pn_over_guard nd = kMemGuard" "pn_under_guard nd = kMemGuard" "app_addr x"
      "\<forall>ob. pool_inv (lp_integrity p) ((lp_heap p)(x \<mapsto> nd\<lparr>pn_object := ob, pn_next := ?t\<rparr>)) x (lp_use_count p - 1)"
      "\<forall>ob. busy (lp_integrity p) ((lp_heap p)(x \<mapsto> nd\<lparr>pn_object := ob, pn_next := ?t\<rparr>)) x =
        busy (lp_integrity p) (lp_heap p) ?t - {x}" .
  define ob where "ob = (if lp_use_ctor p then obj_dtor ops (pn_object nd) else pn_object nd)"
  define h' where "h' = (lp_heap p)(x \<mapsto> nd\<lparr>pn_object := ob, pn_next := ?t\<rparr>)"
  define p' where "p' = p\<lparr>lp_heap := h', lp_top_stamp := ((lp_top_stamp p + kStampCount) AND kStampMask) OR x,
      lp_use_count := lp_use_count p - 1\<rparr>"
  have "LFObjectPool_Free ops a p = Some (Inr p')"
    using nd(1-4) by (simp add: LFObjectPool_Free_def Let_def lp_free_loop.simps [of x] cas64_def p'_def h'_def ob_def
        flip: x_def)
  moreover have "LP_inv p'"
    using nd(6) [rule_format, of ob] by (simp add: LP_inv_def p'_def h'_def next_stamp_strip [OF app_addr_self(1) [OF nd(5)]])
  moreover have "lp_used p' = lp_used p - {a}"
    using nd(7) [rule_format, of ob] by (simp add: lp_used_def p'_def h'_def next_stamp_strip [OF app_addr_self(1) [OF nd(5)]] a)
  moreover have "lp_obj p' b = lp_obj p b" if "b \<noteq> a" for b
  proof -
    have "b - ?off \<noteq> x" using that by (auto simp: x_def)
    then show ?thesis by (simp add: lp_obj_def p'_def h'_def)
  qed
  moreover have "lp_object_offset p' = lp_object_offset p" "lp_use_ctor p' = lp_use_ctor p"
    by (simp_all add: p'_def)
  ultimately show ?thesis by auto
qed

lemma lp_used_addr:
  assumes "LP_inv p" "a \<in> lp_used p" "unat (scast (lp_object_offset p) :: u64) < 0x10000"
  shows "user_addr a" "a \<noteq> 0" "\<exists>nd. lp_heap p (a - scast (lp_object_offset p)) = Some nd"
proof -
  let ?off = "scast (lp_object_offset p) :: u64"
  have "a - ?off \<in> own_nodes (lp_integrity p) (lp_heap p)"
    using assms(2) by (auto simp: lp_used_def shift_def busy_def)
  moreover obtain fl where "pool_ok (lp_integrity p) (lp_heap p) (lp_top_stamp p AND kUseBitMask) fl"
    using assms(1) by (auto simp: LP_inv_def pool_inv_def)
  ultimately have "app_addr (a - ?off)" and nd: "\<exists>nd. lp_heap p (a - ?off) = Some nd"
    by (auto simp: pool_ok_def own_nodes_def)
  from app_addr_user [OF this(1) assms(3)] nd show "user_addr a" "a \<noteq> 0" "\<exists>nd. lp_heap p (a - ?off) = Some nd"
    by simp_all
qed

lemma LP_count: "LP_inv p \<Longrightarrow> finite (lp_used p) \<and> lp_GetUseCount p = of_nat (card (lp_used p))"
  by (auto simp: LP_inv_def pool_inv_def lp_used_def lp_GetUseCount_def)

lemma ObjectPool_Alloc_spec:
  assumes "allocator_ok al" "OP_inv p"
  shows "ObjectPool_Alloc ops al 16 p = Inl BadAlloc \<or>
    (\<exists>a p'. ObjectPool_Alloc ops al 16 p = Inr (a, p') \<and> OP_inv p' \<and> a \<notin> op_used p \<and>
      op_used p' = insert a (op_used p) \<and> (\<forall>b\<in>op_used p. op_obj p' b = op_obj p b))"
proof -
  have inv: "pool_inv (op_integrity p) (op_heap p) (op_top p) (op_use_count p)"
    using assms(2) by (simp add: OP_inv_def)
  have other: "b - 16 \<noteq> x" if "x \<notin> busy (op_integrity p) (op_heap p) (op_top p)" "b \<in> op_used p" for b x
    using that by (auto simp: op_used_def shift_def)
  show ?thesis
  proof (cases "op_top p = 0")
    case True
    show ?thesis
    proof (cases "al (op_heap p)")
      case None
      then show ?thesis using True by (simp add: ObjectPool_Alloc_def Let_def)
    next
      case (Some a)
      then have a: "op_heap p a = None" "app_addr a" using assms(1) by (auto simp: allocator_ok_def)
      note new = pool_inv_new [OF inv [unfolded True] a]
      show ?thesis
        using True Some new(1) [of ops] new(2) new(3) [of ops] other [of a]
        by (simp add: ObjectPool_Alloc_def Let_def OP_inv_def op_used_def op_obj_def)
    qed
  next
    case False
    from pool_inv_pop [OF inv False] obtain nd where nd: "op_heap p (op_top p) = Some nd"
        "pn_integrity nd = op_integrity p" "user_addr (pn_next nd)" "op_top p \<notin> busy (op_integrity p) (op_heap p) (op_top p)"
        "\<forall>ob. pool_inv (op_integrity p) ((op_heap p)(op_top p \<mapsto> nd\<lparr>pn_object := ob\<rparr>)) (pn_next nd) (op_use_count p + 1)"
        "\<forall>ob. busy (op_integrity p) ((op_heap p)(op_top p \<mapsto> nd\<lparr>pn_object := ob\<rparr>)) (pn_next nd) =
          insert (op_top p) (busy (op_integrity p) (op_heap p) (op_top p))" .
    define ob where "ob = (if op_flag_placementNew p then default_ctor ops (pn_object nd) else pn_object nd)"
    define h' where "h' = (op_heap p)(op_top p \<mapsto> nd\<lparr>pn_object := ob\<rparr>)"
    define p' where "p' = p\<lparr>op_heap := h', op_top := pn_next nd, op_use_count := op_use_count p + 1\<rparr>"
    have "op_heap p = h'" if "\<not> op_flag_placementNew p"
      using that nd(1) by (auto simp: h'_def ob_def)
    then have "ObjectPool_Alloc ops al 16 p = Inr (op_top p + 16, p')"
      using False nd(1) by (cases "op_flag_placementNew p") (simp_all add: ObjectPool_Alloc_def Let_def p'_def h'_def ob_def)
    moreover have "OP_inv p'" using nd(5) [rule_format, of ob] by (simp add: OP_inv_def p'_def h'_def)
    moreover have "op_used p' = insert (op_top p + 16) (op_used p)"
      using nd(6) [rule_format, of ob] by (simp add: op_used_def p'_def h'_def)
    moreover have "op_top p + 16 \<notin> op_used p" using nd(4) by (simp add: op_used_def)
    moreover have "op_obj p' b = op_obj p b" if "b \<in> op_used p" for b
      using other [OF nd(4) that] by (simp add: op_obj_def p'_def h'_def)
    ultimately show ?thesis by blast
  qed
qed

lemma ObjectPool_Free_spec:
  assumes "OP_inv p" "a \<in> op_used p"
  shows "\<exists>p'. ObjectPool_Free ops a p = Inr p' \<and> OP_inv p' \<and> op_used p' = op_used p - {a} \<and>
    (\<forall>b\<in>op_used p - {a}. op_obj p' b = op_obj p b)"
proof -
  define x where "x = a - 16"
  have a: "a = x + 16" by (simp add: x_def)
  have inv: "pool_inv (op_integrity p) (op_heap p) (op_top p) (op_use_count p)"
    using assms(1) by (simp add: OP_inv_def)
  have "x \<in> busy (op_integrity p) (op_heap p) (op_top p)"
    using assms(2) by (simp add: op_used_def a)
  from pool_inv_push [OF inv this] obtain nd where nd: "op_heap p x = Some nd" "pn_integrity nd = op_integrity p"
      "pn_over_guard nd = kMemGuard" "pn_under_guard nd = kMemGuard" "app_addr x"
      "\<forall>ob. pool_inv (op_integrity p) ((op_heap p)(x \<mapsto> nd\<lparr>pn_object := ob, pn_next := op_top p\<rparr>)) x (op_use_count p - 1)"
      "\<forall>ob. busy (op_integrity p) ((op_heap p)(x \<mapsto> nd\<lparr>pn_object := ob, pn_next := op_top p\<rparr>)) x =
        busy (op_integrity p) (op_heap p) (op_top p) - {x}" .
  define ob where "ob = (if op_flag_placementNew p then obj_dtor ops (pn_object nd) else pn_object nd)"
  define h' where "h' = (op_heap p)(x \<mapsto> nd\<lparr>pn_object := ob, pn_next := op_top p\<rparr>)"
  define p' where "p' = p\<lparr>op_use_count := op_use_count p - 1, op_heap := h', op_top := x\<rparr>"
  have "a - 8 - 8 = x" by (simp add: x_def)
  then have "ObjectPool_Free ops a p = Inr p'"
    using nd(1-4) by (simp add: ObjectPool_Free_def Let_def p'_def h'_def ob_def)
  moreover have "OP_inv p'"
    using nd(6) [rule_format, of ob] by (simp add: OP_inv_def p'_def h'_def)
  moreover have "op_used p' = op_used p - {a}"
    using nd(7) [rule_format, of ob] by (simp add: op_used_def p'_def h'_def a)
  moreover have "op_obj p' b = op_obj p b" if "b \<noteq> a" for b
  proof -
    have "b - 16 \<noteq> x" using that by (auto simp: x_def)
    then show ?thesis by (simp add: op_obj_def p'_def h'_def)
  qed
  ultimately show ?thesis by auto
qed

lemma OP_count: "OP_inv p \<Longrightarrow> finite (op_used p) \<and> op_GetUseCount p = of_nat (card (op_used p))"
  by (auto simp: OP_inv_def pool_inv_def op_used_def op_GetUseCount_def)

interpretation lfpool: object_pool "\<lambda>p. allocator_ok al \<and> LP_inv p" lp_used lp_obj
    "LFObjectPool_Alloc ops al" "LFObjectPool_Free ops" lp_GetUseCount for ops :: "'o obj_ops" and al :: "'o allocator"
proof
  fix p :: "'o LFObjectPool" and a
  assume p: "allocator_ok al \<and> LP_inv p"
  show "LFObjectPool_Alloc ops al p = Some (Inl BadAlloc) \<or>
      (\<exists>a p'. LFObjectPool_Alloc ops al p = Some (Inr (a, p')) \<and> (allocator_ok al \<and> LP_inv p') \<and> a \<notin> lp_used p \<and>
        lp_used p' = insert a (lp_used p) \<and> (\<forall>b\<in>lp_used p. lp_obj p' b = lp_obj p b))"
    using LFObjectPool_Alloc_spec [of al p ops] p by blast
  show "\<exists>p'. LFObjectPool_Free ops a p = Some (Inr p') \<and> (allocator_ok al \<and> LP_inv p') \<and> lp_used p' = lp_used p - {a} \<and>
      (\<forall>b\<in>lp_used p - {a}. lp_obj p' b = lp_obj p b)" if "a \<in> lp_used p"
    using LFObjectPool_Free_spec [of p a ops] that p by blast
  show "finite (lp_used p) \<and> lp_GetUseCount p = of_nat (card (lp_used p))"
    using p by (simp add: LP_count)
qed

interpretation stpool: object_pool "\<lambda>p. allocator_ok al \<and> OP_inv p" op_used op_obj
    "\<lambda>p. Some (ObjectPool_Alloc ops al 16 p)" "\<lambda>a p. Some (ObjectPool_Free ops a p)" op_GetUseCount
    for ops :: "'o obj_ops" and al :: "'o allocator"
proof
  fix p :: "'o ObjectPool" and a
  assume p: "allocator_ok al \<and> OP_inv p"
  show "Some (ObjectPool_Alloc ops al 16 p) = Some (Inl BadAlloc) \<or>
      (\<exists>a p'. Some (ObjectPool_Alloc ops al 16 p) = Some (Inr (a, p')) \<and> (allocator_ok al \<and> OP_inv p') \<and> a \<notin> op_used p \<and>
        op_used p' = insert a (op_used p) \<and> (\<forall>b\<in>op_used p. op_obj p' b = op_obj p b))"
    using ObjectPool_Alloc_spec [of al p ops] p by blast
  show "\<exists>p'. Some (ObjectPool_Free ops a p) = Some (Inr p') \<and> (allocator_ok al \<and> OP_inv p') \<and> op_used p' = op_used p - {a} \<and>
      (\<forall>b\<in>op_used p - {a}. op_obj p' b = op_obj p b)" if "a \<in> op_used p"
    using ObjectPool_Free_spec [of p a ops] that p by simp
  show "finite (op_used p) \<and> op_GetUseCount p = of_nat (card (op_used p))"
    using p by (simp add: OP_count)
qed

section \<open>Properties\<close>

text \<open>C31: Exclusive ownership: whatever a client does with the lock-free pool (any sequence of
  allocations and of returns of objects it holds), every call returns, the only failure is exhausted
  memory, the objects it holds at any time are pairwise different, and \<open>GetUseCount\<close> is their
  number.\<close>

theorem lf_pool_exclusive:
  assumes "allocator_ok al" "LP_inv p" "distinct objs" "set objs = lp_used p"
  shows "pool_run (LFObjectPool_Alloc ops al) (LFObjectPool_Free ops) cs objs p = Some (Inl BadAlloc) \<or>
    (\<exists>objs' p'. pool_run (LFObjectPool_Alloc ops al) (LFObjectPool_Free ops) cs objs p = Some (Inr (objs', p')) \<and>
      LP_inv p' \<and> distinct objs' \<and> set objs' = lp_used p' \<and> lp_GetUseCount p' = of_nat (length objs'))"
  using lfpool.run_exclusive [of al p objs ops cs] assms by blast

definition two_nodes :: "'o allocator" where
  "two_nodes h = (if h 0x1000 = None then Some 0x1000 else if h 0x2000 = None then Some 0x2000 else None)"

lemma two_nodes_ok: "allocator_ok two_nodes"
  by (auto simp: allocator_ok_def two_nodes_def app_addr_def split: if_splits)

definition unit_ops :: "nat obj_ops" where
  "unit_ops = \<lparr>value_init = 0, default_ctor = id, obj_dtor = id\<rparr>"

definition empty_pool :: "'o LFObjectPool" where
  "empty_pool = \<lparr>lp_integrity = 7, lp_top_stamp = 0, lp_object_offset = 16, lp_use_ctor = True,
     lp_capacity = 0, lp_use_count = 0, lp_heap = Map.empty\<rparr>"

lemma empty_pool_ctor: "LFObjectPool_ctor unit_ops al 0x7FFFFFFEFFFF 7 16 0 True Map.empty = Inr empty_pool"
  by (simp add: LFObjectPool_ctor_def empty_pool_def kStampMask_def)

lemma own_nodes_empty [simp]: "own_nodes i Map.empty = {}"
  by (simp add: own_nodes_def)

lemma empty_pool_inv: "LP_inv empty_pool" "lp_used empty_pool = {}"
proof -
  have "pool_ok i Map.empty 0 []" for i by (simp add: pool_ok_def)
  then show "LP_inv empty_pool" "lp_used empty_pool = {}"
    by (auto simp: LP_inv_def pool_inv_def empty_pool_def lp_used_def busy_def shift_def)
qed

theorem lf_pool_exclusive_witness:
  "\<exists>r. pool_run (LFObjectPool_Alloc unit_ops two_nodes) (LFObjectPool_Free unit_ops)
      [PAlloc, PAlloc, PFree 1, PAlloc] [] empty_pool = Some r \<and>
    (r = Inl BadAlloc \<or> (\<exists>objs' p'. r = Inr (objs', p') \<and> distinct objs'))"
  using lf_pool_exclusive [OF two_nodes_ok empty_pool_inv(1), of "[]" unit_ops "[PAlloc, PAlloc, PFree 1, PAlloc]"]
    empty_pool_inv(2) by auto

text \<open>A pointer the pool did not hand out is refused: when the node behind the pointer carries
  another pool's integrity value, or one of its guard words was overwritten, \<open>Free\<close> throws one of
  its three errors (and the pool is left as it was).\<close>

lemma lf_pool_refuses_damage:
  assumes "lp_heap p (a - scast (lp_object_offset p)) = Some nd"
    and "pn_integrity nd \<noteq> lp_integrity p \<or> pn_over_guard nd \<noteq> kMemGuard \<or> pn_under_guard nd \<noteq> kMemGuard"
  shows "LFObjectPool_Free ops a p =
    Some (Inl (if pn_integrity nd \<noteq> lp_integrity p then ERROR_INTEGRITY
               else if pn_over_guard nd \<noteq> kMemGuard then ERROR_INVALID_OVER else ERROR_INVALID_UNDER))"
  using assms by (auto simp: LFObjectPool_Free_def Let_def)

lemma lf_pool_refuses_damage_example:
  "LFObjectPool_Free unit_ops 0x1010
     (empty_pool\<lparr>lp_heap := [0x1000 \<mapsto> (new_pool_node unit_ops 7)\<lparr>pn_over_guard := 0\<rparr>]\<rparr>) = Some (Inl ERROR_INVALID_OVER)"
proof -
  let ?nd = "(new_pool_node unit_ops 7)\<lparr>pn_over_guard := 0\<rparr>"
  let ?p = "empty_pool\<lparr>lp_heap := [0x1000 \<mapsto> ?nd]\<rparr>"
  have "lp_heap ?p (0x1010 - scast (lp_object_offset ?p)) = Some ?nd"
    by (simp add: empty_pool_def)
  from lf_pool_refuses_damage [OF this, of unit_ops] show ?thesis
    by (simp add: new_pool_node_def empty_pool_def kMemGuard_def)
qed

text \<open>The single-threaded pool keeps the same contract, for objects that the compiler places 16 bytes
  into a node: \<open>Free\<close> computes with that constant.\<close>

lemma st_pool_exclusive:
  assumes "allocator_ok al" "OP_inv p" "distinct objs" "set objs = op_used p"
  shows "pool_run (\<lambda>p. Some (ObjectPool_Alloc ops al 16 p)) (\<lambda>a p. Some (ObjectPool_Free ops a p)) cs objs p = Some (Inl BadAlloc) \<or>
    (\<exists>objs' p'. pool_run (\<lambda>p. Some (ObjectPool_Alloc ops al 16 p)) (\<lambda>a p. Some (ObjectPool_Free ops a p)) cs objs p =
        Some (Inr (objs', p')) \<and>
      OP_inv p' \<and> distinct objs' \<and> set objs' = op_used p' \<and> op_GetUseCount p' = of_nat (length objs'))"
  using stpool.run_exclusive [of al p objs ops cs] assms by blast

definition empty_st_pool :: "nat ObjectPool" where
  "empty_st_pool = \<lparr>op_integrity = 7, op_flag_placementNew = False, op_top = 0, op_capacity = 0, op_use_count = 0,
     op_heap = Map.empty\<rparr>"

lemma empty_st_pool_inv: "OP_inv empty_st_pool" "op_used empty_st_pool = {}"
proof -
  have "pool_ok i Map.empty 0 []" for i by (simp add: pool_ok_def)
  then show "OP_inv empty_st_pool" "op_used empty_st_pool = {}"
    by (auto simp: OP_inv_def pool_inv_def empty_st_pool_def op_used_def busy_def shift_def)
qed

lemma st_pool_exclusive_example:
  "\<exists>r. pool_run (\<lambda>p. Some (ObjectPool_Alloc unit_ops two_nodes 16 p)) (\<lambda>a p. Some (ObjectPool_Free unit_ops a p))
      [PAlloc, PFree 0, PAlloc, PAlloc] [] empty_st_pool = Some r \<and>
    (r = Inl BadAlloc \<or> (\<exists>objs' p'. r = Inr (objs', p') \<and> distinct objs'))"
  using st_pool_exclusive [OF two_nodes_ok empty_st_pool_inv(1), of "[]" unit_ops "[PAlloc, PFree 0, PAlloc, PAlloc]"]
    empty_st_pool_inv(2) by auto

end
