(* ===== verification/LFStack.thy ===== *)
theory LFStack
  imports LFObjectPool
begin

text \<open>
  The lock-free stack (\<^verbatim>\<open>JunCommon/container/LFStack.h\<close>) on top of the lock-free pool: its nodes are
  objects of the pool, its top word carries a stamp. One thread at a time, as for the pool.

  Shown here: the stack implements a list: \<open>Push\<close> conses, \<open>Pop\<close> returns the head, the counter is the
  length, and every node is either on the stack or back in the pool.
\<close>

section \<open>The object and its operations\<close>

record 't lnode =
  ln_data :: 't
  ln_next :: addr

text \<open>\<open>Node\<close>: the default constructor clears \<open>next\<close>; \<open>d0\<close>, \<open>dctor\<close> and \<open>ddtor\<close> are what \<open>T\<close> itself
  does.\<close>

definition node_ops :: "'t \<Rightarrow> ('t \<Rightarrow> 't) \<Rightarrow> ('t \<Rightarrow> 't) \<Rightarrow> 't lnode obj_ops" where
  "node_ops d0 dctor ddtor =
     \<lparr>value_init = \<lparr>ln_data = d0, ln_next = 0\<rparr>,
      default_ctor = (\<lambda>n. \<lparr>ln_data = dctor (ln_data n), ln_next = 0\<rparr>),
      obj_dtor = (\<lambda>n. n\<lparr>ln_data := ddtor (ln_data n)\<rparr>)\<rparr>"

definition lnode_Set :: "'t lnode \<Rightarrow> 't lnode" where
  "lnode_Set n = n\<lparr>ln_next := 0\<rparr>"

record 't LFStack =
  ls_nodePool :: "'t lnode LFObjectPool"
  ls_topStamp :: u64
  ls_nodeCount :: c_int

text \<open>Reading and writing a pool object through its pointer.\<close>

definition lp_read :: "addr \<Rightarrow> 'o LFObjectPool \<Rightarrow> pool_error + 'o" where
  "lp_read a p =
     (case lp_heap p (a - scast (lp_object_offset p)) of None \<Rightarrow> Inl AccessViolation | Some nd \<Rightarrow> Inr (pn_object nd))"

definition lp_write :: "addr \<Rightarrow> ('o \<Rightarrow> 'o) \<Rightarrow> 'o LFObjectPool \<Rightarrow> pool_error + 'o LFObjectPool" where
  "lp_write a f p =
     (case lp_heap p (a - scast (lp_object_offset p)) of None \<Rightarrow> Inl AccessViolation
      | Some nd \<Rightarrow> Inr (p\<lparr>lp_heap := (lp_heap p)(a - scast (lp_object_offset p) \<mapsto> nd\<lparr>pn_object := f (pn_object nd)\<rparr>)\<rparr>))"

definition LFStack_ctor :: "'t lnode obj_ops \<Rightarrow> 't lnode allocator \<Rightarrow> addr \<Rightarrow> addr \<Rightarrow> u64 \<Rightarrow> 't lnode node_heap \<Rightarrow> pool_error + 't LFStack" where
  "LFStack_ctor ops al max_app this off h =
     rbind (LFObjectPool_ctor ops al max_app this off 0 True h)
       (\<lambda>p. Inr \<lparr>ls_nodePool = p, ls_topStamp = 0, ls_nodeCount = 0\<rparr>)"

partial_function (option) ls_push_loop :: "addr \<Rightarrow> 't LFStack \<Rightarrow> (pool_error + 't LFStack) option" where
  "ls_push_loop pushNode s =
     (let copyTopStamp = ls_topStamp s in
      case lp_write pushNode (\<lambda>n. n\<lparr>ln_next := copyTopStamp AND kUseBitMask\<rparr>) (ls_nodePool s) of
        Inl e \<Rightarrow> Some (Inl e)
      | Inr p1 \<Rightarrow>
          let nextStamp = (copyTopStamp + kStampCount) AND kStampMask;
              newTopStamp = nextStamp OR pushNode;
              (seen, top') = cas64 (ls_topStamp s) newTopStamp copyTopStamp;
              s1 = s\<lparr>ls_nodePool := p1, ls_topStamp := top'\<rparr>
          in if copyTopStamp \<noteq> seen then ls_push_loop pushNode s1
             else Some (Inr (s1\<lparr>ls_nodeCount := ls_nodeCount s1 + 1\<rparr>)))"

definition LFStack_Push :: "'t lnode obj_ops \<Rightarrow> 't lnode allocator \<Rightarrow> 't \<Rightarrow> 't LFStack \<Rightarrow> (pool_error + 't LFStack) option" where
  "LFStack_Push ops al data s =
     xbind (LFObjectPool_Alloc ops al (ls_nodePool s)) (\<lambda>(pushNode, p).
     xbind (Some (lp_write pushNode lnode_Set p)) (\<lambda>p.
     xbind (Some (lp_write pushNode (\<lambda>n. n\<lparr>ln_data := data\<rparr>) p)) (\<lambda>p.
     ls_push_loop pushNode (s\<lparr>ls_nodePool := p\<rparr>))))"

text \<open>\<open>Pop\<close> delivers the datum, \<open>None\<close> when it returns false.\<close>

partial_function (option) LFStack_Pop :: "'t lnode obj_ops \<Rightarrow> 't LFStack \<Rightarrow> (pool_error + ('t option \<times> 't LFStack)) option" where
  "LFStack_Pop ops s =
     (let copyTopStamp = ls_topStamp s; topClean = copyTopStamp AND kUseBitMask in
      if topClean \<noteq> 0 then
        (case lp_read topClean (ls_nodePool s) of Inl e \<Rightarrow> Some (Inl e)
         | Inr n \<Rightarrow>
             let nextStamp = (copyTopStamp + kStampCount) AND kStampMask;
                 newTopStamp = nextStamp OR ln_next n;
                 (seen, top') = cas64 (ls_topStamp s) newTopStamp copyTopStamp;
                 s1 = s\<lparr>ls_topStamp := top'\<rparr>
             in if copyTopStamp \<noteq> seen then LFStack_Pop ops s1
                else let s2 = s1\<lparr>ls_nodeCount := ls_nodeCount s1 - 1\<rparr> in
                  (case lp_read topClean (ls_nodePool s2) of Inl e \<Rightarrow> Some (Inl e)
                   | Inr n2 \<Rightarrow> (case LFObjectPool_Free ops topClean (ls_nodePool s2) of
                        None \<Rightarrow> None | Some (Inl e) \<Rightarrow> Some (Inl e)
                      | Some (Inr p) \<Rightarrow> Some (Inr (Some (ln_data n2), s2\<lparr>ls_nodePool := p\<rparr>)))))
      else Some (Inr (None, s)))"

definition LFStack_GetUseCount :: "'t LFStack \<Rightarrow> c_int" where
  "LFStack_GetUseCount s = ls_nodeCount s"

text \<open>The destructor returns every node to the pool (whose own destructor then deletes them).\<close>

partial_function (option) ls_drain_loop :: "'t lnode obj_ops \<Rightarrow> addr \<Rightarrow> 't lnode LFObjectPool \<Rightarrow> (pool_error + 't lnode LFObjectPool) option" where
  "ls_drain_loop ops cur p =
     (if cur = 0 then Some (Inr p)
      else case lp_read cur p of Inl e \<Rightarrow> Some (Inl e)
           | Inr n \<Rightarrow> (case LFObjectPool_Free ops cur p of None \<Rightarrow> None | Some (Inl e) \<Rightarrow> Some (Inl e)
                      | Some (Inr p') \<Rightarrow> ls_drain_loop ops (ln_next n) p'))"

definition LFStack_dtor :: "'t lnode obj_ops \<Rightarrow> 't LFStack \<Rightarrow> (pool_error + 't lnode LFObjectPool) option" where
  "LFStack_dtor ops s = ls_drain_loop ops (ls_topStamp s AND kUseBitMask) (ls_nodePool s)"

section \<open>Objects of the pool as memory\<close>

lemma pool_ok_obj:
  assumes "h x = Some nd"
  shows "pool_ok i (h(x \<mapsto> nd\<lparr>pn_object := ob\<rparr>)) t fl \<longleftrightarrow> pool_ok i h t fl"
proof -
  have "nexts (h(x \<mapsto> nd\<lparr>pn_object := ob\<rparr>)) = nexts h"
    using assms by (auto simp: nexts_def)
  moreover have "own_nodes i (h(x \<mapsto> nd\<lparr>pn_object := ob\<rparr>)) = own_nodes i h"
    using assms by (simp add: own_nodes_same)
  ultimately show ?thesis
    using assms by (auto simp: pool_ok_def node_intact_def)
qed

lemma busy_obj: "h x = Some nd \<Longrightarrow> busy i (h(x \<mapsto> nd\<lparr>pn_object := ob\<rparr>)) t = busy i h t"
proof -
  assume "h x = Some nd"
  moreover from this have "nexts (h(x \<mapsto> nd\<lparr>pn_object := ob\<rparr>)) = nexts h"
    by (auto simp: nexts_def)
  ultimately show ?thesis
    by (simp add: busy_def free_nodes_def own_nodes_same)
qed

text \<open>The pool as the container sees it: an invariant for the pool, the bound on the object offset.\<close>

definition pool_good :: "'o LFObjectPool \<Rightarrow> bool" where
  "pool_good p \<longleftrightarrow> LP_inv p \<and> unat (scast (lp_object_offset p) :: u64) < 0x10000"

lemma pool_good_used: "pool_good p \<Longrightarrow> a \<in> lp_used p \<Longrightarrow> user_addr a \<and> a \<noteq> 0"
  using lp_used_addr by (auto simp: pool_good_def)

lemma lp_read_used: "pool_good p \<Longrightarrow> a \<in> lp_used p \<Longrightarrow> lp_read a p = Inr (lp_obj p a)"
  using lp_used_addr(3) [of p a] by (auto simp: pool_good_def lp_read_def lp_obj_def)

lemma lp_write_used:
  assumes "pool_good p" "a \<in> lp_used p"
  shows "\<exists>p'. lp_write a f p = Inr p' \<and> pool_good p' \<and> lp_used p' = lp_used p \<and> lp_use_ctor p' = lp_use_ctor p \<and>
    lp_obj p' = (lp_obj p)(a := f (lp_obj p a))"
proof -
  let ?x = "a - scast (lp_object_offset p)"
  obtain nd where nd: "lp_heap p ?x = Some nd"
    using lp_used_addr(3) [of p a] assms by (auto simp: pool_good_def)
  define p' where "p' = p\<lparr>lp_heap := (lp_heap p)(?x \<mapsto> nd\<lparr>pn_object := f (pn_object nd)\<rparr>)\<rparr>"
  have "lp_write a f p = Inr p'" using nd by (simp add: lp_write_def p'_def)
  moreover have "pool_good p'" "lp_used p' = lp_used p"
    using assms(1) pool_ok_obj [of "lp_heap p" ?x nd, OF nd] busy_obj [of "lp_heap p" ?x nd, OF nd]
    by (simp_all add: pool_good_def LP_inv_def pool_inv_def p'_def lp_used_def)
  moreover have "lp_obj p' = (lp_obj p)(a := f (lp_obj p a))"
    using nd by (auto simp: lp_obj_def p'_def)
  moreover have "lp_use_ctor p' = lp_use_ctor p" by (simp add: p'_def)
  ultimately show ?thesis by blast
qed

lemma pool_good_Alloc:
  assumes "allocator_ok al" "pool_good p"
  shows "LFObjectPool_Alloc ops al p = Some (Inl BadAlloc) \<or>
    (\<exists>a p'. LFObjectPool_Alloc ops al p = Some (Inr (a, p')) \<and> pool_good p' \<and> a \<notin> lp_used p \<and>
      lp_used p' = insert a (lp_used p) \<and> (\<forall>b\<in>lp_used p. lp_obj p' b = lp_obj p b) \<and> lp_use_ctor p' = lp_use_ctor p \<and>
      (lp_use_ctor p \<longrightarrow> lp_obj p' a = value_init ops \<or> (\<exists>ob. lp_obj p' a = default_ctor ops ob)))"
  using LFObjectPool_Alloc_spec [of al p ops] assms unfolding pool_good_def by (elim disjE exE conjE) auto

lemma pool_good_Free:
  assumes "pool_good p" "a \<in> lp_used p"
  shows "\<exists>p'. LFObjectPool_Free ops a p = Some (Inr p') \<and> pool_good p' \<and> lp_used p' = lp_used p - {a} \<and>
    (\<forall>b\<in>lp_used p - {a}. lp_obj p' b = lp_obj p b) \<and> lp_use_ctor p' = lp_use_ctor p"
  using LFObjectPool_Free_spec [of p a ops] assms unfolding pool_good_def by (elim exE conjE) auto

section \<open>The contract of a container\<close>

text \<open>A container of values that removes at the head of a list; \<open>ins\<close> says where it inserts, \<open>ok\<close> up
  to which contents it works. The client makes any sequence of calls and collects the results of its
  removals.\<close>

datatype 't cont_call = Insert 't | Remove

fun cont_run ::
  "('t \<Rightarrow> 's \<Rightarrow> (pool_error + 's) option) \<Rightarrow> ('s \<Rightarrow> (pool_error + ('t option \<times> 's)) option) \<Rightarrow>
   't cont_call list \<Rightarrow> 's \<Rightarrow> (pool_error + ('t option list \<times> 's)) option" where
  "cont_run put_in take_out [] s = Some (Inr ([], s))"
| "cont_run put_in take_out (Insert x # cs) s = xbind (put_in x s) (cont_run put_in take_out cs)"
| "cont_run put_in take_out (Remove # cs) s =
     xbind (take_out s) (\<lambda>(r, s1). xbind (cont_run put_in take_out cs s1) (\<lambda>(rs, s2). Some (Inr (r # rs, s2))))"

fun list_run :: "('t \<Rightarrow> 't list \<Rightarrow> 't list) \<Rightarrow> 't cont_call list \<Rightarrow> 't list \<Rightarrow> 't option list \<times> 't list" where
  "list_run ins [] xs = ([], xs)"
| "list_run ins (Insert x # cs) xs = list_run ins cs (ins x xs)"
| "list_run ins (Remove # cs) [] = (let (rs, ys) = list_run ins cs [] in (None # rs, ys))"
| "list_run ins (Remove # cs) (x # xs) = (let (rs, ys) = list_run ins cs xs in (Some x # rs, ys))"

locale container =
  fixes repr :: "'s \<Rightarrow> 't list \<Rightarrow> bool"
    and ins :: "'t \<Rightarrow> 't list \<Rightarrow> 't list"
    and ok :: "'t list \<Rightarrow> bool"
    and put_in :: "'t \<Rightarrow> 's \<Rightarrow> (pool_error + 's) option"
    and take_out :: "'s \<Rightarrow> (pool_error + ('t option \<times> 's)) option"
    and count :: "'s \<Rightarrow> c_int"
  assumes put_in: "repr s xs \<Longrightarrow> ok (ins x xs) \<Longrightarrow> put_in x s = Some (Inl BadAlloc) \<or> (\<exists>s'. put_in x s = Some (Inr s') \<and> repr s' (ins x xs))"
    and remove_empty: "repr s [] \<Longrightarrow> \<exists>s'. take_out s = Some (Inr (None, s')) \<and> repr s' []"
    and remove_head: "repr s (x # xs) \<Longrightarrow> \<exists>s'. take_out s = Some (Inr (Some x, s')) \<and> repr s' xs"
    and count: "repr s xs \<Longrightarrow> count s = of_nat (length xs)"
begin

lemma run_refines:
  assumes "repr s xs" "\<And>k. ok (snd (list_run ins (take k cs) xs))"
  shows "cont_run put_in take_out cs s = Some (Inl BadAlloc) \<or>
    (\<exists>s'. cont_run put_in take_out cs s = Some (Inr (fst (list_run ins cs xs), s')) \<and> repr s' (snd (list_run ins cs xs)) \<and>
      count s' = of_nat (length (snd (list_run ins cs xs))))"
  using assms
proof (induction cs arbitrary: s xs)
  case Nil
  then show ?case by (auto simp: count)
next
  case (Cons c cs)
  show ?case
  proof (cases c)
    case (Insert x)
    have ok: "ok (snd (list_run ins (take k cs) (ins x xs)))" for k
      using Cons.prems(2) [of "Suc k"] Insert by simp
    then have "ok (ins x xs)" using ok [of 0] by simp
    from put_in [OF Cons.prems(1) this] show ?thesis
    proof (elim disjE exE conjE)
      fix s'
      assume "put_in x s = Some (Inr s')" "repr s' (ins x xs)"
      with Cons.IH [of s' "ins x xs"] Insert ok show ?thesis by simp
    qed (simp add: Insert)
  next
    case Remove
    obtain r ys s' where r: "take_out s = Some (Inr (r, s'))" "repr s' ys"
      "\<forall>cs. list_run ins (Remove # cs) xs = (r # fst (list_run ins cs ys), snd (list_run ins cs ys))"
      using remove_empty [of s] remove_head [of s] Cons.prems(1)
      by (cases xs) (force simp: split_beta)+
    have "ok (snd (list_run ins (take k cs) ys))" for k
      using Cons.prems(2) [of "Suc k"] Remove r(3) by simp
    from Cons.IH [OF r(2) this] r(1,3) Remove show ?thesis by auto
  qed
qed

end

section \<open>The stack implements a list\<close>

definition node_nexts :: "'t lnode LFObjectPool \<Rightarrow> addr \<rightharpoonup> addr" where
  "node_nexts p a = Some (ln_next (lp_obj p a))"

definition LS_repr :: "'t lnode allocator \<Rightarrow> 't LFStack \<Rightarrow> 't list \<Rightarrow> bool" where
  "LS_repr al s xs \<longleftrightarrow> allocator_ok al \<and> pool_good (ls_nodePool s) \<and>
     (\<exists>ns. linked (node_nexts (ls_nodePool s)) (ls_topStamp s AND kUseBitMask) ns \<and> distinct ns \<and>
       set ns = lp_used (ls_nodePool s) \<and> xs = map (\<lambda>a. ln_data (lp_obj (ls_nodePool s) a)) ns) \<and>
     ls_nodeCount s = of_nat (length xs)"

lemma linked_start_user: "linked nx a ns \<Longrightarrow> (\<And>x. x \<in> set ns \<Longrightarrow> user_addr x) \<Longrightarrow> user_addr a"
  by (cases ns) auto

lemma LFStack_Push_refines:
  assumes "LS_repr al s xs"
  shows "LFStack_Push ops al x s = Some (Inl BadAlloc) \<or> (\<exists>s'. LFStack_Push ops al x s = Some (Inr s') \<and> LS_repr al s' (x # xs))"
proof -
  let ?p = "ls_nodePool s" and ?t = "ls_topStamp s AND kUseBitMask"
  obtain ns where ns: "linked (node_nexts ?p) ?t ns" "distinct ns" "set ns = lp_used ?p"
      "xs = map (\<lambda>a. ln_data (lp_obj ?p a)) ns" and al: "allocator_ok al" and good: "pool_good ?p"
      and cnt: "ls_nodeCount s = of_nat (length xs)"
    using assms by (auto simp: LS_repr_def)
  from pool_good_Alloc [OF al good, of ops] show ?thesis
  proof (elim disjE exE conjE)
    fix a p1
    assume a: "LFObjectPool_Alloc ops al ?p = Some (Inr (a, p1))" "pool_good p1" "a \<notin> lp_used ?p"
      "lp_used p1 = insert a (lp_used ?p)" "\<forall>b\<in>lp_used ?p. lp_obj p1 b = lp_obj ?p b"
    have in1: "a \<in> lp_used p1" using a(4) by simp
    obtain p2 where p2: "lp_write a lnode_Set p1 = Inr p2" "pool_good p2" "lp_used p2 = lp_used p1"
        "lp_obj p2 = (lp_obj p1)(a := lnode_Set (lp_obj p1 a))"
      using lp_write_used [OF a(2) in1, of lnode_Set] by blast
    obtain p3 where p3: "lp_write a (\<lambda>n. n\<lparr>ln_data := x\<rparr>) p2 = Inr p3" "pool_good p3" "lp_used p3 = lp_used p2"
        "lp_obj p3 = (lp_obj p2)(a := (lp_obj p2 a)\<lparr>ln_data := x\<rparr>)"
      using lp_write_used [OF p2(2), of a "\<lambda>n. n\<lparr>ln_data := x\<rparr>"] in1 p2(3) by auto
    obtain p4 where p4: "lp_write a (\<lambda>n. n\<lparr>ln_next := ?t\<rparr>) p3 = Inr p4" "pool_good p4" "lp_used p4 = lp_used p3"
        "lp_obj p4 = (lp_obj p3)(a := (lp_obj p3 a)\<lparr>ln_next := ?t\<rparr>)"
      using lp_write_used [OF p3(2), of a "\<lambda>n. n\<lparr>ln_next := ?t\<rparr>"] in1 p2(3) p3(3) by auto
    define s' where "s' = s\<lparr>ls_nodePool := p4, ls_topStamp := ((ls_topStamp s + kStampCount) AND kStampMask) OR a,
        ls_nodeCount := ls_nodeCount s + 1\<rparr>"
    have run: "LFStack_Push ops al x s = Some (Inr s')"
      using a(1) p2(1) p3(1) p4(1) by (simp add: LFStack_Push_def ls_push_loop.simps [of a] Let_def cas64_def s'_def)
    have au: "user_addr a" "a \<noteq> 0" using pool_good_used [OF a(2) in1] by simp_all
    have old: "lp_obj p4 b = lp_obj ?p b" if "b \<in> set ns" for b
      using that a(3,5) ns(3) p2(4) p3(4) p4(4) by auto
    have new: "lp_obj p4 a = \<lparr>ln_data = x, ln_next = ?t\<rparr>"
      using p2(4) p3(4) p4(4) by simp
    have "linked (node_nexts p4) ?t ns"
      using ns(1) old by (subst linked_cong [where nx' = "node_nexts ?p"]) (auto simp: node_nexts_def)
    then have "linked (node_nexts p4) a (a # ns)"
      using au(2) by (simp add: node_nexts_def new)
    then have "LS_repr al s' (x # xs)"
      using al p4(2,3) p2(3) p3(3) a(3,4) ns old new cnt next_stamp_strip [OF au(1)]
      unfolding LS_repr_def s'_def by (auto intro!: exI [of _ "a # ns"])
    with run show ?thesis by blast
  qed (simp add: LFStack_Push_def)
qed

lemma LFStack_Pop_empty: "LS_repr al s [] \<Longrightarrow> \<exists>s'. LFStack_Pop ops s = Some (Inr (None, s')) \<and> LS_repr al s' []"
  by (subst LFStack_Pop.simps) (auto simp: LS_repr_def Let_def)

lemma LFStack_count: "LS_repr al s xs \<Longrightarrow> LFStack_GetUseCount s = of_nat (length xs)"
  by (simp add: LS_repr_def LFStack_GetUseCount_def)

lemma LFStack_Pop_refines:
  assumes "LS_repr al s (x # xs)"
  shows "\<exists>s'. LFStack_Pop ops s = Some (Inr (Some x, s')) \<and> LS_repr al s' xs"
proof -
  let ?p = "ls_nodePool s" and ?t = "ls_topStamp s AND kUseBitMask"
  obtain ns where ns: "linked (node_nexts ?p) ?t ns" "distinct ns" "set ns = lp_used ?p"
      "x # xs = map (\<lambda>a. ln_data (lp_obj ?p a)) ns" and al: "allocator_ok al" and good: "pool_good ?p"
      and cnt: "ls_nodeCount s = of_nat (length (x # xs))"
    using assms unfolding LS_repr_def by (elim conjE exE) (rule that)
  then obtain ms where t: "?t \<noteq> 0" "linked (node_nexts ?p) (ln_next (lp_obj ?p ?t)) ms" "?t \<notin> set ms" "distinct ms"
      "lp_used ?p = insert ?t (set ms)" "x = ln_data (lp_obj ?p ?t)" "xs = map (\<lambda>a. ln_data (lp_obj ?p a)) ms"
    by (cases ns) (auto simp: node_nexts_def)
  then obtain p1 where p1: "LFObjectPool_Free ops ?t ?p = Some (Inr p1)" "pool_good p1" "lp_used p1 = set ms"
      "\<forall>b\<in>set ms. lp_obj p1 b = lp_obj ?p b"
    using pool_good_Free [OF good, of ?t ops] by auto
  have "user_addr (ln_next (lp_obj ?p ?t))"
    using linked_start_user [OF t(2)] pool_good_used [OF good] t(5) by auto
  note strip = next_stamp_strip [OF this]
  define s' where "s' = s\<lparr>ls_nodePool := p1, ls_nodeCount := ls_nodeCount s - 1,
      ls_topStamp := ((ls_topStamp s + kStampCount) AND kStampMask) OR ln_next (lp_obj ?p ?t)\<rparr>"
  have run: "LFStack_Pop ops s = Some (Inr (Some x, s'))"
    using t(1,5,6) p1(1) lp_read_used [OF good, of ?t]
    by (subst LFStack_Pop.simps) (simp add: Let_def cas64_def s'_def)
  have "linked (node_nexts p1) (ln_next (lp_obj ?p ?t)) ms"
    using t(2) p1(4) by (subst linked_cong [where nx' = "node_nexts ?p"]) (auto simp: node_nexts_def)
  then have "LS_repr al s' xs"
    using al p1 t cnt strip unfolding LS_repr_def s'_def by (auto intro!: exI [of _ ms])
  with run show ?thesis by blast
qed

interpretation lfstack: container "LS_repr al" Cons "\<lambda>_. True" "LFStack_Push ops al" "LFStack_Pop ops" LFStack_GetUseCount
    for ops :: "'t lnode obj_ops" and al :: "'t lnode allocator"
  by unfold_locales
    (erule LFStack_Push_refines LFStack_Pop_empty LFStack_Pop_refines LFStack_count)+

section \<open>Properties\<close>

text \<open>C32: The stack is a stack: started on a stack that holds \<open>xs\<close> (top first), any sequence of pushes
  and pops returns, its only failure is exhausted memory, every pop delivers what the same sequence
  delivers on a list with insertion at the head (nothing when it is empty), and the counter ends as
  the number of elements.\<close>

theorem lf_stack_refines_list:
  assumes "LS_repr al s xs"
  shows "cont_run (LFStack_Push ops al) (LFStack_Pop ops) cs s = Some (Inl BadAlloc) \<or>
    (\<exists>s'. cont_run (LFStack_Push ops al) (LFStack_Pop ops) cs s = Some (Inr (fst (list_run Cons cs xs), s')) \<and>
      LS_repr al s' (snd (list_run Cons cs xs)) \<and> LFStack_GetUseCount s' = of_nat (length (snd (list_run Cons cs xs))))"
  using assms TrueI by (rule lfstack.run_refines)

definition nat_node_ops :: "nat lnode obj_ops" where
  "nat_node_ops = node_ops 0 id id"

definition empty_node_pool :: "'t lnode LFObjectPool" where
  "empty_node_pool = \<lparr>lp_integrity = 7, lp_top_stamp = 0, lp_object_offset = 16, lp_use_ctor = True,
     lp_capacity = 0, lp_use_count = 0, lp_heap = Map.empty\<rparr>"

lemma empty_node_pool_good: "pool_good empty_node_pool" "lp_used empty_node_pool = {}"
proof -
  have "pool_ok i Map.empty 0 []" for i by (simp add: pool_ok_def)
  then show "pool_good empty_node_pool" "lp_used empty_node_pool = {}"
    by (auto simp: pool_good_def LP_inv_def pool_inv_def empty_node_pool_def lp_used_def busy_def shift_def)
qed

definition empty_stack :: "'t LFStack" where
  "empty_stack = \<lparr>ls_nodePool = empty_node_pool, ls_topStamp = 0, ls_nodeCount = 0\<rparr>"

lemma empty_stack_repr: "LFStack_ctor ops al 0x7FFFFFFEFFFF 7 16 Map.empty = Inr empty_stack"
    "LS_repr two_nodes empty_stack []"
  by (simp_all add: LFStack_ctor_def LFObjectPool_ctor_def kStampMask_def empty_stack_def LS_repr_def
      empty_node_pool_good two_nodes_ok)
    (simp add: empty_node_pool_def)

theorem lf_stack_refines_list_witness:
  "cont_run (LFStack_Push nat_node_ops two_nodes) (LFStack_Pop nat_node_ops) [Insert 5, Insert 6, Remove, Remove, Remove]
      empty_stack = Some (Inl BadAlloc) \<or>
    (\<exists>s'. cont_run (LFStack_Push nat_node_ops two_nodes) (LFStack_Pop nat_node_ops)
        [Insert 5, Insert 6, Remove, Remove, Remove] empty_stack = Some (Inr ([Some 6, Some 5, None], s')) \<and>
      LFStack_GetUseCount s' = 0)"
proof -
  let ?cs = "[Insert 5, Insert 6, Remove, Remove, Remove] :: nat cont_call list"
  have "list_run Cons ?cs [] = ([Some 6, Some 5, None], [])" by simp
  note r = lf_stack_refines_list [OF empty_stack_repr(2), of nat_node_ops ?cs, unfolded this fst_conv snd_conv]
  from r show ?thesis
    by (elim disjE exE conjE) (rule disjI1, assumption, intro disjI2 exI conjI, assumption, simp)
qed

end
