(* ===== verification/LFQueue.thy ===== *)
theory LFQueue
  imports LFStack
begin

text \<open>
  The lock-free queue (\<^verbatim>\<open>JunCommon/container/LFQueue.h\<close>): a linked list with a dummy node at its
  head, stamped head and tail words and a counter that \<open>Dequeue\<close> decrements first to claim an
  element. It carries the outgoing packets of a session and the job objects of a job thread. One
  thread at a time, as for the pool; a loop that does not return is \<open>None\<close>.

  Shown here: the queue implements a first-in first-out list while it holds fewer than \<open>2 ^ 31\<close>
  elements (the counter is an \<open>int\<close>), and every loop returns.
\<close>

section \<open>The object and its operations\<close>

record 't LFQueue =
  lq_nodePool :: "'t lnode LFObjectPool"
  lq_headStamp :: u64
  lq_tailStamp :: u64
  lq_nodeCount :: c_int

definition LFQueue_ctor :: "'t lnode obj_ops \<Rightarrow> 't lnode allocator \<Rightarrow> addr \<Rightarrow> addr \<Rightarrow> u64 \<Rightarrow> 't lnode node_heap \<Rightarrow> (pool_error + 't LFQueue) option" where
  "LFQueue_ctor ops al max_app this off h =
     xbind (Some (LFObjectPool_ctor ops al max_app this off 0 True h)) (\<lambda>p.
     xbind (LFObjectPool_Alloc ops al p) (\<lambda>(a, p).
     xbind (Some (lp_write a (\<lambda>n. n\<lparr>ln_next := 0\<rparr>) p)) (\<lambda>p.
     Some (Inr \<lparr>lq_nodePool = p, lq_headStamp = a, lq_tailStamp = a, lq_nodeCount = 0\<rparr>))))"

partial_function (option) lq_enqueue_loop :: "addr \<Rightarrow> 't LFQueue \<Rightarrow> (pool_error + 't LFQueue) option" where
  "lq_enqueue_loop enqueNode q =
     (let copyTailStamp = lq_tailStamp q; tailClean = copyTailStamp AND kUseBitMask in
      case lp_read tailClean (lq_nodePool q) of Inl e \<Rightarrow> Some (Inl e)
      | Inr n \<Rightarrow>
          let tailNext = ln_next n in
          if tailNext = 0 then
            let (seen, next') = cas64 (ln_next n) enqueNode 0 in
            (case lp_write tailClean (\<lambda>n. n\<lparr>ln_next := next'\<rparr>) (lq_nodePool q) of Inl e \<Rightarrow> Some (Inl e)
             | Inr p1 \<Rightarrow>
                 let q1 = q\<lparr>lq_nodePool := p1\<rparr> in
                 if seen = 0 then
                   let q2 = q1\<lparr>lq_nodeCount := lq_nodeCount q1 + 1\<rparr>;
                       newTailStamp = ((copyTailStamp + kStampCount) AND kStampMask) OR enqueNode
                   in Some (Inr (q2\<lparr>lq_tailStamp := snd (cas64 (lq_tailStamp q2) newTailStamp copyTailStamp)\<rparr>))
                 else lq_enqueue_loop enqueNode q1)
          else
            let newTailStamp = ((copyTailStamp + kStampCount) AND kStampMask) OR tailNext
            in lq_enqueue_loop enqueNode (q\<lparr>lq_tailStamp := snd (cas64 (lq_tailStamp q) newTailStamp copyTailStamp)\<rparr>))"

definition LFQueue_Enqueue :: "'t lnode obj_ops \<Rightarrow> 't lnode allocator \<Rightarrow> 't \<Rightarrow> 't LFQueue \<Rightarrow> (pool_error + 't LFQueue) option" where
  "LFQueue_Enqueue ops al data q =
     xbind (LFObjectPool_Alloc ops al (lq_nodePool q)) (\<lambda>(enqueNode, p).
     xbind (Some (lp_write enqueNode (\<lambda>n. n\<lparr>ln_data := data\<rparr>) p)) (\<lambda>p.
     lq_enqueue_loop enqueNode (q\<lparr>lq_nodePool := p\<rparr>)))"

partial_function (option) lq_dequeue_loop :: "'t lnode obj_ops \<Rightarrow> 't LFQueue \<Rightarrow> (pool_error + ('t option \<times> 't LFQueue)) option" where
  "lq_dequeue_loop ops q =
     (let copyHeadStamp = lq_headStamp q; copyTailStamp = lq_tailStamp q;
          pushed = (if copyHeadStamp = copyTailStamp then
                      let tailClean = copyTailStamp AND kUseBitMask in
                      (case lp_read tailClean (lq_nodePool q) of Inl e \<Rightarrow> Inl e
                       | Inr n \<Rightarrow>
                           if ln_next n = 0 then Inr None
                           else let newTailStamp = ((copyTailStamp + kStampCount) AND kStampMask) OR ln_next n
                                in Inr (Some (q\<lparr>lq_tailStamp := snd (cas64 (lq_tailStamp q) newTailStamp copyTailStamp)\<rparr>)))
                    else Inr (Some q))
      in case pushed of Inl e \<Rightarrow> Some (Inl e)
         | Inr None \<Rightarrow> lq_dequeue_loop ops q
         | Inr (Some q1) \<Rightarrow>
             let headClean = copyHeadStamp AND kUseBitMask in
             (case lp_read headClean (lq_nodePool q1) of Inl e \<Rightarrow> Some (Inl e)
              | Inr n \<Rightarrow>
                  let headNext = ln_next n in
                  if headNext = 0 then lq_dequeue_loop ops q1
                  else (case lp_read headNext (lq_nodePool q1) of Inl e \<Rightarrow> Some (Inl e)
                        | Inr m \<Rightarrow>
                            let newHeadStamp = ((copyHeadStamp + kStampCount) AND kStampMask) OR headNext;
                                (seen, head') = cas64 (lq_headStamp q1) newHeadStamp copyHeadStamp;
                                q2 = q1\<lparr>lq_headStamp := head'\<rparr>
                            in if seen = copyHeadStamp then
                                 (case LFObjectPool_Free ops headClean (lq_nodePool q2) of
                                    None \<Rightarrow> None | Some (Inl e) \<Rightarrow> Some (Inl e)
                                  | Some (Inr p) \<Rightarrow> Some (Inr (Some (ln_data m), q2\<lparr>lq_nodePool := p\<rparr>)))
                               else lq_dequeue_loop ops q2)))"

definition LFQueue_Dequeue :: "'t lnode obj_ops \<Rightarrow> 't LFQueue \<Rightarrow> (pool_error + ('t option \<times> 't LFQueue)) option" where
  "LFQueue_Dequeue ops q =
     (let q1 = q\<lparr>lq_nodeCount := lq_nodeCount q - 1\<rparr> in
      if sint (lq_nodeCount q1) < 0 then Some (Inr (None, q1\<lparr>lq_nodeCount := lq_nodeCount q1 + 1\<rparr>))
      else lq_dequeue_loop ops q1)"

definition LFQueue_GetUseCount :: "'t LFQueue \<Rightarrow> c_int" where
  "LFQueue_GetUseCount q = lq_nodeCount q"

definition LFQueue_dtor :: "'t lnode obj_ops \<Rightarrow> 't LFQueue \<Rightarrow> (pool_error + 't lnode LFObjectPool) option" where
  "LFQueue_dtor ops q = ls_drain_loop ops (lq_headStamp q AND kUseBitMask) (lq_nodePool q)"

section \<open>The queue implements a list\<close>

text \<open>The nodes from the head word on are a dummy node and one node per element; the tail word names
  the last of them; together they are all the nodes in use.\<close>

definition LQ_nodes :: "'t LFQueue \<Rightarrow> addr list \<Rightarrow> bool" where
  "LQ_nodes q ns \<longleftrightarrow> ns \<noteq> [] \<and> linked (node_nexts (lq_nodePool q)) (lq_headStamp q AND kUseBitMask) ns \<and> distinct ns \<and>
     set ns = lp_used (lq_nodePool q) \<and> lq_tailStamp q AND kUseBitMask = last ns"

definition ctor_clears_next :: "'t lnode obj_ops \<Rightarrow> bool" where
  "ctor_clears_next ops \<longleftrightarrow> ln_next (value_init ops) = 0 \<and> (\<forall>n. ln_next (default_ctor ops n) = 0)"

definition LQ_repr :: "'t lnode obj_ops \<Rightarrow> 't lnode allocator \<Rightarrow> 't LFQueue \<Rightarrow> 't list \<Rightarrow> bool" where
  "LQ_repr ops al q xs \<longleftrightarrow> ctor_clears_next ops \<and> allocator_ok al \<and> pool_good (lq_nodePool q) \<and> lp_use_ctor (lq_nodePool q) \<and>
     (\<exists>ns. LQ_nodes q ns \<and> xs = map (\<lambda>a. ln_data (lp_obj (lq_nodePool q) a)) (tl ns)) \<and>
     lq_nodeCount q = of_nat (length xs) \<and> length xs < 2 ^ 31"

lemma node_ops_clear: "ctor_clears_next (node_ops d0 dctor ddtor)"
  by (simp add: ctor_clears_next_def node_ops_def)

lemma linked_last_next: "linked nx a ns \<Longrightarrow> ns \<noteq> [] \<Longrightarrow> nx (last ns) = Some 0"
proof (induction ns arbitrary: a)
  case (Cons x xs)
  then show ?case by (cases xs) auto
qed simp

lemma linked_append_last:
  assumes "linked nx a ns" "ns \<noteq> []" "distinct ns" "x \<notin> set ns" "x \<noteq> 0" "nx x = Some 0"
  shows "linked (nx(last ns \<mapsto> x)) a (ns @ [x])"
  using assms
proof (induction ns arbitrary: a)
  case (Cons y ys)
  show ?case
  proof (cases "ys = []")
    case True
    then show ?thesis using Cons.prems by auto
  next
    case False
    then have "y \<noteq> last ys" using Cons.prems(3) by auto
    with False Cons show ?thesis by auto
  qed
qed simp

lemma LFQueue_Enqueue_refines:
  assumes "LQ_repr ops al q xs" "length (xs @ [x]) < 2 ^ 31"
  shows "LFQueue_Enqueue ops al x q = Some (Inl BadAlloc) \<or>
    (\<exists>q'. LFQueue_Enqueue ops al x q = Some (Inr q') \<and> LQ_repr ops al q' (xs @ [x]))"
proof -
  let ?p = "lq_nodePool q" and ?t = "lq_tailStamp q AND kUseBitMask"
  obtain ns where nodes: "LQ_nodes q ns" and xs: "xs = map (\<lambda>a. ln_data (lp_obj ?p a)) (tl ns)"
      and al: "allocator_ok al" and good: "pool_good ?p" and ctor: "lp_use_ctor ?p" "ctor_clears_next ops"
      and cnt: "lq_nodeCount q = of_nat (length xs)"
    using assms(1) unfolding LQ_repr_def by (elim conjE exE) (rule that)
  note ns = nodes [unfolded LQ_nodes_def]
  from pool_good_Alloc [OF al good, of ops] show ?thesis
  proof (elim disjE exE conjE)
    fix a p1
    assume a: "LFObjectPool_Alloc ops al ?p = Some (Inr (a, p1))" "pool_good p1" "a \<notin> lp_used ?p"
      "lp_used p1 = insert a (lp_used ?p)" "\<forall>b\<in>lp_used ?p. lp_obj p1 b = lp_obj ?p b" "lp_use_ctor p1 = lp_use_ctor ?p"
      and init: "lp_use_ctor ?p \<longrightarrow> lp_obj p1 a = value_init ops \<or> (\<exists>ob. lp_obj p1 a = default_ctor ops ob)"
    have in1: "a \<in> lp_used p1" using a(4) by simp
    have a0: "ln_next (lp_obj p1 a) = 0" using init ctor by (auto simp: ctor_clears_next_def)
    obtain p2 where p2: "lp_write a (\<lambda>n. n\<lparr>ln_data := x\<rparr>) p1 = Inr p2" "pool_good p2" "lp_used p2 = lp_used p1"
        "lp_use_ctor p2 = lp_use_ctor p1" "lp_obj p2 = (lp_obj p1)(a := (lp_obj p1 a)\<lparr>ln_data := x\<rparr>)"
      using lp_write_used [OF a(2) in1, of "\<lambda>n. n\<lparr>ln_data := x\<rparr>"] by blast
    have t: "?t \<in> set ns" "?t \<in> lp_used p2" "?t \<noteq> a" "?t = last ns"
      using ns a(3,4) p2(3) by (auto dest: last_in_set)
    have t0: "ln_next (lp_obj ?p ?t) = 0"
      using linked_last_next ns t(4) by (fastforce simp: node_nexts_def)
    have tp: "lp_obj p2 ?t = lp_obj ?p ?t" using t(1,3) p2(5) a(5) ns by auto
    obtain p3 where p3: "lp_write ?t (\<lambda>n. n\<lparr>ln_next := a\<rparr>) p2 = Inr p3" "pool_good p3" "lp_used p3 = lp_used p2"
        "lp_use_ctor p3 = lp_use_ctor p2" "lp_obj p3 = (lp_obj p2)(?t := (lp_obj p2 ?t)\<lparr>ln_next := a\<rparr>)"
      using lp_write_used [OF p2(2) t(2), of "\<lambda>n. n\<lparr>ln_next := a\<rparr>"] by blast
    define q' where "q' = q\<lparr>lq_nodePool := p3, lq_nodeCount := lq_nodeCount q + 1,
        lq_tailStamp := ((lq_tailStamp q + kStampCount) AND kStampMask) OR a\<rparr>"
    have run: "LFQueue_Enqueue ops al x q = Some (Inr q')"
      using a(1) p2(1) p3(1) lp_read_used [OF p2(2) t(2)] t0 tp
      by (simp add: LFQueue_Enqueue_def lq_enqueue_loop.simps [of a] Let_def cas64_def q'_def)
    have au: "user_addr a" "a \<noteq> 0" using pool_good_used [OF a(2) in1] by simp_all
    have old: "lp_obj p3 b = (if b = ?t then (lp_obj ?p b)\<lparr>ln_next := a\<rparr> else lp_obj ?p b)" if "b \<in> set ns" for b
      using that a(3,5) ns p2(5) p3(5) tp by auto
    have new: "lp_obj p3 a = \<lparr>ln_data = x, ln_next = 0\<rparr>"
      using p2(5) p3(5) t(3) a0 by simp
    have out: "a \<notin> set ns" using a(3) ns by simp
    have "linked ((node_nexts ?p)(a \<mapsto> 0)) (lq_headStamp q AND kUseBitMask) ns"
      using ns out by simp
    then have "linked ((node_nexts ?p)(a \<mapsto> 0, last ns \<mapsto> a)) (lq_headStamp q AND kUseBitMask) (ns @ [a])"
      using ns out au(2) by (intro linked_append_last) auto
    moreover have "node_nexts p3 b = ((node_nexts ?p)(a \<mapsto> 0, last ns \<mapsto> a)) b" if "b \<in> set (ns @ [a])" for b
      using that old new t(3,4) out by (auto simp: node_nexts_def)
    ultimately have "linked (node_nexts p3) (lq_headStamp q AND kUseBitMask) (ns @ [a])"
      using linked_cong [of "ns @ [a]" "node_nexts p3"] by blast
    then have "LQ_nodes q' (ns @ [a])"
      using ns out a(4) p2(3) p3(3) next_stamp_strip [OF au(1)] by (auto simp: LQ_nodes_def q'_def)
    moreover have "xs @ [x] = map (\<lambda>b. ln_data (lp_obj p3 b)) (tl (ns @ [a]))"
      using xs ns old new by (auto dest: list.set_sel(2))
    moreover have "lq_nodePool q' = p3" "lq_nodeCount q' = of_nat (length (xs @ [x]))"
      using cnt by (simp_all add: q'_def)
    ultimately have "LQ_repr ops al q' (xs @ [x])"
      unfolding LQ_repr_def using al ctor p3(2,4) p2(4) a(6) assms(2) by auto
    with run show ?thesis by blast
  qed (simp add: LFQueue_Enqueue_def)
qed

lemma sint_count:
  assumes "n < 2 ^ 31"
  shows "sint (of_nat n - 1 :: c_int) < 0 \<longleftrightarrow> n = 0"
proof (cases n)
  case (Suc m)
  then have "sint (of_nat n - 1 :: c_int) = int m"
    using assms by (simp add: signed_of_nat signed_take_bit_int_eq_self)
  then show ?thesis using Suc by simp
qed simp

lemma LFQueue_Dequeue_empty:
  assumes "LQ_repr ops al q []"
  shows "\<exists>q'. LFQueue_Dequeue ops q = Some (Inr (None, q')) \<and> LQ_repr ops al q' []"
  using assms by (auto simp: LFQueue_Dequeue_def LQ_repr_def LQ_nodes_def Let_def)

lemma LFQueue_Dequeue_refines:
  assumes "LQ_repr ops al q (x # xs)"
  shows "\<exists>q'. LFQueue_Dequeue ops q = Some (Inr (Some x, q')) \<and> LQ_repr ops al q' xs"
proof -
  let ?p = "lq_nodePool q" and ?h = "lq_headStamp q AND kUseBitMask"
  obtain ns where nodes: "LQ_nodes q ns" and xs: "x # xs = map (\<lambda>a. ln_data (lp_obj ?p a)) (tl ns)"
      and al: "allocator_ok al" and good: "pool_good ?p" and ctor: "lp_use_ctor ?p" "ctor_clears_next ops"
      and cnt: "lq_nodeCount q = of_nat (length (x # xs))" "length (x # xs) < 2 ^ 31"
    using assms unfolding LQ_repr_def by (elim conjE exE) (rule that)
  from nodes xs obtain y ys where ns: "ns = ?h # y # ys" "linked (node_nexts ?p) y (y # ys)" "ln_next (lp_obj ?p ?h) = y"
      "?h \<notin> set (y # ys)" "distinct (y # ys)" "lp_used ?p = insert ?h (set (y # ys))"
      "lq_tailStamp q AND kUseBitMask = last (y # ys)" "x = ln_data (lp_obj ?p y)"
      "xs = map (\<lambda>a. ln_data (lp_obj ?p a)) ys"
    by (cases ns; cases "tl ns") (auto simp: LQ_nodes_def node_nexts_def)
  obtain p1 where p1: "LFObjectPool_Free ops ?h ?p = Some (Inr p1)" "pool_good p1" "lp_used p1 = set (y # ys)"
      "\<forall>b\<in>set (y # ys). lp_obj p1 b = lp_obj ?p b" "lp_use_ctor p1 = lp_use_ctor ?p"
    using pool_good_Free [OF good, of ?h ops] ns(4,6) by auto
  have yu: "user_addr y" "y \<noteq> 0" using pool_good_used [OF good, of y] ns(6) by simp_all
  have ne: "lq_headStamp q \<noteq> lq_tailStamp q"
    using ns(4,7) last_in_set [of "y # ys"] by (metis list.distinct(1))
  have rd: "lp_read ?h ?p = Inr (lp_obj ?p ?h)" "lp_read y ?p = Inr (lp_obj ?p y)"
    using lp_read_used [OF good] ns(6) by simp_all
  define q' where "q' = q\<lparr>lq_nodePool := p1, lq_nodeCount := lq_nodeCount q - 1,
      lq_headStamp := ((lq_headStamp q + kStampCount) AND kStampMask) OR y\<rparr>"
  have "\<not> sint (lq_nodeCount q - 1) < 0"
    unfolding cnt(1) using sint_count [OF cnt(2)] by simp
  then have run: "LFQueue_Dequeue ops q = Some (Inr (Some x, q'))"
    using ne rd ns(3,8) yu(2) p1(1)
    by (simp add: LFQueue_Dequeue_def Let_def lq_dequeue_loop.simps [of ops] cas64_def q'_def)
  have "linked (node_nexts p1) y (y # ys)"
    using ns(2) p1(4) by (subst linked_cong [where nx' = "node_nexts ?p"]) (auto simp: node_nexts_def)
  then have "LQ_nodes q' (y # ys)"
    using ns(5,7) p1(3) next_stamp_strip [OF yu(1)] by (simp add: LQ_nodes_def q'_def)
  moreover have "xs = map (\<lambda>a. ln_data (lp_obj p1 a)) (tl (y # ys))" using ns(9) p1(4) by simp
  moreover have "lq_nodePool q' = p1" "lq_nodeCount q' = of_nat (length xs)"
    using cnt(1) by (simp_all add: q'_def)
  ultimately have "LQ_repr ops al q' xs"
    unfolding LQ_repr_def using al ctor p1(2,5) cnt(2) by auto
  with run show ?thesis by blast
qed

lemma LFQueue_count: "LQ_repr ops al q xs \<Longrightarrow> LFQueue_GetUseCount q = of_nat (length xs)"
  by (simp add: LQ_repr_def LFQueue_GetUseCount_def)

interpretation lfqueue: container "LQ_repr ops al" "\<lambda>x xs. xs @ [x]" "\<lambda>xs. length xs < 2 ^ 31"
    "LFQueue_Enqueue ops al" "LFQueue_Dequeue ops" LFQueue_GetUseCount
    for ops :: "'t lnode obj_ops" and al :: "'t lnode allocator"
  by unfold_locales
    (erule (1) LFQueue_Enqueue_refines | erule LFQueue_Dequeue_empty LFQueue_Dequeue_refines LFQueue_count)+

text \<open>The constructor allocates the dummy node.\<close>

lemma LFQueue_of_pool:
  assumes "pool_good p" "lp_use_ctor p" "lp_used p = {a}" "ln_next (lp_obj p a) = 0" "allocator_ok al" "ctor_clears_next ops"
  shows "LQ_repr ops al \<lparr>lq_nodePool = p, lq_headStamp = a, lq_tailStamp = a, lq_nodeCount = 0\<rparr> []"
proof -
  have "user_addr a" "a \<noteq> 0" using pool_good_used [OF assms(1)] assms(3) by auto
  then have "LQ_nodes \<lparr>lq_nodePool = p, lq_headStamp = a, lq_tailStamp = a, lq_nodeCount = 0\<rparr> [a]"
    using assms(3,4) by (simp add: LQ_nodes_def node_nexts_def user_addr_mask)
  then show ?thesis using assms by (auto simp: LQ_repr_def)
qed

lemma LFQueue_ctor_repr:
  assumes "LFObjectPool_ctor ops al max_app this off 0 True h = Inr p" "pool_good p" "lp_used p = {}" "lp_use_ctor p"
    and "allocator_ok al" "ctor_clears_next ops"
  shows "LFQueue_ctor ops al max_app this off h = Some (Inl BadAlloc) \<or>
    (\<exists>q. LFQueue_ctor ops al max_app this off h = Some (Inr q) \<and> LQ_repr ops al q [])"
  using pool_good_Alloc [OF assms(5,2), of ops]
proof (elim disjE exE conjE)
  fix a p1
  assume a: "LFObjectPool_Alloc ops al p = Some (Inr (a, p1))" "pool_good p1" "lp_used p1 = insert a (lp_used p)"
    "lp_use_ctor p1 = lp_use_ctor p"
  then obtain p2 where p2: "lp_write a (\<lambda>n. n\<lparr>ln_next := 0\<rparr>) p1 = Inr p2" "pool_good p2" "lp_used p2 = lp_used p1"
      "lp_use_ctor p2 = lp_use_ctor p1" "lp_obj p2 = (lp_obj p1)(a := (lp_obj p1 a)\<lparr>ln_next := 0\<rparr>)"
    using lp_write_used [OF a(2), of a "\<lambda>n. n\<lparr>ln_next := 0\<rparr>"] by auto
  then have "LQ_repr ops al \<lparr>lq_nodePool = p2, lq_headStamp = a, lq_tailStamp = a, lq_nodeCount = 0\<rparr> []"
    using a assms by (intro LFQueue_of_pool) auto
  moreover have "LFQueue_ctor ops al max_app this off h =
      Some (Inr \<lparr>lq_nodePool = p2, lq_headStamp = a, lq_tailStamp = a, lq_nodeCount = 0\<rparr>)"
    using assms(1) a(1) p2(1) by (simp add: LFQueue_ctor_def)
  ultimately show ?thesis by blast
qed (simp add: LFQueue_ctor_def assms(1))

section \<open>Properties\<close>

text \<open>C6: The queue is a first-in first-out queue: started on a queue that holds \<open>xs\<close> (oldest first),
  any sequence of enqueues and dequeues returns (no loop spins), its only failure is exhausted
  memory, every dequeue delivers what the same sequence delivers on a list with insertion at the end
  (nothing when it is empty), and the counter ends as the number of elements. The counter is a
  32-bit \<open>int\<close>, so the elements held must stay below \<open>2 ^ 31\<close>.\<close>

lemma list_run_length: "length (snd (list_run (\<lambda>x xs. xs @ [x]) cs xs)) \<le> length xs + length cs"
proof (induction "\<lambda>x xs. xs @ [x] :: 'a list" cs xs rule: list_run.induct)
  case (2 x cs xs)
  then show ?case by simp
qed (simp_all add: split_beta)

theorem lf_queue_refines_list:
  assumes "LQ_repr ops al q xs" "length xs + length cs < 2 ^ 31"
  shows "cont_run (LFQueue_Enqueue ops al) (LFQueue_Dequeue ops) cs q = Some (Inl BadAlloc) \<or>
    (\<exists>q'. cont_run (LFQueue_Enqueue ops al) (LFQueue_Dequeue ops) cs q =
        Some (Inr (fst (list_run (\<lambda>x xs. xs @ [x]) cs xs), q')) \<and>
      LQ_repr ops al q' (snd (list_run (\<lambda>x xs. xs @ [x]) cs xs)) \<and>
      LFQueue_GetUseCount q' = of_nat (length (snd (list_run (\<lambda>x xs. xs @ [x]) cs xs))))"
proof (rule lfqueue.run_refines [OF assms(1)])
  show "length (snd (list_run (\<lambda>x xs. xs @ [x]) (take k cs) xs)) < 2 ^ 31" for k
    using list_run_length [of "take k cs" xs] assms(2) by simp
qed

definition one_node_pool :: "nat lnode LFObjectPool" where
  "one_node_pool = \<lparr>lp_integrity = 7, lp_top_stamp = 0, lp_object_offset = 16, lp_use_ctor = True,
     lp_capacity = 1, lp_use_count = 1, lp_heap = [0x1000 \<mapsto> new_pool_node nat_node_ops 7]\<rparr>"

lemma one_node_pool_good: "pool_good one_node_pool" "lp_used one_node_pool = {0x1010}"
proof -
  have own: "own_nodes 7 [0x1000 \<mapsto> new_pool_node nat_node_ops 7] = {0x1000}"
    by (auto simp: own_nodes_def new_pool_node_def)
  have "pool_ok 7 [0x1000 \<mapsto> new_pool_node nat_node_ops 7] 0 []"
    unfolding pool_ok_def own by (simp add: app_addr_def node_intact_def new_pool_node_def)
  note ok = this busy_ok [OF this, unfolded own]
  then show "pool_good one_node_pool" "lp_used one_node_pool = {0x1010}"
    by (auto simp: pool_good_def LP_inv_def pool_inv_def one_node_pool_def lp_used_def shift_def)
qed

definition empty_queue :: "nat LFQueue" where
  "empty_queue = \<lparr>lq_nodePool = one_node_pool, lq_headStamp = 0x1010, lq_tailStamp = 0x1010, lq_nodeCount = 0\<rparr>"

lemma empty_queue_repr: "LQ_repr nat_node_ops two_nodes empty_queue []"
  unfolding empty_queue_def
proof (rule LFQueue_of_pool)
  show "lp_use_ctor one_node_pool" "ln_next (lp_obj one_node_pool 0x1010) = 0"
    by (simp_all add: one_node_pool_def lp_obj_def new_pool_node_def nat_node_ops_def node_ops_def)
qed (simp_all add: one_node_pool_good two_nodes_ok nat_node_ops_def node_ops_clear)

theorem lf_queue_refines_list_witness:
  "cont_run (LFQueue_Enqueue nat_node_ops two_nodes) (LFQueue_Dequeue nat_node_ops) [Insert 5, Remove, Remove]
      empty_queue = Some (Inl BadAlloc) \<or>
    (\<exists>q'. cont_run (LFQueue_Enqueue nat_node_ops two_nodes) (LFQueue_Dequeue nat_node_ops) [Insert 5, Remove, Remove]
        empty_queue = Some (Inr ([Some 5, None], q')) \<and> LFQueue_GetUseCount q' = 0)"
proof -
  let ?cs = "[Insert 5, Remove, Remove] :: nat cont_call list"
  have eq: "list_run (\<lambda>x xs. xs @ [x]) ?cs [] = ([Some 5, None], [])" by simp
  have len: "length [] + length ?cs < 2 ^ 31" by simp
  from lf_queue_refines_list [OF empty_queue_repr len, unfolded eq fst_conv snd_conv] show ?thesis
    by (elim disjE exE conjE) (rule disjI1, assumption, intro disjI2 exI conjI, assumption, simp)
qed

end
