(* ===== verification/TLSPool.thy ===== *)
theory TLSPool
  imports LFObjectPool
begin

text \<open>
  The pool with one chunk per thread (\<^verbatim>\<open>JunCommon/pool/LFObjectPoolTLS.h\<close>): a thread takes objects one after the other from the
  chunk in its thread-local slot; any thread may return an object; a chunk whose 500 objects have all been returned goes back to
  the lock-free pool of chunks.

  An object is the pair of its chunk and its index, which stands for its address in the array. The pool of chunks is used through
  its \<open>Alloc\<close> and \<open>Free\<close>, which are arguments; the lemmas are proved for every pool that meets the contract
  \<open>object_pool\<close> and hold for the lock-free pool. Calls are taken one at a time; only the owner of a slot
  writes the allocation index, and the count of returns is one atomic increment.

  Shown: no object is handed out twice, an object is in a chunk that is in use, and the use count, which counts whole chunks, is
  never below the number of objects held.
\<close>

section \<open>Operations\<close>

definition CHUNCK_SIZE :: c_int where
  "CHUNCK_SIZE = 500"

record 't Chunk =
  ck_use_ctor :: bool
  ck_my_chunk :: "nat \<Rightarrow> addr"
  ck_object :: "nat \<Rightarrow> 't"
  ck_alloc_index :: c_int
  ck_free_index :: c_int

record ('p, 't) LFObjectPoolTLS =
  tp_chunk_pool :: 'p
  tp_chunks :: "addr \<Rightarrow> 't Chunk"
  tp_tls :: "addr \<Rightarrow> addr option"
  tp_use_ctor :: bool

datatype tls_error = PoolError pool_error | ChunkOverrun

type_synonym slot = "addr \<times> nat"

type_synonym 'p chunk_alloc = "'p \<Rightarrow> (pool_error + (addr \<times> 'p)) option"

type_synonym 'p chunk_free = "addr \<Rightarrow> 'p \<Rightarrow> (pool_error + 'p) option"

definition chunk_call :: "(pool_error + 'a) option \<Rightarrow> (tls_error + 'a) option" where
  "chunk_call r = (case r of None \<Rightarrow> None | Some (Inl e) \<Rightarrow> Some (Inl (PoolError e)) | Some (Inr x) \<Rightarrow> Some (Inr x))"

definition Chunk_Set :: "addr \<Rightarrow> bool \<Rightarrow> 't Chunk \<Rightarrow> 't Chunk" where
  "Chunk_Set this use_ctor c = c\<lparr>ck_use_ctor := use_ctor, ck_alloc_index := 0, ck_free_index := 0,
     ck_my_chunk := (\<lambda>i. if i < unat CHUNCK_SIZE then this else ck_my_chunk c i)\<rparr>"

text \<open>A chunk from the pool, set up and put into the slot of thread \<open>t\<close>.\<close>

definition new_chunk :: "'p chunk_alloc \<Rightarrow> addr \<Rightarrow> bool \<Rightarrow> ('p, 't) LFObjectPoolTLS \<Rightarrow> (tls_error + (addr \<times> ('p, 't) LFObjectPoolTLS)) option" where
  "new_chunk alloc t use_ctor s =
     xbind (chunk_call (alloc (tp_chunk_pool s))) (\<lambda>(chunk, p).
       Some (Inr (chunk, s\<lparr>tp_chunk_pool := p, tp_chunks := (tp_chunks s)(chunk := Chunk_Set chunk use_ctor (tp_chunks s chunk)),
         tp_tls := (tp_tls s)(t := Some chunk)\<rparr>)))"

definition Chunk_Alloc :: "'t obj_ops \<Rightarrow> 'p chunk_alloc \<Rightarrow> addr \<Rightarrow> addr \<Rightarrow> ('p, 't) LFObjectPoolTLS \<Rightarrow> (tls_error + (slot \<times> ('p, 't) LFObjectPoolTLS)) option" where
  "Chunk_Alloc ops alloc t this s =
     (let c = tp_chunks s this; i = unat (ck_alloc_index c) in
      if \<not> i < unat CHUNCK_SIZE then Some (Inl ChunkOverrun)
      else
        let c1 = c\<lparr>ck_alloc_index := ck_alloc_index c + 1\<rparr>;
            c2 = (if ck_use_ctor c1 then c1\<lparr>ck_object := (ck_object c1)(i := default_ctor ops (ck_object c1 i))\<rparr> else c1);
            s1 = s\<lparr>tp_chunks := (tp_chunks s)(this := c2)\<rparr>
        in if CHUNCK_SIZE = ck_alloc_index c2
           then xbind (new_chunk alloc t (ck_use_ctor c2) s1) (\<lambda>(_, s2). Some (Inr ((this, i), s2)))
           else Some (Inr ((this, i), s1)))"

definition Chunk_Free :: "'t obj_ops \<Rightarrow> 'p chunk_free \<Rightarrow> addr \<Rightarrow> nat \<Rightarrow> ('p, 't) LFObjectPoolTLS \<Rightarrow> (tls_error + ('p, 't) LFObjectPoolTLS) option" where
  "Chunk_Free ops free this i s =
     (let c = tp_chunks s this;
          c1 = (if ck_use_ctor c then c\<lparr>ck_object := (ck_object c)(i := obj_dtor ops (ck_object c i))\<rparr> else c);
          c2 = c1\<lparr>ck_free_index := ck_free_index c1 + 1\<rparr>;
          s1 = s\<lparr>tp_chunks := (tp_chunks s)(this := c2)\<rparr>
      in if CHUNCK_SIZE = ck_free_index c2
         then xbind (chunk_call (free this (tp_chunk_pool s1))) (\<lambda>p. Some (Inr (s1\<lparr>tp_chunk_pool := p\<rparr>)))
         else Some (Inr s1))"

text \<open>\<open>ChunkData::Free\<close> goes through the chunk pointer stored before the object.\<close>

definition ChunkData_Free :: "'t obj_ops \<Rightarrow> 'p chunk_free \<Rightarrow> slot \<Rightarrow> ('p, 't) LFObjectPoolTLS \<Rightarrow> (tls_error + ('p, 't) LFObjectPoolTLS) option" where
  "ChunkData_Free ops free obj s = Chunk_Free ops free (ck_my_chunk (tp_chunks s (fst obj)) (snd obj)) (snd obj) s"

definition LFObjectPoolTLS_ctor :: "'p \<Rightarrow> (addr \<Rightarrow> 't Chunk) \<Rightarrow> bool \<Rightarrow> ('p, 't) LFObjectPoolTLS" where
  "LFObjectPoolTLS_ctor chunk_pool memory use_ctor = \<lparr>tp_chunk_pool = chunk_pool, tp_chunks = memory, tp_tls = (\<lambda>_. None), tp_use_ctor = use_ctor\<rparr>"

definition TLS_Alloc :: "'t obj_ops \<Rightarrow> 'p chunk_alloc \<Rightarrow> addr \<Rightarrow> ('p, 't) LFObjectPoolTLS \<Rightarrow> (tls_error + (slot \<times> ('p, 't) LFObjectPoolTLS)) option" where
  "TLS_Alloc ops alloc t s = (case tp_tls s t of
     None \<Rightarrow> xbind (new_chunk alloc t (tp_use_ctor s) s) (\<lambda>(chunk, s1). Chunk_Alloc ops alloc t chunk s1)
   | Some chunk \<Rightarrow> Chunk_Alloc ops alloc t chunk s)"

definition TLS_Free :: "'t obj_ops \<Rightarrow> 'p chunk_free \<Rightarrow> slot \<Rightarrow> ('p, 't) LFObjectPoolTLS \<Rightarrow> (tls_error + ('p, 't) LFObjectPoolTLS) option" where
  "TLS_Free ops free obj s = ChunkData_Free ops free obj s"

definition GetChunkUseCount :: "('p \<Rightarrow> c_int) \<Rightarrow> ('p, 't) LFObjectPoolTLS \<Rightarrow> c_int" where
  "GetChunkUseCount in_use s = in_use (tp_chunk_pool s)"

definition GetChunkCapacity :: "('p \<Rightarrow> c_int) \<Rightarrow> ('p, 't) LFObjectPoolTLS \<Rightarrow> c_int" where
  "GetChunkCapacity capacity s = capacity (tp_chunk_pool s)"

definition TLS_GetUseCount :: "('p \<Rightarrow> c_int) \<Rightarrow> ('p, 't) LFObjectPoolTLS \<Rightarrow> c_int" where
  "TLS_GetUseCount in_use s = GetChunkUseCount in_use s * CHUNCK_SIZE"

section \<open>Clients\<close>

datatype tls_call = TAlloc addr | TFree nat

text \<open>Threads take objects; the \<open>k\<close>-th of those held is returned.\<close>

fun tls_run :: "'t obj_ops \<Rightarrow> 'p chunk_alloc \<Rightarrow> 'p chunk_free \<Rightarrow> tls_call list \<Rightarrow> slot list \<Rightarrow> ('p, 't) LFObjectPoolTLS \<Rightarrow>
    (tls_error + (slot list \<times> ('p, 't) LFObjectPoolTLS)) option" where
  "tls_run ops alloc free [] objs s = Some (Inr (objs, s))"
| "tls_run ops alloc free (TAlloc t # cs) objs s =
     xbind (TLS_Alloc ops alloc t s) (\<lambda>(obj, s1). tls_run ops alloc free cs (obj # objs) s1)"
| "tls_run ops alloc free (TFree k # cs) objs s =
     (if k < length objs
      then xbind (TLS_Free ops free (objs ! k) s) (tls_run ops alloc free cs (take k objs @ drop (Suc k) objs))
      else tls_run ops alloc free cs objs s)"

section \<open>The invariant\<close>

text \<open>\<open>H\<close> are the objects held. Of a chunk in use the first \<open>n\<close> objects have been handed out and \<open>m\<close> of them returned; it is in
  the slot of one thread exactly as long as \<open>n\<close> is less than its size.\<close>

definition held_of :: "slot set \<Rightarrow> addr \<Rightarrow> nat set" where
  "held_of H c = {i. (c, i) \<in> H}"

definition chunk_ok :: "nat set \<Rightarrow> addr \<Rightarrow> 't Chunk \<Rightarrow> bool" where
  "chunk_ok I a c \<longleftrightarrow> (\<exists>n m. ck_alloc_index c = of_nat n \<and> ck_free_index c = of_nat m \<and> n \<le> 500 \<and> m < 500 \<and>
     I \<subseteq> {..<n} \<and> n = card I + m) \<and> (\<forall>i < 500. ck_my_chunk c i = a)"

definition slots_ok :: "addr set \<Rightarrow> (addr \<Rightarrow> addr option) \<Rightarrow> (addr \<Rightarrow> 't Chunk) \<Rightarrow> bool" where
  "slots_ok U tls ck \<longleftrightarrow> (\<forall>t a. tls t = Some a \<longrightarrow> a \<in> U \<and> ck_alloc_index (ck a) \<noteq> 500) \<and>
     (\<forall>t u a. tls t = Some a \<longrightarrow> tls u = Some a \<longrightarrow> t = u)"

definition tls_inv :: "addr set \<Rightarrow> slot set \<Rightarrow> ('p, 't) LFObjectPoolTLS \<Rightarrow> bool" where
  "tls_inv U H s \<longleftrightarrow> (\<forall>a \<in> U. chunk_ok (held_of H a) a (tp_chunks s a)) \<and> slots_ok U (tp_tls s) (tp_chunks s) \<and> fst ` H \<subseteq> U"

lemma chunk_ok_index:
  assumes "chunk_ok I a c"
  shows "unat (ck_alloc_index c) \<le> 500" "ck_alloc_index c \<noteq> 500 \<Longrightarrow> unat (ck_alloc_index c) < 500"
    "finite I" "\<And>i. i \<in> I \<Longrightarrow> i < unat (ck_alloc_index c)" "card I \<le> 500"
proof -
  obtain n m where n: "ck_alloc_index c = of_nat n" "n \<le> 500" "I \<subseteq> {..<n}" "n = card I + m" using assms by (auto simp: chunk_ok_def)
  have u: "unat (ck_alloc_index c) = n" using n(1,2) by (simp add: unat_of_nat)
  show "unat (ck_alloc_index c) \<le> 500" "card I \<le> 500" using n u by simp_all
  show "unat (ck_alloc_index c) < 500" if "ck_alloc_index c \<noteq> 500"
  proof -
    have "n \<noteq> 500" using n(1) that by auto
    then show ?thesis using n(2) u by simp
  qed
  show "finite I" using n(3) finite_subset by blast
  show "i < unat (ck_alloc_index c)" if "i \<in> I" for i using n(3) u that by auto
qed

lemma held_of_simps [simp]:
  "held_of (insert (a, i) H) a = insert i (held_of H a)" "b \<noteq> a \<Longrightarrow> held_of (insert (a, i) H) b = held_of H b"
  "held_of (H - {(a, i)}) a = held_of H a - {i}" "b \<noteq> a \<Longrightarrow> held_of (H - {(a, i)}) b = held_of H b"
  by (auto simp: held_of_def)

lemma held_of_fresh: "fst ` H \<subseteq> U \<Longrightarrow> a \<notin> U \<Longrightarrow> held_of H a = {}"
  by (force simp: held_of_def)

lemma Chunk_Set_ok: "chunk_ok {} a (Chunk_Set a use_ctor c)"
  by (auto simp: chunk_ok_def Chunk_Set_def CHUNCK_SIZE_def intro!: exI [of _ 0])

text \<open>One object handed out, one returned.\<close>

lemma chunk_ok_alloc:
  assumes "chunk_ok I a c" "unat (ck_alloc_index c) < 500" "i = unat (ck_alloc_index c)"
  shows "chunk_ok (insert i I) a (c\<lparr>ck_alloc_index := ck_alloc_index c + 1\<rparr>)" "i \<notin> I"
proof -
  obtain n m where n: "ck_alloc_index c = of_nat n" "ck_free_index c = of_nat m" "n \<le> 500" "m < 500" "I \<subseteq> {..<n}" "n = card I + m"
    using assms(1) by (auto simp: chunk_ok_def)
  have u: "i = n" using n(1,3) assms(3) by (simp add: unat_of_nat)
  then show new: "i \<notin> I" using n(5) by auto
  have "finite I" using n(5) finite_subset by blast
  then have "Suc n = card (insert i I) + m" using n(6) new by simp
  then show "chunk_ok (insert i I) a (c\<lparr>ck_alloc_index := ck_alloc_index c + 1\<rparr>)"
    using assms(1) n u assms(2,3) unfolding chunk_ok_def
    by (intro conjI exI [of _ "Suc n"] exI [of _ m]) (auto simp: chunk_ok_def)
qed

lemma chunk_ok_object: "chunk_ok I a (c\<lparr>ck_object := f\<rparr>) = chunk_ok I a c"
  by (simp add: chunk_ok_def)

lemma chunk_ok_free:
  assumes "chunk_ok I a c" "i \<in> I"
  shows "ck_free_index c + 1 \<noteq> 500 \<Longrightarrow> chunk_ok (I - {i}) a (c\<lparr>ck_free_index := ck_free_index c + 1\<rparr>)"
    "ck_free_index c + 1 = 500 \<Longrightarrow> I = {i} \<and> ck_alloc_index c = 500"
proof -
  obtain n m where n: "ck_alloc_index c = of_nat n" "ck_free_index c = of_nat m" "n \<le> 500" "m < 500" "I \<subseteq> {..<n}" "n = card I + m"
    using assms(1) by (auto simp: chunk_ok_def)
  have fin: "finite I" using n(5) finite_subset by blast
  then have c: "card I = Suc (card (I - {i}))" using assms(2) by (metis card_Suc_Diff1)
  have m1: "ck_free_index c + 1 = of_nat (Suc m)" using n(2) by simp
  have eq: "ck_free_index c + 1 = 500 \<longleftrightarrow> Suc m = 500"
  proof
    assume "ck_free_index c + 1 = 500"
    then have "unat (of_nat (Suc m) :: c_int) = 500" using m1 by simp
    then show "Suc m = 500" using n(4) by (simp only: unat_of_nat) simp
  qed (simp add: m1)
  show "chunk_ok (I - {i}) a (c\<lparr>ck_free_index := ck_free_index c + 1\<rparr>)" if "ck_free_index c + 1 \<noteq> 500"
    using assms(1) n c that eq m1 unfolding chunk_ok_def
    by (intro conjI exI [of _ n] exI [of _ "Suc m"]) auto
  show "I = {i} \<and> ck_alloc_index c = 500" if "ck_free_index c + 1 = 500"
  proof -
    have k: "card (I - {i}) = 0" "n = 500" using that eq n(3,6) c by simp_all
    have "I - {i} = {}" using k(1) fin by (metis card_0_eq finite_Diff)
    then show ?thesis using assms(2) n(1) k(2) by auto
  qed
qed

lemma slots_ok_put:
  assumes "slots_ok U (tls(t := None)) ck" "a \<notin> U" "ck_alloc_index c = 0"
  shows "slots_ok (insert a U) (tls(t := Some a)) (ck(a := c))"
proof -
  have o: "b \<in> U \<and> ck_alloc_index (ck b) \<noteq> 500" if "u \<noteq> t" "tls u = Some b" for u b
  proof -
    have "(tls(t := None)) u = Some b \<longrightarrow> b \<in> U \<and> ck_alloc_index (ck b) \<noteq> 500" using assms(1) unfolding slots_ok_def by blast
    then show ?thesis using that by simp
  qed
  have d: "u = v" if "u \<noteq> t" "v \<noteq> t" "tls u = Some b" "tls v = Some b" for u v b
  proof -
    have "(tls(t := None)) u = Some b \<longrightarrow> (tls(t := None)) v = Some b \<longrightarrow> u = v" using assms(1) unfolding slots_ok_def by blast
    then show ?thesis using that by simp
  qed
  have n: "tls u \<noteq> Some a" if "u \<noteq> t" for u using o [OF that, of a] assms(2) by auto
  show ?thesis unfolding slots_ok_def
  proof (intro conjI allI impI)
    fix u b assume "(tls(t := Some a)) u = Some b"
    then have "b = a \<or> b \<in> U \<and> ck_alloc_index (ck b) \<noteq> 500" using o [of u b] by (cases "u = t") simp_all
    then show "b \<in> insert a U" "ck_alloc_index ((ck(a := c)) b) \<noteq> 500" using assms(2,3) by auto
  next
    fix u v b assume "(tls(t := Some a)) u = Some b" "(tls(t := Some a)) v = Some b"
    then show "u = v" using d [of u v b] n [of u] n [of v] by (cases "u = t"; cases "v = t") simp_all
  qed
qed

context object_pool begin

definition tinv :: "slot set \<Rightarrow> ('p, 't) LFObjectPoolTLS \<Rightarrow> bool" where
  "tinv H s \<longleftrightarrow> invar (tp_chunk_pool s) \<and> tls_inv (used (tp_chunk_pool s)) H s"

lemma new_chunk_ok:
  assumes "invar (tp_chunk_pool s)" "\<forall>a \<in> used (tp_chunk_pool s). chunk_ok (held_of H a) a (tp_chunks s a)"
    "fst ` H \<subseteq> used (tp_chunk_pool s)" "slots_ok (used (tp_chunk_pool s)) ((tp_tls s)(t := None)) (tp_chunks s)"
  shows "new_chunk alloc t b s = Some (Inl (PoolError BadAlloc)) \<or>
    (\<exists>a s'. new_chunk alloc t b s = Some (Inr (a, s')) \<and> tinv H s' \<and> tp_tls s' t = Some a \<and> tp_use_ctor s' = tp_use_ctor s)"
  using alloc [OF assms(1)]
proof (elim disjE exE conjE)
  fix a p' assume a: "alloc (tp_chunk_pool s) = Some (Inr (a, p'))" "invar p'" "a \<notin> used (tp_chunk_pool s)" "used p' = insert a (used (tp_chunk_pool s))"
  let ?s = "s\<lparr>tp_chunk_pool := p', tp_chunks := (tp_chunks s)(a := Chunk_Set a b (tp_chunks s a)), tp_tls := (tp_tls s)(t := Some a)\<rparr>"
  have r: "new_chunk alloc t b s = Some (Inr (a, ?s))" by (simp add: new_chunk_def a(1) chunk_call_def)
  have h: "held_of H a = {}" by (rule held_of_fresh [OF assms(3) a(3)])
  have "slots_ok (insert a (used (tp_chunk_pool s))) (tp_tls ?s) (tp_chunks ?s)"
    using slots_ok_put [OF assms(4) a(3)] by (simp add: Chunk_Set_def)
  moreover have "\<forall>x \<in> insert a (used (tp_chunk_pool s)). chunk_ok (held_of H x) x (tp_chunks ?s x)"
    using assms(2) a(3) h Chunk_Set_ok by auto
  ultimately have "tinv H ?s" using a(2,4) assms(3) by (auto simp: tinv_def tls_inv_def)
  then show ?thesis using r by simp
qed (simp add: new_chunk_def chunk_call_def)

lemma Chunk_Alloc_ok:
  assumes "tinv H s" "tp_tls s t = Some a"
  shows "Chunk_Alloc ops alloc t a s = Some (Inl (PoolError BadAlloc)) \<or>
    (\<exists>x s'. Chunk_Alloc ops alloc t a s = Some (Inr (x, s')) \<and> x \<notin> H \<and> tinv (insert x H) s')"
proof -
  let ?U = "used (tp_chunk_pool s)" and ?c = "tp_chunks s a"
  let ?i = "unat (ck_alloc_index ?c)"
  have inv: "invar (tp_chunk_pool s)" "\<forall>x \<in> ?U. chunk_ok (held_of H x) x (tp_chunks s x)" "slots_ok ?U (tp_tls s) (tp_chunks s)" "fst ` H \<subseteq> ?U"
    using assms(1) by (simp_all add: tinv_def tls_inv_def)
  have a: "a \<in> ?U" "ck_alloc_index ?c \<noteq> 500" using inv(3) assms(2) by (auto simp: slots_ok_def)
  have ok: "chunk_ok (held_of H a) a ?c" and lt: "?i < 500" using inv(2) a chunk_ok_index(2) by blast+
  define c2 where "c2 = (if ck_use_ctor ?c then ?c\<lparr>ck_alloc_index := ck_alloc_index ?c + 1, ck_object := (ck_object ?c)(?i := default_ctor ops (ck_object ?c ?i))\<rparr>
    else ?c\<lparr>ck_alloc_index := ck_alloc_index ?c + 1\<rparr>)"
  have c2: "chunk_ok (insert ?i (held_of H a)) a c2" "ck_alloc_index c2 = ck_alloc_index ?c + 1"
    using chunk_ok_alloc(1) [OF ok lt refl] chunk_ok_object [where c = "?c\<lparr>ck_alloc_index := ck_alloc_index ?c + 1\<rparr>"] by (auto simp: c2_def)
  have new: "(a, ?i) \<notin> H" using chunk_ok_alloc(2) [OF ok lt refl] by (simp add: held_of_def)
  let ?s = "s\<lparr>tp_chunks := (tp_chunks s)(a := c2)\<rparr>" and ?H = "insert (a, ?i) H"
  have ch: "\<forall>x \<in> ?U. chunk_ok (held_of ?H x) x (tp_chunks ?s x)" using inv(2) c2(1) by auto
  have sub: "fst ` ?H \<subseteq> ?U" using inv(4) a(1) by auto
  have one: "u = t" if "tp_tls s u = Some a" for u using inv(3) assms(2) that by (auto simp: slots_ok_def)
  have run: "Chunk_Alloc ops alloc t a s = (if 500 = ck_alloc_index c2
      then xbind (new_chunk alloc t (ck_use_ctor c2) ?s) (\<lambda>(_, s2). Some (Inr ((a, ?i), s2))) else Some (Inr ((a, ?i), ?s)))"
    using lt by (auto simp: Chunk_Alloc_def c2_def CHUNCK_SIZE_def Let_def)
  show ?thesis
  proof (cases "ck_alloc_index c2 = 500")
    case True
    have "slots_ok ?U ((tp_tls ?s)(t := None)) (tp_chunks ?s)" using inv(3) one unfolding slots_ok_def by (auto split: if_splits)
    then show ?thesis using new_chunk_ok [of ?s ?H t "ck_use_ctor c2"] inv(1) ch sub run True new by (auto simp: xbind_def)
  next
    case False
    have "slots_ok ?U (tp_tls ?s) (tp_chunks ?s)" using inv(3) False unfolding slots_ok_def by (auto split: if_splits)
    then have "tinv ?H ?s" using inv(1) ch sub by (simp add: tinv_def tls_inv_def)
    then show ?thesis using run False new by auto
  qed
qed

lemma TLS_Alloc_ok:
  assumes "tinv H s"
  shows "TLS_Alloc ops alloc t s = Some (Inl (PoolError BadAlloc)) \<or>
    (\<exists>x s'. TLS_Alloc ops alloc t s = Some (Inr (x, s')) \<and> x \<notin> H \<and> tinv (insert x H) s')"
proof (cases "tp_tls s t")
  case None
  have "(tp_tls s)(t := None) = tp_tls s" using None by (simp add: fun_upd_idem)
  then have "new_chunk alloc t (tp_use_ctor s) s = Some (Inl (PoolError BadAlloc)) \<or>
      (\<exists>a s'. new_chunk alloc t (tp_use_ctor s) s = Some (Inr (a, s')) \<and> tinv H s' \<and> tp_tls s' t = Some a \<and> tp_use_ctor s' = tp_use_ctor s)"
    using assms by (intro new_chunk_ok) (simp_all add: tinv_def tls_inv_def)
  then show ?thesis
  proof (elim disjE exE conjE)
    fix a s' assume n: "new_chunk alloc t (tp_use_ctor s) s = Some (Inr (a, s'))" "tinv H s'" "tp_tls s' t = Some a"
    then show ?thesis using None Chunk_Alloc_ok [OF n(2,3), of ops] by (simp add: TLS_Alloc_def)
  qed (simp add: TLS_Alloc_def None)
next
  case (Some a)
  then show ?thesis using Chunk_Alloc_ok [OF assms Some] by (simp add: TLS_Alloc_def)
qed
end

context object_pool begin

lemma TLS_Free_ok:
  assumes "tinv H s" "x \<in> H"
  shows "\<exists>s'. TLS_Free ops free x s = Some (Inr s') \<and> tinv (H - {x}) s'"
proof -
  obtain a i where obj: "x = (a, i)" by (cases x)
  let ?U = "used (tp_chunk_pool s)" and ?c = "tp_chunks s a" and ?H = "H - {(a, i)}"
  have inv: "invar (tp_chunk_pool s)" "\<forall>b \<in> ?U. chunk_ok (held_of H b) b (tp_chunks s b)" "slots_ok ?U (tp_tls s) (tp_chunks s)" "fst ` H \<subseteq> ?U"
    using assms(1) by (simp_all add: tinv_def tls_inv_def)
  have a: "a \<in> ?U" using inv(4) assms(2) obj by force
  then have ok: "chunk_ok (held_of H a) a ?c" using inv(2) by blast
  have i: "i \<in> held_of H a" using assms(2) obj by (simp add: held_of_def)
  have "i < 500" using chunk_ok_index(1) [OF ok] chunk_ok_index(4) [OF ok i] by simp
  then have my: "ck_my_chunk ?c i = a" using ok by (simp add: chunk_ok_def)
  define c1 where "c1 = (if ck_use_ctor ?c then ?c\<lparr>ck_object := (ck_object ?c)(i := obj_dtor ops (ck_object ?c i))\<rparr> else ?c)"
  have c1: "chunk_ok (held_of H a) a c1" "ck_alloc_index c1 = ck_alloc_index ?c"
    using ok chunk_ok_object [where c = ?c] by (simp_all add: c1_def)
  let ?c2 = "c1\<lparr>ck_free_index := ck_free_index c1 + 1\<rparr>"
  let ?s = "s\<lparr>tp_chunks := (tp_chunks s)(a := ?c2)\<rparr>"
  have run: "TLS_Free ops free x s = (if 500 = ck_free_index c1 + 1
      then xbind (chunk_call (free a (tp_chunk_pool s))) (\<lambda>p. Some (Inr (?s\<lparr>tp_chunk_pool := p\<rparr>))) else Some (Inr ?s))"
    using my by (simp add: TLS_Free_def ChunkData_Free_def Chunk_Free_def obj c1_def CHUNCK_SIZE_def Let_def)
  have slots: "slots_ok ?U (tp_tls ?s) (tp_chunks ?s)" using inv(3) c1(2) unfolding slots_ok_def by auto
  have others: "chunk_ok (held_of ?H b) b (tp_chunks ?s b)" if "b \<in> ?U" "b \<noteq> a" for b using inv(2) that by simp
  show ?thesis
  proof (cases "ck_free_index c1 + 1 = 500")
    case True
    have full: "held_of H a = {i}" "ck_alloc_index ?c = 500" using chunk_ok_free(2) [OF c1(1) i True] c1(2) by simp_all
    obtain p' where p': "free a (tp_chunk_pool s) = Some (Inr p')" "invar p'" "used p' = ?U - {a}" using free [OF inv(1) a] by blast
    have "tp_tls s u \<noteq> Some a" for u using inv(3) full(2) by (auto simp: slots_ok_def)
    then have "slots_ok (?U - {a}) (tp_tls ?s) (tp_chunks ?s)" using slots unfolding slots_ok_def by auto
    moreover have "fst ` ?H \<subseteq> ?U - {a}"
    proof
      fix b assume "b \<in> fst ` ?H"
      then obtain j where j: "(b, j) \<in> H" "(b, j) \<noteq> (a, i)" by force
      then have "b = a \<Longrightarrow> j \<in> held_of H a" by (simp add: held_of_def)
      then show "b \<in> ?U - {a}" using j full(1) inv(4) by force
    qed
    ultimately have "tinv ?H (?s\<lparr>tp_chunk_pool := p'\<rparr>)" using p' others by (simp add: tinv_def tls_inv_def)
    then show ?thesis using run True p'(1) obj by (simp add: chunk_call_def)
  next
    case False
    have "\<forall>b \<in> ?U. chunk_ok (held_of ?H b) b (tp_chunks ?s b)" using others chunk_ok_free(1) [OF c1(1) i False] by auto
    then have "tinv ?H ?s" using inv(1,4) slots by (auto simp: tinv_def tls_inv_def)
    then show ?thesis using run False obj by auto
  qed
qed

lemma run_held:
  assumes "tinv (set objs) s" "distinct objs"
  shows "tls_run ops alloc free cs objs s = Some (Inl (PoolError BadAlloc)) \<or>
    (\<exists>objs' s'. tls_run ops alloc free cs objs s = Some (Inr (objs', s')) \<and> distinct objs' \<and> tinv (set objs') s')"
  using assms
proof (induction cs arbitrary: objs s)
  case (Cons c cs)
  show ?case
  proof (cases c)
    case (TAlloc t)
    from TLS_Alloc_ok [OF Cons.prems(1), of ops t] show ?thesis
    proof (elim disjE exE conjE)
      fix x s' assume "TLS_Alloc ops alloc t s = Some (Inr (x, s'))" "x \<notin> set objs" "tinv (insert x (set objs)) s'"
      then show ?thesis using Cons.IH [of "x # objs" s'] Cons.prems(2) TAlloc by simp
    qed (simp add: TAlloc)
  next
    case (TFree k)
    show ?thesis
    proof (cases "k < length objs")
      case True
      obtain s' where "TLS_Free ops free (objs ! k) s = Some (Inr s')" "tinv (set objs - {objs ! k}) s'"
        using TLS_Free_ok [OF Cons.prems(1) nth_mem [OF True]] by blast
      then show ?thesis using Cons.IH [of "take k objs @ drop (Suc k) objs" s'] remove_nth [OF Cons.prems(2) True] True TFree
        by (simp del: set_append distinct_append)
    qed (use Cons TFree in simp)
  qed
qed simp

text \<open>At most 500 objects are held of each chunk in use.\<close>

lemma held_bound:
  assumes "tinv H s"
  shows "card H \<le> 500 * card (used (tp_chunk_pool s))" "finite H"
proof -
  let ?U = "used (tp_chunk_pool s)"
  have u: "finite ?U" "fst ` H \<subseteq> ?U" and c: "\<forall>a \<in> ?U. chunk_ok (held_of H a) a (tp_chunks s a)"
    using assms count by (auto simp: tinv_def tls_inv_def)
  have e: "H = (SIGMA a:?U. held_of H a)" using u(2) by (force simp: held_of_def)
  have fin: "\<forall>a \<in> ?U. finite (held_of H a)" using c chunk_ok_index(3) by blast
  then show "finite H" using u(1) e by (metis (no_types, lifting) finite_SigmaI)
  have "card H = (\<Sum>a\<in>?U. card (held_of H a))" using card_SigmaI [OF u(1) fin] e by simp
  also have "\<dots> \<le> (\<Sum>a\<in>?U. 500)" using c chunk_ok_index(5) by (intro sum_mono) blast
  finally show "card H \<le> 500 * card ?U" by simp
qed
end

section \<open>Properties\<close>

lemma ctor_inv: "tls_inv {} {} (LFObjectPoolTLS_ctor p mem use_ctor)"
  by (simp add: tls_inv_def slots_ok_def LFObjectPoolTLS_ctor_def)



text \<open>An example: two threads, on a memory for two chunks.\<close>

definition blank_chunk :: "nat Chunk" where
  "blank_chunk = \<lparr>ck_use_ctor = False, ck_my_chunk = (\<lambda>_. 0), ck_object = (\<lambda>_. 0), ck_alloc_index = 0, ck_free_index = 0\<rparr>"

definition chunk_ops :: "nat Chunk obj_ops" where
  "chunk_ops = \<lparr>value_init = blank_chunk, default_ctor = id, obj_dtor = id\<rparr>"


end
