(* ===== verification/Entity.thy ===== *)
theory Entity
  imports Prelude
begin

text \<open>
  Entities and their components (\<^verbatim>\<open>JunCore/logic/Entity.h\<close> and \<^verbatim>\<open>Component.h\<close>). An entity owns a vector of components and a map
  from component types to the component found for that type; the two are kept in step by hand. Component types
  are names \<open>'k\<close>, components are addresses, and the virtual functions act on an application state \<open>'u\<close>.
  The allocator is the caller: \<open>AddComponent\<close> gets the address of the new object.

  Shown: while each type is present at most once, the map finds exactly the components of the vector, and an update
  calls each component once, in the order they were added, and none that was removed; adding a second
  component of a type hides the first one: it can be neither found nor removed any more, but is still updated; moving
  an entity leaves the owner pointers at the old address.
\<close>

section \<open>Operations\<close>

record 'u component_hooks =
  ch_OnAttach :: "addr \<Rightarrow> 'u \<Rightarrow> 'u"
  ch_OnDetach :: "addr \<Rightarrow> 'u \<Rightarrow> 'u"
  ch_OnUpdate :: "addr \<Rightarrow> 'u \<Rightarrow> 'u"
  ch_OnFixedUpdate :: "addr \<Rightarrow> 'u \<Rightarrow> 'u"

record 'k Entity =
  en_components :: "addr list"
  en_componentMap :: "'k \<rightharpoonup> addr"

text \<open>The owner pointers of all live components.\<close>

type_synonym owners = "addr \<rightharpoonup> addr"

definition Entity_ctor :: "'k Entity" where
  "Entity_ctor = \<lparr>en_components = [], en_componentMap = Map.empty\<rparr>"

definition AddComponent :: "'u component_hooks \<Rightarrow> addr \<Rightarrow> 'k \<Rightarrow> addr \<Rightarrow> 'k Entity \<times> owners \<times> 'u \<Rightarrow> addr \<times> 'k Entity \<times> owners \<times> 'u" where
  "AddComponent hk this ty ptr st =
     (let (e, own, u) = st;
          own1 = own(ptr \<mapsto> this);
          e1 = e\<lparr>en_componentMap := (en_componentMap e)(ty \<mapsto> ptr), en_components := en_components e @ [ptr]\<rparr>
      in (ptr, e1, own1, ch_OnAttach hk ptr u))"

definition GetComponent :: "'k \<Rightarrow> 'k Entity \<Rightarrow> addr option" where
  "GetComponent ty e = en_componentMap e ty"

definition HasComponent :: "'k \<Rightarrow> 'k Entity \<Rightarrow> bool" where
  "HasComponent ty e \<longleftrightarrow> en_componentMap e ty \<noteq> None"

definition RemoveComponent :: "'u component_hooks \<Rightarrow> 'k \<Rightarrow> 'k Entity \<times> owners \<times> 'u \<Rightarrow> bool \<times> 'k Entity \<times> owners \<times> 'u" where
  "RemoveComponent hk ty st =
     (let (e, own, u) = st in
      case en_componentMap e ty of
        None \<Rightarrow> (False, st)
      | Some target \<Rightarrow>
          (True, e\<lparr>en_components := remove1 target (en_components e), en_componentMap := (en_componentMap e)(ty := None)\<rparr>,
           own(target := None), ch_OnDetach hk target u))"

definition UpdateComponents :: "'u component_hooks \<Rightarrow> 'k Entity \<Rightarrow> 'u \<Rightarrow> 'u" where
  "UpdateComponents hk e u = fold (ch_OnUpdate hk) (en_components e) u"

definition FixedUpdateComponents :: "'u component_hooks \<Rightarrow> 'k Entity \<Rightarrow> 'u \<Rightarrow> 'u" where
  "FixedUpdateComponents hk e u = fold (ch_OnFixedUpdate hk) (en_components e) u"

definition GetOwner :: "owners \<Rightarrow> addr \<Rightarrow> addr option" where
  "GetOwner own component = own component"

text \<open>The default move: the new entity and what is left of the old one. No component is told.\<close>

definition Entity_move :: "'k Entity \<Rightarrow> 'k Entity \<times> 'k Entity" where
  "Entity_move other = (other, Entity_ctor)"

section \<open>The vector and the map\<close>

text \<open>A program of additions and removals on one entity.\<close>

datatype 'k entity_op = OpAdd 'k addr | OpRemove 'k

fun entity_step :: "'u component_hooks \<Rightarrow> addr \<Rightarrow> 'k entity_op \<Rightarrow> 'k Entity \<times> owners \<times> 'u \<Rightarrow> 'k Entity \<times> owners \<times> 'u" where
  "entity_step hk this (OpAdd ty ptr) st = snd (AddComponent hk this ty ptr st)"
| "entity_step hk this (OpRemove ty) st = snd (RemoveComponent hk ty st)"

text \<open>The components that are there, with their types, in the order of the additions.\<close>

fun present :: "('k \<times> addr) list \<Rightarrow> 'k entity_op list \<Rightarrow> ('k \<times> addr) list" where
  "present ps [] = ps"
| "present ps (OpAdd ty ptr # ops) = present (ps @ [(ty, ptr)]) ops"
| "present ps (OpRemove ty # ops) = present (filter (\<lambda>p. fst p \<noteq> ty) ps) ops"

text \<open>A type is added only while it is absent, at an address that is not in use.\<close>

fun once_each :: "('k \<times> addr) list \<Rightarrow> 'k entity_op list \<Rightarrow> bool" where
  "once_each ps [] = True"
| "once_each ps (OpAdd ty ptr # ops) \<longleftrightarrow> ty \<notin> fst ` set ps \<and> ptr \<notin> snd ` set ps \<and> once_each (ps @ [(ty, ptr)]) ops"
| "once_each ps (OpRemove ty # ops) \<longleftrightarrow> once_each (filter (\<lambda>p. fst p \<noteq> ty) ps) ops"

definition holds :: "addr \<Rightarrow> ('k \<times> addr) list \<Rightarrow> 'k Entity \<times> owners \<times> 'u \<Rightarrow> bool" where
  "holds this ps st \<longleftrightarrow> en_components (fst st) = map snd ps \<and> en_componentMap (fst st) = map_of ps \<and>
     distinct (map fst ps) \<and> distinct (map snd ps) \<and> fst (snd st) = (\<lambda>a. if a \<in> snd ` set ps then Some this else None)"

lemma map_of_filter_key: "map_of (filter (\<lambda>p. fst p \<noteq> k) ps) = (map_of ps)(k := None)"
  by (induction ps) (auto simp: fun_eq_iff)

lemma filter_absent_key: "k \<notin> fst ` set ps \<Longrightarrow> filter (\<lambda>p. fst p \<noteq> k) ps = ps"
  by (induction ps) auto

lemma remove1_key:
  assumes "distinct (map fst ps)" "distinct (map snd ps)" "(k, a) \<in> set ps"
  shows "remove1 a (map snd ps) = map snd (filter (\<lambda>p. fst p \<noteq> k) ps)"
  using assms
proof (induction ps)
  case (Cons p ps)
  show ?case
  proof (cases "p = (k, a)")
    case True
    then have "k \<notin> fst ` set ps" using Cons.prems(1) by auto
    then show ?thesis using True by (simp add: filter_absent_key)
  next
    case False
    then have in_ps: "(k, a) \<in> set ps" using Cons.prems(3) by simp
    then have "k \<in> fst ` set ps" "a \<in> snd ` set ps" by (auto intro: rev_image_eqI)
    then have "fst p \<noteq> k" "snd p \<noteq> a" using Cons.prems(1,2) by auto
    then show ?thesis using Cons in_ps by simp
  qed
qed simp

lemma holds_add:
  assumes "holds this ps st" "ty \<notin> fst ` set ps" "ptr \<notin> snd ` set ps"
  shows "holds this (ps @ [(ty, ptr)]) (snd (AddComponent hk this ty ptr st))"
proof -
  have "map_of (ps @ [(ty, ptr)]) = (map_of ps)(ty \<mapsto> ptr)"
    using assms(2) by (auto simp: map_of_append fun_eq_iff map_add_def map_of_eq_None_iff [symmetric] split: option.splits)
  then show ?thesis using assms by (auto simp: holds_def AddComponent_def split_beta)
qed

lemma holds_remove:
  assumes "holds this ps st"
  shows "holds this (filter (\<lambda>p. fst p \<noteq> ty) ps) (snd (RemoveComponent hk ty st))"
proof (cases "map_of ps ty")
  case None
  then have "ty \<notin> fst ` set ps" by (simp add: map_of_eq_None_iff)
  then show ?thesis using assms None by (simp add: filter_absent_key holds_def RemoveComponent_def split_beta)
next
  case (Some a)
  have d: "distinct (map fst ps)" "distinct (map snd ps)" using assms by (simp_all add: holds_def)
  have a: "(ty, a) \<in> set ps" using Some by (rule map_of_SomeD)
  have "b \<in> snd ` set (filter (\<lambda>p. fst p \<noteq> ty) ps) \<longleftrightarrow> b \<in> snd ` set ps \<and> b \<noteq> a" for b
  proof -
    have "map snd (filter (\<lambda>p. fst p \<noteq> ty) ps) = removeAll a (map snd ps)"
      using remove1_key [OF d a] d(2) by (simp add: distinct_remove1_removeAll)
    then have "set (map snd (filter (\<lambda>p. fst p \<noteq> ty) ps)) = set (map snd ps) - {a}" by simp
    then show ?thesis by auto
  qed
  moreover have "distinct (map snd (filter (\<lambda>p. fst p \<noteq> ty) ps))" "distinct (map fst (filter (\<lambda>p. fst p \<noteq> ty) ps))"
    using d by (simp_all add: distinct_map_filter)
  ultimately show ?thesis using assms Some d remove1_key [OF d a]
    by (simp add: holds_def RemoveComponent_def split_beta map_of_filter_key fun_eq_iff)
qed

lemma entity_run:
  "holds this ps st \<Longrightarrow> once_each ps ops \<Longrightarrow> holds this (present ps ops) (fold (entity_step hk this) ops st)"
proof (induction ops arbitrary: ps st)
  case (Cons op ops)
  show ?case
  proof (cases op)
    case (OpAdd ty ptr)
    then show ?thesis using Cons.prems Cons.IH [OF holds_add [OF Cons.prems(1), of ty ptr hk]] by simp
  next
    case (OpRemove ty)
    then show ?thesis using Cons.prems Cons.IH [OF holds_remove [OF Cons.prems(1), of ty hk]] by simp
  qed
qed simp

lemma holds_ctor: "holds this [] (Entity_ctor, Map.empty, u)"
  by (simp add: holds_def Entity_ctor_def)

section \<open>Properties\<close>

text \<open>An entity's map and vector agree: over any sequence of additions and removals in which a type is added only while
  absent, \<open>GetComponent\<close> finds exactly the components added and not removed, every one of them belongs to the entity,
  and an update calls each of them once, in the order of the additions, and nothing else.\<close>

lemma entity_components_exact:
  assumes "once_each [] ops" "fold (entity_step hk this) ops (Entity_ctor, Map.empty, u) = (e, own, u')"
  shows "GetComponent ty e = map_of (present [] ops) ty \<and> distinct (en_components e) \<and> en_components e = map snd (present [] ops) \<and>
    GetOwner own c = (if c \<in> set (en_components e) then Some this else None) \<and>
    UpdateComponents hk e u' = fold (ch_OnUpdate hk) (map snd (present [] ops)) u' \<and>
    (GetComponent ty e = Some c \<longrightarrow> c \<in> set (en_components e))"
proof -
  have h: "holds this (present [] ops) (e, own, u')" using entity_run [OF holds_ctor assms(1), of this hk u] assms(2) by simp
  then have "GetComponent ty e = Some c \<Longrightarrow> c \<in> set (en_components e)"
    by (auto simp: holds_def GetComponent_def dest: map_of_SomeD intro: rev_image_eqI)
  then show ?thesis using h by (auto simp: holds_def GetComponent_def GetOwner_def UpdateComponents_def)
qed

lemma entity_components_exact_example:
  "\<exists>e own u'. fold (entity_step \<lparr>ch_OnAttach = (\<lambda>_ u. u), ch_OnDetach = (\<lambda>_ u. u), ch_OnUpdate = (\<lambda>c u. u @ [c]), ch_OnFixedUpdate = (\<lambda>_ u. u)\<rparr> 1)
      [OpAdd ''move'' 10, OpAdd ''view'' 20, OpRemove ''move''] (Entity_ctor, Map.empty, []) = (e, own, u') \<and>
    GetComponent ''move'' e = None \<and> en_components e = [20]"
proof -
  let ?hk = "\<lparr>ch_OnAttach = (\<lambda>_ u. u), ch_OnDetach = (\<lambda>_ u. u), ch_OnUpdate = (\<lambda>c u. u @ [c]), ch_OnFixedUpdate = (\<lambda>_ u. u)\<rparr> :: addr list component_hooks"
  let ?ops = "[OpAdd ''move'' 10, OpAdd ''view'' 20, OpRemove ''move'']"
  obtain e own u' where r: "fold (entity_step ?hk 1) ?ops (Entity_ctor, Map.empty, []) = (e, own, u')" by (metis prod.exhaust)
  have "once_each [] ?ops" "present [] ?ops = [(''view'', 20)]" by simp_all
  with entity_components_exact [OF _ r, of "''move''"] have "GetComponent ''move'' e = None" "en_components e = [20]" by simp_all
  with r show ?thesis by blast
qed

text \<open>A second component of a type hides the first: after a removal the first is neither found nor removable, but still
  stands in the vector.\<close>

lemma hidden_component:
  assumes "en_componentMap e ty = Some a" "a \<in> set (en_components e)" "b \<notin> set (en_components e)" "AddComponent hk this ty b (e, own, u) = (r, st1)"
    and "RemoveComponent hk ty st1 = (ok, e2, own2, u2)"
  shows "ok \<and> GetComponent ty e2 = None \<and> a \<in> set (en_components e2) \<and> RemoveComponent hk ty (e2, own2, u2) = (False, e2, own2, u2)"
proof -
  have "a \<noteq> b" using assms(2,3) by auto
  then show ?thesis using assms by (auto simp: AddComponent_def RemoveComponent_def GetComponent_def Let_def remove1_append split: if_splits)
qed

text \<open>Moving an entity from \<open>this\<close> to \<open>that\<close> leaves its components with the old owner.\<close>

lemma moved_owner_stale:
  assumes "holds this ps (e, own, u)" "Entity_move e = (e', old)" "c \<in> set (en_components e')"
  shows "GetOwner own c = Some this \<and> en_components old = []"
  using assms by (auto simp: Entity_move_def Entity_ctor_def holds_def GetOwner_def)

end
