(* ===== verification/Event.thy ===== *)
theory Event
  imports Prelude
begin

text \<open>
  Events and their subscriptions (\<^verbatim>\<open>JunCore/core/Event.h\<close>): an event keeps its handlers by number, and a
  subscription is a token that removes its handler when it is destroyed or overwritten.

  A handler is a name \<open>'h\<close>; what it does when called is the argument \<open>run\<close>, which may change the event too. The
  order in which an \<open>unordered_map\<close> is traversed is an argument.

  Shown: over any sequence of operations on tokens, the handlers of an event are exactly those whose token
  is alive; an invocation calls each handler at most once, only handlers subscribed when it began, and
  skips exactly those removed before their turn.
\<close>

section \<open>Operations\<close>

record 'h Event =
  ev_handlers :: "u64 \<rightharpoonup> 'h"
  ev_nextId :: u64

text \<open>The closure a subscription holds erases one number from one event; empty when inactive.\<close>

type_synonym Subscription = "u64 option"

definition Event_ctor :: "'h Event" where
  "Event_ctor = \<lparr>ev_handlers = Map.empty, ev_nextId = 0\<rparr>"

definition Event_Subscribe :: "'h \<Rightarrow> 'h Event \<Rightarrow> Subscription \<times> 'h Event" where
  "Event_Subscribe handler ev =
     (let ident = ev_nextId ev
      in (Some ident, ev\<lparr>ev_nextId := ident + 1, ev_handlers := (ev_handlers ev)(ident \<mapsto> handler)\<rparr>))"

definition Unsubscribe :: "Subscription \<Rightarrow> 'h Event \<Rightarrow> Subscription \<times> 'h Event" where
  "Unsubscribe sub ev = (case sub of
     None \<Rightarrow> (None, ev)
   | Some ident \<Rightarrow> (None, ev\<lparr>ev_handlers := (ev_handlers ev)(ident := None)\<rparr>))"

definition Subscription_Detach :: "Subscription \<Rightarrow> Subscription" where
  "Subscription_Detach sub = None"

definition Subscription_IsValid :: "Subscription \<Rightarrow> bool" where
  "Subscription_IsValid sub \<longleftrightarrow> sub \<noteq> None"

definition Subscription_dtor :: "Subscription \<Rightarrow> 'h Event \<Rightarrow> 'h Event" where
  "Subscription_dtor sub ev = snd (Unsubscribe sub ev)"

text \<open>Move construction yields the new token and the old, emptied one; move assignment first drops the
  target, unless both are the same object.\<close>

definition Subscription_move :: "Subscription \<Rightarrow> Subscription \<times> Subscription" where
  "Subscription_move other = (other, None)"

definition Subscription_assign :: "bool \<Rightarrow> Subscription \<Rightarrow> Subscription \<Rightarrow> 'h Event \<Rightarrow> Subscription \<times> Subscription \<times> 'h Event" where
  "Subscription_assign same this other ev =
     (if \<not> same then let (_, ev1) = Unsubscribe this ev in (other, None, ev1) else (this, this, ev))"

fun invoke_loop :: "('h \<Rightarrow> 'h Event \<times> 'u \<Rightarrow> 'h Event \<times> 'u) \<Rightarrow> (u64 \<rightharpoonup> 'h) \<Rightarrow> u64 list \<Rightarrow> 'h Event \<times> 'u \<Rightarrow>
    u64 list \<times> 'h Event \<times> 'u" where
  "invoke_loop run handlersCopy [] st = ([], st)"
| "invoke_loop run handlersCopy (ident # ids) st =
     (if ev_handlers (fst st) ident \<noteq> None then
        case handlersCopy ident of
          Some handler \<Rightarrow> let (called, st') = invoke_loop run handlersCopy ids (run handler st) in (ident # called, st')
        | None \<Rightarrow> invoke_loop run handlersCopy ids st
      else invoke_loop run handlersCopy ids st)"

text \<open>The numbers of the handlers called are the first result; \<open>ids\<close> is the order of the traversal.\<close>

definition Event_Invoke :: "('h \<Rightarrow> 'h Event \<times> 'u \<Rightarrow> 'h Event \<times> 'u) \<Rightarrow> u64 list \<Rightarrow> 'h Event \<times> 'u \<Rightarrow> u64 list \<times> 'h Event \<times> 'u" where
  "Event_Invoke run ids st = invoke_loop run (ev_handlers (fst st)) ids st"

definition Event_Count :: "'h Event \<Rightarrow> nat" where
  "Event_Count ev = card (dom (ev_handlers ev))"

definition HasSubscribers :: "'h Event \<Rightarrow> bool" where
  "HasSubscribers ev \<longleftrightarrow> ev_handlers ev \<noteq> Map.empty"

definition Event_Clear :: "'h Event \<Rightarrow> 'h Event" where
  "Event_Clear ev = ev\<lparr>ev_handlers := Map.empty\<rparr>"

section \<open>Tokens\<close>

text \<open>A program with any number of subscription variables on one event.\<close>

datatype 'h token_op = OpSubscribe nat 'h | OpMove nat nat | OpUnsubscribe nat

text \<open>\<open>v = ev.Subscribe(h)\<close> assigns the returned token, whose emptied temporary dies without effect.\<close>

fun token_step :: "'h token_op \<Rightarrow> (nat \<Rightarrow> Subscription) \<times> 'h Event \<Rightarrow> (nat \<Rightarrow> Subscription) \<times> 'h Event" where
  "token_step (OpSubscribe v h) (subs, ev) =
     (let (tok, ev1) = Event_Subscribe h ev; (this, other, ev2) = Subscription_assign False (subs v) tok ev1
      in (subs(v := this), Subscription_dtor other ev2))"
| "token_step (OpMove v w) (subs, ev) =
     (let (this, other, ev1) = Subscription_assign (v = w) (subs v) (subs w) ev in (subs(w := other, v := this), ev1))"
| "token_step (OpUnsubscribe v) (subs, ev) =
     (let (this, ev1) = Unsubscribe (subs v) ev in (subs(v := this), ev1))"

text \<open>The handlers are those with a live token, and no two variables hold the same token.\<close>

definition owned :: "(nat \<Rightarrow> Subscription) \<Rightarrow> (u64 \<rightharpoonup> 'h) \<Rightarrow> bool" where
  "owned subs H \<longleftrightarrow> (\<forall>i. H i \<noteq> None \<longleftrightarrow> (\<exists>v. subs v = Some i)) \<and> (\<forall>v w i. subs v = Some i \<and> subs w = Some i \<longrightarrow> v = w)"

definition drop_token :: "Subscription \<Rightarrow> (u64 \<rightharpoonup> 'h) \<Rightarrow> (u64 \<rightharpoonup> 'h)" where
  "drop_token tok H = (case tok of None \<Rightarrow> H | Some i \<Rightarrow> H(i := None))"

definition numbered :: "u64 \<Rightarrow> (nat \<Rightarrow> Subscription) \<Rightarrow> bool" where
  "numbered n subs \<longleftrightarrow> (\<forall>v i. subs v = Some i \<longrightarrow> i < n)"

lemma drop_token_None [simp]: "drop_token None H = H"
  by (simp add: drop_token_def)

lemma Unsubscribe_drop: "Unsubscribe tok ev = (None, ev\<lparr>ev_handlers := drop_token tok (ev_handlers ev)\<rparr>)"
  by (auto simp: Unsubscribe_def drop_token_def split: option.splits)

lemma owned_drop:
  assumes "owned subs H"
  shows "owned (subs(v := None)) (drop_token (subs v) H)"
proof (cases "subs v")
  case None
  then have "subs(v := None) = subs" by (simp add: fun_upd_idem)
  with None assms show ?thesis by (simp add: drop_token_def)
next
  case (Some i)
  have "(\<exists>u. (subs(v := None)) u = Some j) \<longleftrightarrow> j \<noteq> i \<and> (\<exists>u. subs u = Some j)" for j
    using assms Some unfolding owned_def by (metis fun_upd_apply option.distinct(1) option.inject)
  moreover have "\<forall>u w j. (subs(v := None)) u = Some j \<and> (subs(v := None)) w = Some j \<longrightarrow> u = w"
    using assms unfolding owned_def by (metis fun_upd_apply option.distinct(1))
  ultimately show ?thesis using assms Some by (auto simp: owned_def drop_token_def)
qed

lemma owned_unique: "owned subs H \<Longrightarrow> subs u = Some j \<Longrightarrow> subs x = Some j \<Longrightarrow> u = x"
  unfolding owned_def by blast

lemma owned_give:
  assumes "owned subs H" "subs v = None" "\<forall>w. subs w \<noteq> Some i"
  shows "owned (subs(v := Some i)) (H(i \<mapsto> h))"
proof -
  let ?s = "subs(v := Some i)"
  have "(H(i \<mapsto> h)) j \<noteq> None \<longleftrightarrow> (\<exists>u. ?s u = Some j)" for j
  proof (cases "j = i")
    case True
    then have "?s v = Some j" by simp
    then show ?thesis using True by (metis fun_upd_same option.distinct(1))
  next
    case False
    have "(\<exists>u. ?s u = Some j) \<longleftrightarrow> (\<exists>u. subs u = Some j)"
    proof
      assume "\<exists>u. ?s u = Some j"
      then obtain u where "?s u = Some j" ..
      then have "subs u = Some j" using False by (cases "u = v") auto
      then show "\<exists>u. subs u = Some j" ..
    next
      assume "\<exists>u. subs u = Some j"
      then obtain u where "subs u = Some j" ..
      then have "?s u = Some j" using assms(2) by (cases "u = v") auto
      then show "\<exists>u. ?s u = Some j" ..
    qed
    then show ?thesis using False assms(1) by (simp add: owned_def)
  qed
  moreover have "u = w" if "?s u = Some j" "?s w = Some j" for u w j
    using that assms(3) owned_unique [OF assms(1), of u j w] by (cases "u = v"; cases "w = v") auto
  ultimately show ?thesis unfolding owned_def by blast
qed

lemma owned_shift:
  assumes "owned subs H" "subs v = None" "v \<noteq> w"
  shows "owned (subs(w := None, v := subs w)) H"
proof -
  let ?s = "subs(w := None, v := subs w)"
  have "(\<exists>u. ?s u = Some j) \<longleftrightarrow> (\<exists>u. subs u = Some j)" for j
  proof
    assume "\<exists>u. ?s u = Some j"
    then show "\<exists>u. subs u = Some j" by (metis fun_upd_apply option.distinct(1))
  next
    assume "\<exists>u. subs u = Some j"
    then obtain u where "subs u = Some j" ..
    then have "?s (if u = w then v else u) = Some j" using assms(2,3) by auto
    then show "\<exists>u. ?s u = Some j" ..
  qed
  moreover have "u = x" if "?s u = Some j" "?s x = Some j" for u x j
    using that owned_unique [OF assms(1), of _ j] by (cases "u = v"; cases "x = v") (auto split: if_splits)
  ultimately show ?thesis using assms(1) unfolding owned_def by blast
qed

lemma numbered_upd: "numbered n subs \<Longrightarrow> (tok = None \<or> (\<exists>u. tok = subs u)) \<Longrightarrow> numbered n (subs(v := tok))"
  by (auto simp: numbered_def)

definition tokens_exact :: "nat \<Rightarrow> (nat \<Rightarrow> Subscription) \<times> 'h Event \<Rightarrow> bool" where
  "tokens_exact n = (\<lambda>(subs, ev). owned subs (ev_handlers ev) \<and> numbered (ev_nextId ev) subs \<and> unat (ev_nextId ev) \<le> n)"

lemma token_step_exact:
  assumes "tokens_exact n (subs, ev)" "Suc n < 2 ^ 64"
  shows "tokens_exact (Suc n) (token_step opn (subs, ev))"
proof -
  let ?H = "ev_handlers ev" and ?i = "ev_nextId ev"
  have own: "owned subs ?H" and num: "numbered ?i subs" and le: "unat ?i \<le> n"
    using assms(1) by (simp_all add: tokens_exact_def)
  show ?thesis
  proof (cases opn)
    case (OpSubscribe v h)
    have i1: "unat (?i + 1) = Suc (unat ?i)" using le assms(2) by (simp add: unat_word_ariths)
    then have less: "?i < ?i + 1" by (simp add: word_less_nat_alt)
    have fresh: "subs w \<noteq> Some ?i" for w using num by (auto simp: numbered_def)
    have "owned (subs(v := Some ?i)) ((drop_token (subs v) ?H)(?i \<mapsto> h))"
      using owned_give [OF owned_drop [OF own], of v v ?i h] fresh by simp
    moreover have "(drop_token (subs v) ?H)(?i \<mapsto> h) = drop_token (subs v) (?H(?i \<mapsto> h))"
      using fresh [of v] by (auto simp: drop_token_def split: option.splits)
    moreover have "numbered (?i + 1) (subs(v := Some ?i))"
      using num less by (auto simp: numbered_def intro: less_trans)
    ultimately show ?thesis using i1 le
      by (simp add: OpSubscribe tokens_exact_def Event_Subscribe_def Subscription_assign_def Subscription_dtor_def Unsubscribe_drop Let_def)
  next
    case (OpMove v w)
    show ?thesis
    proof (cases "v = w")
      case True
      then show ?thesis using own num le by (simp add: OpMove tokens_exact_def Subscription_assign_def)
    next
      case False
      have "owned (subs(w := None, v := subs w)) (drop_token (subs v) ?H)"
        using owned_shift [OF owned_drop [OF own], of v v w] False by (simp add: fun_upd_twist)
      moreover have "numbered ?i (subs(w := None, v := subs w))" using num by (auto simp: numbered_def)
      ultimately show ?thesis using False le
        by (simp add: OpMove tokens_exact_def Subscription_assign_def Unsubscribe_drop)
    qed
  next
    case (OpUnsubscribe v)
    have "numbered ?i (subs(v := None))" using num by (auto simp: numbered_def)
    with owned_drop [OF own, of v] le show ?thesis
      by (simp add: OpUnsubscribe tokens_exact_def Unsubscribe_drop)
  qed
qed

section \<open>Invocation\<close>

lemma invoke_loop_called:
  "invoke_loop run H ids st = (called, st') \<Longrightarrow>
    set called \<subseteq> set ids \<and> set called \<subseteq> dom H \<and> (distinct ids \<longrightarrow> distinct called)"
proof (induction run H ids st arbitrary: called st' rule: invoke_loop.induct)
  case (2 run H ident ids st)
  show ?case
  proof (cases "ev_handlers (fst st) ident \<noteq> None \<and> H ident \<noteq> None")
    case True
    then obtain h where h: "H ident = Some h" by blast
    obtain c st1 where r: "invoke_loop run H ids (run h st) = (c, st1)" by (metis prod.exhaust)
    have "called = ident # c" using "2.prems" True h r by simp
    then show ?thesis using "2.IH"(2) [OF _ h r] True h by auto
  next
    case False
    then have "invoke_loop run H ids st = (called, st')" using "2.prems" by (auto split: if_splits option.splits)
    then show ?thesis using "2.IH"(1,3) False by (cases "ev_handlers (fst st) ident = None") auto
  qed
qed simp

lemma invoke_loop_append:
  "invoke_loop run H (xs @ ys) st =
     (let (c1, st1) = invoke_loop run H xs st; (c2, st2) = invoke_loop run H ys st1 in (c1 @ c2, st2))"
proof (induction run H xs st rule: invoke_loop.induct)
  case (2 run H ident ids st)
  then show ?case by (auto simp: Let_def split: option.splits prod.splits)
qed (simp split: prod.splits)

lemma invoke_loop_member:
  assumes "invoke_loop run H (xs @ i # ys) st = (called, st')" "i \<notin> set xs" "i \<notin> set ys" "H i \<noteq> None"
  shows "i \<in> set called \<longleftrightarrow> ev_handlers (fst (snd (invoke_loop run H xs st))) i \<noteq> None"
proof -
  obtain c1 st1 where 1: "invoke_loop run H xs st = (c1, st1)" by (metis prod.exhaust)
  obtain c2 st2 where 2: "invoke_loop run H (i # ys) st1 = (c2, st2)" by (metis prod.exhaust)
  have called: "called = c1 @ c2" using assms(1) 1 2 by (simp add: invoke_loop_append)
  have "i \<notin> set c1" using invoke_loop_called [OF 1] assms(2) by blast
  moreover have "i \<in> set c2 \<longleftrightarrow> ev_handlers (fst st1) i \<noteq> None"
  proof (cases "ev_handlers (fst st1) i = None")
    case True
    then have "invoke_loop run H ys st1 = (c2, st2)" using 2 by simp
    from invoke_loop_called [OF this] assms(3) True show ?thesis by blast
  next
    case False
    then show ?thesis using 2 assms(4) by (auto split: option.splits prod.splits)
  qed
  ultimately show ?thesis using called 1 by simp
qed

lemma token_run_exact:
  "tokens_exact n (subs, ev) \<Longrightarrow> n + length ops < 2 ^ 64 \<Longrightarrow>
    tokens_exact (n + length ops) (fold token_step ops (subs, ev))"
proof (induction ops arbitrary: n subs ev)
  case (Cons opn ops)
  obtain subs' ev' where st: "token_step opn (subs, ev) = (subs', ev')" by (metis prod.exhaust)
  have "tokens_exact (Suc n) (subs', ev')"
    using token_step_exact [OF Cons.prems(1), of opn] Cons.prems(2) st by simp
  from Cons.IH [OF this] Cons.prems(2) show ?case by (simp add: st)
qed simp

section \<open>Properties\<close>

text \<open>C26: Subscriptions and handlers correspond. Starting from a new event and inactive subscription
  variables, after any sequence of fewer than 2^64 subscriptions, moves between variables (also onto
  themselves and over active ones) and cancellations, the event has a handler under a number exactly if
  some variable holds the token of that number, and no two variables hold the same one.\<close>

theorem subscriptions_exact:
  assumes "length ops < 2 ^ 64" "fold token_step ops (\<lambda>_. None, Event_ctor) = (subs, ev)"
  shows "(\<forall>i. ev_handlers ev i \<noteq> None \<longleftrightarrow> (\<exists>v. subs v = Some i)) \<and>
    (\<forall>v w i. subs v = Some i \<and> subs w = Some i \<longrightarrow> v = w)"
proof -
  have "tokens_exact 0 (\<lambda>_. None, Event_ctor)"
    by (simp add: tokens_exact_def owned_def numbered_def Event_ctor_def)
  from token_run_exact [OF this, of ops] assms show ?thesis
    by (simp add: tokens_exact_def owned_def)
qed

theorem subscriptions_exact_witness:
  "\<exists>subs ev. fold token_step [OpSubscribe 0 True, OpSubscribe 1 False, OpMove 1 0] (\<lambda>_. None, Event_ctor) = (subs, ev) \<and>
    ev_handlers ev 0 \<noteq> None \<and> ev_handlers ev 1 = None \<and>
    (\<forall>i. ev_handlers ev i \<noteq> None \<longleftrightarrow> (\<exists>v. subs v = Some i))"
proof -
  let ?ops = "[OpSubscribe 0 True, OpSubscribe 1 False, OpMove 1 0]"
  obtain subs ev where r: "fold token_step ?ops (\<lambda>_. None, Event_ctor) = (subs, ev)" by (metis prod.exhaust)
  then have "ev_handlers ev 0 \<noteq> None" "ev_handlers ev 1 = None"
    by (auto simp: Event_ctor_def Event_Subscribe_def Unsubscribe_def Subscription_assign_def Subscription_dtor_def Let_def)
  with r subscriptions_exact [of ?ops subs ev] show ?thesis by auto
qed

text \<open>An invocation is exact, whatever the handlers do to the event: traversing the subscribed numbers in
  any order, it calls no handler twice and none that was not subscribed when it began, and it calls the
  handler whose turn has come exactly if that handler is then still subscribed.\<close>

lemma invoke_exact:
  assumes "set ids = dom (ev_handlers ev)" "distinct ids" "Event_Invoke run ids (ev, u) = (called, st')"
  shows "distinct called \<and> set called \<subseteq> dom (ev_handlers ev) \<and>
    (\<forall>xs i ys. ids = xs @ i # ys \<longrightarrow>
       (i \<in> set called \<longleftrightarrow> ev_handlers (fst (snd (invoke_loop run (ev_handlers ev) xs (ev, u)))) i \<noteq> None))"
proof -
  let ?H = "ev_handlers ev"
  have r: "invoke_loop run ?H ids (ev, u) = (called, st')" using assms(3) by (simp add: Event_Invoke_def)
  have "i \<in> set called \<longleftrightarrow> ev_handlers (fst (snd (invoke_loop run ?H xs (ev, u)))) i \<noteq> None" if "ids = xs @ i # ys" for xs i ys
    using invoke_loop_member [of run ?H xs i ys "(ev, u)" called st'] r that assms(1,2) by auto
  then show ?thesis using invoke_loop_called [OF r] assms(2) by blast
qed

text \<open>A handler that cancels another.\<close>

definition cancel_one :: "u64 \<Rightarrow> u64 Event \<times> nat \<Rightarrow> u64 Event \<times> nat" where
  "cancel_one i = (\<lambda>(ev, n). (snd (Unsubscribe (Some i) ev), n + 1))"

definition two_handlers :: "u64 Event" where
  "two_handlers = \<lparr>ev_handlers = [0 \<mapsto> 1, 1 \<mapsto> 0], ev_nextId = 2\<rparr>"

lemma invoke_exact_example:
  "\<exists>called st'. Event_Invoke cancel_one [0, 1] (two_handlers, 0) = (called, st') \<and> called = [0] \<and> distinct called"
proof -
  obtain called st' where r: "Event_Invoke cancel_one [0, 1] (two_handlers, 0) = (called, st')" by (metis prod.exhaust)
  then have "called = [0]"
    by (auto simp: Event_Invoke_def two_handlers_def cancel_one_def Unsubscribe_def)
  with r invoke_exact [of "[0, 1]" two_handlers cancel_one 0 called st'] show ?thesis
    by (auto simp: two_handlers_def)
qed

end
