(* ===== verification/MoveComponent.thy ===== *)
theory MoveComponent
  imports Event Complex_Main
begin

text \<open>
  The movement of an object (\<^verbatim>\<open>GameServer/MoveComponent.h\<close>, the same text as \<^verbatim>\<open>JunCore/logic/MoveComponent.h\<close>): a current position, a destination,
  a speed per fixed update, and two events, one when a destination is set and one on arrival. The arithmetic of
  \<open>float\<close> is an argument. A handler of the events sees the component as it is at the call.

  Shown, for any arithmetic: between two destinations the arrival event is raised at most once, exactly when an update
  finds the component within the threshold, and then the component stands still. With exact arithmetic and a positive speed
  every destination is reached after at most \<open>distance / speed\<close> (rounded up) and one more updates.
\<close>

section \<open>Operations\<close>

record 'f float_arith =
  fa_add :: "'f \<Rightarrow> 'f \<Rightarrow> 'f"
  fa_sub :: "'f \<Rightarrow> 'f \<Rightarrow> 'f"
  fa_mul :: "'f \<Rightarrow> 'f \<Rightarrow> 'f"
  fa_div :: "'f \<Rightarrow> 'f \<Rightarrow> 'f"
  fa_sqrt :: "'f \<Rightarrow> 'f"
  fa_less :: "'f \<Rightarrow> 'f \<Rightarrow> bool"
  fa_zero :: 'f
  fa_tenth :: 'f
  fa_thousandth :: 'f

record ('f, 'h) MoveComponent =
  mc_currentX :: 'f
  mc_currentY :: 'f
  mc_currentZ :: 'f
  mc_destX :: 'f
  mc_destY :: 'f
  mc_destZ :: 'f
  mc_moveSpeed :: 'f
  mc_arrivedNotified :: bool
  mc_OnMoveStart :: "'h Event"
  mc_OnArrived :: "'h Event"

definition MoveComponent_ctor :: "'f float_arith \<Rightarrow> 'f \<Rightarrow> ('f, 'h) MoveComponent" where
  "MoveComponent_ctor fa speed =
     \<lparr>mc_currentX = fa_zero fa, mc_currentY = fa_zero fa, mc_currentZ = fa_zero fa, mc_destX = fa_zero fa, mc_destY = fa_zero fa,
      mc_destZ = fa_zero fa, mc_moveSpeed = speed, mc_arrivedNotified = True, mc_OnMoveStart = Event_ctor, mc_OnArrived = Event_ctor\<rparr>"

text \<open>What a handler does with the component it sees, and the order in which handlers are visited.\<close>

type_synonym ('f, 'h, 'u) move_run = "'h \<Rightarrow> ('f, 'h) MoveComponent \<Rightarrow> 'u \<Rightarrow> 'u"

definition call_handlers :: "('f, 'h, 'u) move_run \<Rightarrow> u64 list \<Rightarrow> ('f, 'h) MoveComponent \<Rightarrow> 'h Event \<Rightarrow> 'u \<Rightarrow> 'u" where
  "call_handlers run ids mc ev u = snd (snd (Event_Invoke (\<lambda>h (e, v). (e, run h mc v)) ids (ev, u)))"

definition SetPosition :: "'f \<Rightarrow> 'f \<Rightarrow> 'f \<Rightarrow> ('f, 'h) MoveComponent \<Rightarrow> ('f, 'h) MoveComponent" where
  "SetPosition x y z mc = mc\<lparr>mc_currentX := x, mc_currentY := y, mc_currentZ := z\<rparr>"

definition GetPosition :: "('f, 'h) MoveComponent \<Rightarrow> 'f \<times> 'f \<times> 'f" where
  "GetPosition mc = (mc_currentX mc, mc_currentY mc, mc_currentZ mc)"

definition GetDestination :: "('f, 'h) MoveComponent \<Rightarrow> 'f \<times> 'f \<times> 'f" where
  "GetDestination mc = (mc_destX mc, mc_destY mc, mc_destZ mc)"

definition SetMoveSpeed :: "'f \<Rightarrow> ('f, 'h) MoveComponent \<Rightarrow> ('f, 'h) MoveComponent" where
  "SetMoveSpeed speed mc = mc\<lparr>mc_moveSpeed := speed\<rparr>"

definition SetDestination :: "('f, 'h, 'u) move_run \<Rightarrow> u64 list \<Rightarrow> 'f \<Rightarrow> 'f \<Rightarrow> 'f \<Rightarrow> ('f, 'h) MoveComponent \<times> 'u \<Rightarrow> ('f, 'h) MoveComponent \<times> 'u" where
  "SetDestination run ids x y z st =
     (let (mc, u) = st;
          mc1 = mc\<lparr>mc_destX := x, mc_destY := y, mc_destZ := z, mc_arrivedNotified := False\<rparr>
      in (mc1, call_handlers run ids mc1 (mc_OnMoveStart mc1) u))"

definition HasReachedDestination :: "'f float_arith \<Rightarrow> ('f, 'h) MoveComponent \<Rightarrow> bool" where
  "HasReachedDestination fa mc =
     (let dx = fa_sub fa (mc_destX mc) (mc_currentX mc);
          dz = fa_sub fa (mc_destZ mc) (mc_currentZ mc);
          distanceSq = fa_add fa (fa_mul fa dx dx) (fa_mul fa dz dz)
      in fa_less fa distanceSq (fa_mul fa (fa_tenth fa) (fa_tenth fa)))"

definition IsMoving :: "'f float_arith \<Rightarrow> ('f, 'h) MoveComponent \<Rightarrow> bool" where
  "IsMoving fa mc \<longleftrightarrow> \<not> HasReachedDestination fa mc"

definition MoveTowardsDestination :: "'f float_arith \<Rightarrow> ('f, 'h) MoveComponent \<Rightarrow> ('f, 'h) MoveComponent" where
  "MoveTowardsDestination fa mc =
     (let dx = fa_sub fa (mc_destX mc) (mc_currentX mc);
          dz = fa_sub fa (mc_destZ mc) (mc_currentZ mc);
          distance = fa_sqrt fa (fa_add fa (fa_mul fa dx dx) (fa_mul fa dz dz))
      in if fa_less fa distance (fa_thousandth fa) then mc
         else
           let dirX = fa_div fa dx distance;
               dirZ = fa_div fa dz distance;
               moveDistance = (if fa_less fa distance (mc_moveSpeed mc) then distance else mc_moveSpeed mc)
           in mc\<lparr>mc_currentX := fa_add fa (mc_currentX mc) (fa_mul fa dirX moveDistance),
                mc_currentZ := fa_add fa (mc_currentZ mc) (fa_mul fa dirZ moveDistance)\<rparr>)"

definition Move_OnFixedUpdate :: "'f float_arith \<Rightarrow> ('f, 'h, 'u) move_run \<Rightarrow> u64 list \<Rightarrow> ('f, 'h) MoveComponent \<times> 'u \<Rightarrow> ('f, 'h) MoveComponent \<times> 'u" where
  "Move_OnFixedUpdate fa run ids st =
     (let (mc, u) = st in
      if mc_arrivedNotified mc then (mc, u)
      else
        let mc1 = (if \<not> HasReachedDestination fa mc then MoveTowardsDestination fa mc else mc) in
        if HasReachedDestination fa mc1
        then let mc2 = mc1\<lparr>mc_arrivedNotified := True\<rparr> in (mc2, call_handlers run ids mc2 (mc_OnArrived mc2) u)
        else (mc1, u))"

section \<open>One arrival per destination\<close>

text \<open>The position after an update, whether or not it arrived.\<close>

definition moved :: "'f float_arith \<Rightarrow> ('f, 'h) MoveComponent \<Rightarrow> ('f, 'h) MoveComponent" where
  "moved fa mc = (if \<not> HasReachedDestination fa mc then MoveTowardsDestination fa mc else mc)"

lemma MoveTowards_frame:
  "mc_arrivedNotified (MoveTowardsDestination fa mc) = mc_arrivedNotified mc" "mc_OnArrived (MoveTowardsDestination fa mc) = mc_OnArrived mc"
  "mc_moveSpeed (MoveTowardsDestination fa mc) = mc_moveSpeed mc" "mc_destX (MoveTowardsDestination fa mc) = mc_destX mc"
  "mc_destZ (MoveTowardsDestination fa mc) = mc_destZ mc"
  by (simp_all add: MoveTowardsDestination_def Let_def)

lemma moved_frame [simp]:
  "mc_arrivedNotified (moved fa mc) = mc_arrivedNotified mc" "mc_OnArrived (moved fa mc) = mc_OnArrived mc"
  "mc_moveSpeed (moved fa mc) = mc_moveSpeed mc" "mc_destX (moved fa mc) = mc_destX mc" "mc_destZ (moved fa mc) = mc_destZ mc"
  by (simp_all add: moved_def MoveTowards_frame)

lemma update_moves:
  "Move_OnFixedUpdate fa run ids (mc, u) =
     (if mc_arrivedNotified mc then (mc, u)
      else if HasReachedDestination fa (moved fa mc)
        then let mc2 = (moved fa mc)\<lparr>mc_arrivedNotified := True\<rparr> in (mc2, call_handlers run ids mc2 (mc_OnArrived mc) u)
        else (moved fa mc, u))"
  by (simp add: Move_OnFixedUpdate_def moved_def [symmetric] Let_def)

text \<open>The first of \<open>n\<close> updates that finds the component at its destination.\<close>

fun arrival :: "'f float_arith \<Rightarrow> nat \<Rightarrow> ('f, 'h) MoveComponent \<Rightarrow> ('f, 'h) MoveComponent option" where
  "arrival fa 0 mc = None"
| "arrival fa (Suc n) mc = (if HasReachedDestination fa (moved fa mc) then Some (moved fa mc) else arrival fa n (moved fa mc))"

lemma standing_still: "mc_arrivedNotified mc \<Longrightarrow> (Move_OnFixedUpdate fa run ids ^^ n) (mc, u) = (mc, u)"
  by (induction n) (simp_all add: update_moves)

lemma updates_arrive_once:
  assumes "\<not> mc_arrivedNotified mc"
  shows "(Move_OnFixedUpdate fa run ids ^^ n) (mc, u) =
    (case arrival fa n mc of
       None \<Rightarrow> ((moved fa ^^ n) mc, u)
     | Some m \<Rightarrow> let m' = m\<lparr>mc_arrivedNotified := True\<rparr> in (m', call_handlers run ids m' (mc_OnArrived mc) u))"
  using assms
proof (induction n arbitrary: mc)
  case (Suc n)
  have "(Move_OnFixedUpdate fa run ids ^^ Suc n) (mc, u) = (Move_OnFixedUpdate fa run ids ^^ n) (Move_OnFixedUpdate fa run ids (mc, u))"
    by (simp add: funpow_swap1)
  also have "\<dots> = (case arrival fa (Suc n) mc of
       None \<Rightarrow> ((moved fa ^^ Suc n) mc, u)
     | Some m \<Rightarrow> let m' = m\<lparr>mc_arrivedNotified := True\<rparr> in (m', call_handlers run ids m' (mc_OnArrived mc) u))"
  proof (cases "HasReachedDestination fa (moved fa mc)")
    case True
    then show ?thesis using Suc.prems by (simp add: update_moves Let_def standing_still)
  next
    case False
    then have "Move_OnFixedUpdate fa run ids (mc, u) = (moved fa mc, u)" using Suc.prems by (simp add: update_moves)
    then show ?thesis using Suc.IH [of "moved fa mc"] Suc.prems False
      by (cases "arrival fa n (moved fa mc)") (simp_all add: funpow_swap1)
  qed
  finally show ?case .
qed simp

section \<open>Exact arithmetic\<close>

definition exact :: "real float_arith" where
  "exact = \<lparr>fa_add = (+), fa_sub = (-), fa_mul = (*), fa_div = (/), fa_sqrt = sqrt, fa_less = (<), fa_zero = 0, fa_tenth = 1 / 10, fa_thousandth = 1 / 1000\<rparr>"

definition dist_left :: "(real, 'h) MoveComponent \<Rightarrow> real" where
  "dist_left mc = sqrt ((mc_destX mc - mc_currentX mc) * (mc_destX mc - mc_currentX mc) + (mc_destZ mc - mc_currentZ mc) * (mc_destZ mc - mc_currentZ mc))"

lemma reached_iff: "HasReachedDestination exact mc \<longleftrightarrow> dist_left mc < 1 / 10"
proof -
  let ?s = "(mc_destX mc - mc_currentX mc) * (mc_destX mc - mc_currentX mc) + (mc_destZ mc - mc_currentZ mc) * (mc_destZ mc - mc_currentZ mc)"
  have "?s < (1 / 10) * (1 / 10) \<longleftrightarrow> sqrt ?s < sqrt ((1 / 10) * (1 / 10))" by (simp only: real_sqrt_less_iff)
  also have "sqrt ((1 / 10) * (1 / 10)) = 1 / (10 :: real)" by (rule real_sqrt_unique) (simp_all add: power2_eq_square)
  finally show ?thesis unfolding HasReachedDestination_def dist_left_def exact_def Let_def by simp
qed

lemma shrink_square: "(a - a / d * m) * (a - a / d * m) + (b - b / d * m) * (b - b / d * m) = (1 - m / d) * (1 - m / d) * (a * a + b * (b :: real))"
proof -
  have *: "a - a / d * m = a * (1 - m / d)" "b - b / d * m = b * (1 - m / d)" by (simp_all add: right_diff_distrib)
  have "(a * k) * (a * k) + (b * k) * (b * k) = k * k * (a * a + b * b)" for k by (simp add: algebra_simps)
  then show ?thesis unfolding * .
qed

lemma dist_after:
  assumes "0 < mc_moveSpeed mc" "1 / 10 \<le> dist_left mc"
  shows "dist_left (moved exact mc) = dist_left mc - min (mc_moveSpeed mc) (dist_left mc)"
proof -
  let ?dx = "mc_destX mc - mc_currentX mc" and ?dz = "mc_destZ mc - mc_currentZ mc" and ?d = "dist_left mc"
  let ?m = "min (mc_moveSpeed mc) ?d"
  have d: "0 < ?d" using assms(2) by linarith
  have d': "sqrt (?dx * ?dx + ?dz * ?dz) = ?d" by (simp add: dist_left_def)
  have "moved exact mc = mc\<lparr>mc_currentX := mc_currentX mc + ?dx / ?d * ?m, mc_currentZ := mc_currentZ mc + ?dz / ?d * ?m\<rparr>"
    using assms(2) unfolding moved_def reached_iff MoveTowardsDestination_def Let_def
    by (simp add: exact_def d' min_def)
  then have "dist_left (moved exact mc) = sqrt ((?dx - ?dx / ?d * ?m) * (?dx - ?dx / ?d * ?m) + (?dz - ?dz / ?d * ?m) * (?dz - ?dz / ?d * ?m))"
    by (simp add: dist_left_def diff_diff_eq)
  also have "(?dx - ?dx / ?d * ?m) * (?dx - ?dx / ?d * ?m) + (?dz - ?dz / ?d * ?m) * (?dz - ?dz / ?d * ?m) =
      (1 - ?m / ?d) * (1 - ?m / ?d) * (?dx * ?dx + ?dz * ?dz)"
    by (rule shrink_square)
  also have "sqrt \<dots> = \<bar>1 - ?m / ?d\<bar> * ?d" by (simp only: real_sqrt_mult real_sqrt_mult_self d')
  also have "\<dots> = ?d - ?m" using d by (simp add: field_simps abs_of_nonneg)
  finally show ?thesis .
qed

text \<open>With every update the distance shrinks by the speed, until the destination is reached.\<close>

lemma arrives_within:
  assumes "0 < mc_moveSpeed mc" "dist_left mc < 1 / 10 + real n * mc_moveSpeed mc"
  shows "\<exists>m. arrival exact (Suc n) mc = Some m \<and> dist_left m < 1 / 10"
  using assms
proof (induction n arbitrary: mc)
  case 0
  then have "dist_left mc < 1 / 10" by simp
  then have "moved exact mc = mc" by (simp add: moved_def reached_iff)
  then show ?case using \<open>dist_left mc < 1 / 10\<close> by (simp add: reached_iff)
next
  case (Suc n)
  show ?case
  proof (cases "HasReachedDestination exact (moved exact mc)")
    case True
    then show ?thesis by (simp add: reached_iff)
  next
    case False
    have far: "1 / 10 \<le> dist_left mc"
    proof (rule ccontr)
      assume "\<not> 1 / 10 \<le> dist_left mc"
      then have "moved exact mc = mc" by (simp add: moved_def reached_iff)
      then show False using False \<open>\<not> 1 / 10 \<le> dist_left mc\<close> by (simp add: reached_iff)
    qed
    have "dist_left (moved exact mc) = dist_left mc - min (mc_moveSpeed mc) (dist_left mc)" by (rule dist_after [OF Suc.prems(1) far])
    moreover have "1 / 10 \<le> dist_left (moved exact mc)" using False by (simp add: reached_iff)
    ultimately have "dist_left (moved exact mc) < 1 / 10 + real n * mc_moveSpeed (moved exact mc)"
      using Suc.prems(2) by (auto simp: min_def algebra_simps split: if_splits)
    from Suc.IH [OF _ this] show ?thesis using Suc.prems(1) False by simp
  qed
qed

section \<open>Properties\<close>



end
