(* ===== verification/JobObject.thy ===== *)
theory JobObject
  imports Prelude
begin

text \<open>
  Job objects (\<^verbatim>\<open>JunCore/logic/JobObject.h\<close> and \<^verbatim>\<open>.cpp\<close>): an object with a queue of jobs that is put on the
  queue of its job thread while it has work. Any thread may post; the job thread flushes.

  The first part has the operations as functions, for one caller at a time. The second has them as a
  step relation, one step per atomic access, with any number of threads inside \<open>PostJob\<close> and
  \<open>Flush\<close> at once. The job queue is its list of jobs and its separate counter \<open>nodeCount\<close>: \<open>Enqueue\<close> links
  the node and then counts it, \<open>Dequeue\<close> reserves by the counter and then unlinks (\<^verbatim>\<open>LFQueue.h\<close>).

  Shown: jobs of one object never run at the same time, run in the order they were posted and on the
  object's thread; no posted job is left without a wake-up; and, for an object that is deleted, that a
  second deletion and an access after deletion can be reached.
\<close>

section \<open>Operations\<close>

record 'j JobObject =
  jo_jobQueue :: "'j list"
  jo_processing :: bool
  jo_markedForDelete :: bool
  jo_thread :: "addr option"

datatype job_error = NullJobThread

definition JobObject_default :: "'j JobObject" where
  "JobObject_default = \<lparr>jo_jobQueue = [], jo_processing = False, jo_markedForDelete = False, jo_thread = None\<rparr>"

definition JobObject_ctor :: "addr option \<Rightarrow> job_error + 'j JobObject" where
  "JobObject_ctor jobThread =
     (if jobThread = None then Inl NullJobThread else Inr (JobObject_default\<lparr>jo_thread := jobThread\<rparr>))"

text \<open>The result of an operation that may put the object on a thread's queue: the thread, if any.\<close>

definition PostJob :: "'j \<Rightarrow> 'j JobObject \<Rightarrow> fault + (bool \<times> addr option \<times> 'j JobObject)" where
  "PostJob job jo =
     (if jo_markedForDelete jo then Inr (False, None, jo)
      else
        let jo1 = jo\<lparr>jo_jobQueue := jo_jobQueue jo @ [job]\<rparr> in
        if \<not> jo_processing jo1 then
          let jo2 = jo1\<lparr>jo_processing := True\<rparr> in
          case jo_thread jo2 of None \<Rightarrow> Inl NullDeref | Some q \<Rightarrow> Inr (True, Some q, jo2)
        else Inr (True, None, jo1))"

definition MarkForDelete :: "'j JobObject \<Rightarrow> 'j JobObject" where
  "MarkForDelete jo = jo\<lparr>jo_markedForDelete := True\<rparr>"

definition SetJobThread :: "addr option \<Rightarrow> 'j JobObject \<Rightarrow> job_error + 'j JobObject" where
  "SetJobThread thread jo = (if thread = None then Inl NullJobThread else Inr (jo\<lparr>jo_thread := thread\<rparr>))"

text \<open>The destructor drops the jobs left.\<close>

definition JobObject_dtor :: "'j JobObject \<Rightarrow> 'j JobObject" where
  "JobObject_dtor jo = jo\<lparr>jo_jobQueue := []\<rparr>"

section \<open>Atomic steps\<close>

text \<open>Where a thread stands inside \<open>PostJob\<close>: before the check of the mark, before the node is linked,
  before it is counted, before the exchange, before the object is put on the thread's queue.\<close>

datatype 'j post_pc = PIdle | PCheck 'j | PEnqueue 'j | PCount | PCas | PSchedule

text \<open>Where a thread stands inside \<open>Flush\<close> and the rest of the round of \<open>ProcessJobObjects\<close>; \<open>old\<close>
  is \<open>pOldThread\<close>. The flag of \<open>FDone\<close> and \<open>FDelete\<close> only records whether \<open>Flush\<close> returned because of the
  mark.\<close>

datatype flush_pc = FIdle | FCheck | FDequeue "addr option" | FTake "addr option" | FUndo | FRun "addr option"
  | FMarked "addr option" | FThread "addr option" | FRequeue | FClear | FCount | FCas | FSchedule | FDone bool | FDelete bool

record 'j jsys =
  js_obj :: "'j JobObject"
  js_count :: int
  js_queues :: "addr list"
  js_post :: "addr \<Rightarrow> 'j post_pc"
  js_flush :: "addr \<Rightarrow> flush_pc"
  js_deleted :: bool
  js_posted :: "'j list"
  js_ran :: "(addr \<times> 'j) list"

abbreviation jq :: "'j jsys \<Rightarrow> 'j list" where "jq s \<equiv> jo_jobQueue (js_obj s)"
abbreviation processing :: "'j jsys \<Rightarrow> bool" where "processing s \<equiv> jo_processing (js_obj s)"
abbreviation marked :: "'j jsys \<Rightarrow> bool" where "marked s \<equiv> jo_markedForDelete (js_obj s)"
abbreviation owner :: "'j jsys \<Rightarrow> addr option" where "owner s \<equiv> jo_thread (js_obj s)"

definition on_obj :: "('j JobObject \<Rightarrow> 'j JobObject) \<Rightarrow> 'j jsys \<Rightarrow> 'j jsys" where
  "on_obj f s = s\<lparr>js_obj := f (js_obj s)\<rparr>"

definition pgo :: "addr \<Rightarrow> 'j post_pc \<Rightarrow> 'j jsys \<Rightarrow> 'j jsys" where
  "pgo t pc s = s\<lparr>js_post := (js_post s)(t := pc)\<rparr>"

definition fgo :: "addr \<Rightarrow> flush_pc \<Rightarrow> 'j jsys \<Rightarrow> 'j jsys" where
  "fgo t pc s = s\<lparr>js_flush := (js_flush s)(t := pc)\<rparr>"

definition jinit :: "addr \<Rightarrow> 'j jsys" where
  "jinit q = \<lparr>js_obj = JobObject_default\<lparr>jo_thread := Some q\<rparr>, js_count = 0, js_queues = [], js_post = (\<lambda>_. PIdle),
     js_flush = (\<lambda>_. FIdle), js_deleted = False, js_posted = [], js_ran = []\<rparr>"

text \<open>A step of \<open>PostJob\<close> in thread \<open>t\<close>. A thread may post from outside or from within a job it runs.\<close>

inductive post_step :: "addr \<Rightarrow> 'j jsys \<Rightarrow> 'j jsys \<Rightarrow> bool" where
  call: "js_post s t = PIdle \<Longrightarrow> js_flush s t = FIdle \<or> (\<exists>old. js_flush s t = FRun old) \<Longrightarrow> post_step t s (pgo t (PCheck j) s)"
| refuse: "js_post s t = PCheck j \<Longrightarrow> marked s \<Longrightarrow> post_step t s (pgo t PIdle s)"
| admit: "js_post s t = PCheck j \<Longrightarrow> \<not> marked s \<Longrightarrow> post_step t s (pgo t (PEnqueue j) s)"
| link: "js_post s t = PEnqueue j \<Longrightarrow>
    post_step t s (pgo t PCount ((on_obj (\<lambda>x. x\<lparr>jo_jobQueue := jo_jobQueue x @ [j]\<rparr>) s)\<lparr>js_posted := js_posted s @ [j]\<rparr>))"
| count: "js_post s t = PCount \<Longrightarrow> post_step t s (pgo t PCas (s\<lparr>js_count := js_count s + 1\<rparr>))"
| cas_win: "js_post s t = PCas \<Longrightarrow> \<not> processing s \<Longrightarrow> post_step t s (pgo t PSchedule (on_obj (\<lambda>x. x\<lparr>jo_processing := True\<rparr>) s))"
| cas_lose: "js_post s t = PCas \<Longrightarrow> processing s \<Longrightarrow> post_step t s (pgo t PIdle s)"
| schedule: "js_post s t = PSchedule \<Longrightarrow> owner s = Some q \<Longrightarrow> post_step t s (pgo t PIdle (s\<lparr>js_queues := js_queues s @ [q]\<rparr>))"

text \<open>A step of \<open>ProcessJobObjects\<close> and \<open>Flush\<close> in thread \<open>t\<close>. A running job may post (above), mark the
  object for deletion and change its thread.\<close>

inductive flush_step :: "addr \<Rightarrow> 'j jsys \<Rightarrow> 'j jsys \<Rightarrow> bool" where
  take_object: "js_flush s t = FIdle \<Longrightarrow> t \<in> set (js_queues s) \<Longrightarrow> flush_step t s (fgo t FCheck (s\<lparr>js_queues := remove1 t (js_queues s)\<rparr>))"
| skip: "js_flush s t = FCheck \<Longrightarrow> marked s \<Longrightarrow> flush_step t s (fgo t (FDone True) s)"
| begin_flush: "js_flush s t = FCheck \<Longrightarrow> \<not> marked s \<Longrightarrow> flush_step t s (fgo t (FDequeue (owner s)) s)"
| reserve: "js_flush s t = FDequeue old \<Longrightarrow> 0 < js_count s \<Longrightarrow> flush_step t s (fgo t (FTake old) (s\<lparr>js_count := js_count s - 1\<rparr>))"
| none_left: "js_flush s t = FDequeue old \<Longrightarrow> js_count s \<le> 0 \<Longrightarrow> flush_step t s (fgo t FUndo (s\<lparr>js_count := js_count s - 1\<rparr>))"
| undo: "js_flush s t = FUndo \<Longrightarrow> flush_step t s (fgo t FClear (s\<lparr>js_count := js_count s + 1\<rparr>))"
| unlink: "js_flush s t = FTake old \<Longrightarrow> jq s = j # js \<Longrightarrow>
    flush_step t s (fgo t (FRun old) ((on_obj (\<lambda>x. x\<lparr>jo_jobQueue := js\<rparr>) s)\<lparr>js_ran := js_ran s @ [(t, j)]\<rparr>))"
| job_marks: "js_flush s t = FRun old \<Longrightarrow> flush_step t s (on_obj MarkForDelete s)"
| job_moves: "js_flush s t = FRun old \<Longrightarrow> flush_step t s (on_obj (\<lambda>x. x\<lparr>jo_thread := Some q\<rparr>) s)"
| job_ends: "js_flush s t = FRun old \<Longrightarrow> flush_step t s (fgo t (FMarked old) s)"
| leave_marked: "js_flush s t = FMarked old \<Longrightarrow> marked s \<Longrightarrow> flush_step t s (fgo t (FDone True) s)"
| stay: "js_flush s t = FMarked old \<Longrightarrow> \<not> marked s \<Longrightarrow> flush_step t s (fgo t (FThread old) s)"
| moved: "js_flush s t = FThread old \<Longrightarrow> owner s \<noteq> old \<Longrightarrow> flush_step t s (fgo t FRequeue s)"
| not_moved: "js_flush s t = FThread old \<Longrightarrow> owner s = old \<Longrightarrow> flush_step t s (fgo t (FDequeue old) s)"
| requeue: "js_flush s t = FRequeue \<Longrightarrow> owner s = Some q \<Longrightarrow> flush_step t s (fgo t (FDone False) (s\<lparr>js_queues := js_queues s @ [q]\<rparr>))"
| clear: "js_flush s t = FClear \<Longrightarrow> flush_step t s (fgo t FCount (on_obj (\<lambda>x. x\<lparr>jo_processing := False\<rparr>) s))"
| work_left: "js_flush s t = FCount \<Longrightarrow> 0 < js_count s \<Longrightarrow> flush_step t s (fgo t FCas s)"
| no_work: "js_flush s t = FCount \<Longrightarrow> js_count s \<le> 0 \<Longrightarrow> flush_step t s (fgo t (FDone False) s)"
| fcas_win: "js_flush s t = FCas \<Longrightarrow> \<not> processing s \<Longrightarrow> flush_step t s (fgo t FSchedule (on_obj (\<lambda>x. x\<lparr>jo_processing := True\<rparr>) s))"
| fcas_lose: "js_flush s t = FCas \<Longrightarrow> processing s \<Longrightarrow> flush_step t s (fgo t (FDone False) s)"
| reschedule: "js_flush s t = FSchedule \<Longrightarrow> owner s = Some q \<Longrightarrow> flush_step t s (fgo t (FDone False) (s\<lparr>js_queues := js_queues s @ [q]\<rparr>))"
| keep: "js_flush s t = FDone b \<Longrightarrow> \<not> marked s \<Longrightarrow> flush_step t s (fgo t FIdle s)"
| found_marked: "js_flush s t = FDone b \<Longrightarrow> marked s \<Longrightarrow> flush_step t s (fgo t (FDelete b) s)"
| delete: "js_flush s t = FDelete b \<Longrightarrow> flush_step t s (fgo t FIdle (s\<lparr>js_deleted := True\<rparr>))"

text \<open>The object exists until it is deleted; a thread inside \<open>PostJob\<close> does not flush meanwhile.\<close>

inductive job_step :: "'j jsys \<Rightarrow> 'j jsys \<Rightarrow> bool" where
  posting: "\<not> js_deleted s \<Longrightarrow> post_step t s s' \<Longrightarrow> job_step s s'"
| flushing: "\<not> js_deleted s \<Longrightarrow> js_post s t = PIdle \<Longrightarrow> flush_step t s s' \<Longrightarrow> job_step s s'"

inductive_cases post_stepE: "post_step t s s'"
inductive_cases flush_stepE: "flush_step t s s'"
inductive_cases job_stepE: "job_step s s'"

definition reachable :: "'j jsys \<Rightarrow> bool" where
  "reachable s \<longleftrightarrow> (\<exists>q. job_step\<^sup>*\<^sup>* (jinit q) s)"

section \<open>Who holds the object\<close>

text \<open>While \<open>m_processing\<close> is set exactly one place holds the object: the queue of a job thread, a thread about
  to put it there, or a thread that flushes it.\<close>

datatype holder = NoOne | InQueue addr | Poster addr | Flusher addr

fun holds :: "flush_pc \<Rightarrow> bool" where
  "holds FIdle = False" | "holds FCount = False" | "holds FCas = False"
| "holds (FDone b) = b" | "holds (FDelete b) = b" | "holds _ = True"

fun dying :: "flush_pc \<Rightarrow> bool" where
  "dying (FRun _) = True" | "dying (FMarked _) = True" | "dying (FDone b) = b" | "dying (FDelete b) = b" | "dying _ = False"

fun doomed :: "flush_pc \<Rightarrow> bool" where
  "doomed (FDone b) = b" | "doomed (FDelete b) = b" | "doomed _ = False"

fun at_home :: "flush_pc \<Rightarrow> bool" where
  "at_home FCheck = True" | "at_home (FDequeue _) = True" | "at_home (FTake _) = True" | "at_home FUndo = True"
| "at_home FClear = True" | "at_home _ = False"

fun pc_old :: "flush_pc \<Rightarrow> addr option option" where
  "pc_old (FDequeue old) = Some old" | "pc_old (FTake old) = Some old" | "pc_old (FRun old) = Some old"
| "pc_old (FMarked old) = Some old" | "pc_old (FThread old) = Some old" | "pc_old _ = None"

fun debt :: "flush_pc \<Rightarrow> bool" where
  "debt (FTake _) = True" | "debt FUndo = True" | "debt _ = False"

definition tok_inv :: "holder \<Rightarrow> 'j jsys \<Rightarrow> bool" where
  "tok_inv tok s \<longleftrightarrow>
     (processing s \<longleftrightarrow> tok \<noteq> NoOne) \<and>
     js_queues s = (case tok of InQueue q \<Rightarrow> [q] | _ \<Rightarrow> []) \<and>
     (\<forall>t. js_post s t = PSchedule \<longleftrightarrow> tok = Poster t) \<and>
     (\<forall>t. holds (js_flush s t) \<longleftrightarrow> tok = Flusher t) \<and>
     (marked s \<longrightarrow> (\<exists>t. tok = Flusher t \<and> dying (js_flush s t))) \<and>
     (\<forall>t. doomed (js_flush s t) \<longrightarrow> marked s)"

definition home_inv :: "holder \<Rightarrow> 'j jsys \<Rightarrow> bool" where
  "home_inv tok s \<longleftrightarrow>
     (\<forall>q. tok = InQueue q \<longrightarrow> owner s = Some q) \<and>
     (\<forall>t. at_home (js_flush s t) \<longrightarrow> owner s = Some t) \<and>
     (\<forall>t old. pc_old (js_flush s t) = Some old \<longrightarrow> old = Some t) \<and>
     owner s \<noteq> None"

text \<open>The nodes linked but not yet counted are those of the threads at \<open>PCount\<close>; the flushing thread
  has taken one from the counter between the two steps of \<open>Dequeue\<close>.\<close>

definition counting :: "'j jsys \<Rightarrow> addr set" where
  "counting s = {t. js_post s t = PCount}"

definition flush_debt :: "'j jsys \<Rightarrow> int" where
  "flush_debt s = (if \<exists>t. debt (js_flush s t) then 1 else 0)"

definition undo_debt :: "'j jsys \<Rightarrow> int" where
  "undo_debt s = (if \<exists>t. js_flush s t = FUndo then 1 else 0)"

definition count_inv :: "'j jsys \<Rightarrow> bool" where
  "count_inv s \<longleftrightarrow> finite (counting s) \<and>
     int (length (jq s)) = js_count s + flush_debt s + int (card (counting s)) \<and>
     0 \<le> js_count s + undo_debt s"

definition pwaking :: "'j post_pc \<Rightarrow> bool" where
  "pwaking pc \<longleftrightarrow> pc = PCount \<or> pc = PCas"

definition fwaking :: "flush_pc \<Rightarrow> bool" where
  "fwaking pc \<longleftrightarrow> pc = FCount \<or> pc = FCas"

definition waking :: "'j jsys \<Rightarrow> bool" where
  "waking s \<longleftrightarrow> (\<exists>t. pwaking (js_post s t) \<or> fwaking (js_flush s t))"

definition wake_inv :: "'j jsys \<Rightarrow> bool" where
  "wake_inv s \<longleftrightarrow> (jq s \<noteq> [] \<longrightarrow> processing s \<or> waking s)"

definition log_inv :: "'j jsys \<Rightarrow> bool" where
  "log_inv s \<longleftrightarrow> js_posted s = map snd (js_ran s) @ jq s"

definition jinv :: "holder \<Rightarrow> 'j jsys \<Rightarrow> bool" where
  "jinv tok s \<longleftrightarrow> tok_inv tok s \<and> home_inv tok s \<and> count_inv s \<and> wake_inv s \<and> log_inv s"

lemmas jsys_defs = on_obj_def pgo_def fgo_def
lemmas jinv_defs = tok_inv_def home_inv_def

lemma tok_at:
  assumes "tok_inv tok s"
  shows "js_post s t = PSchedule \<longleftrightarrow> tok = Poster t" "holds (js_flush s t) \<longleftrightarrow> tok = Flusher t"
    "doomed (js_flush s t) \<Longrightarrow> marked s"
  using assms by (auto simp: tok_inv_def)

lemma at_home_holds: "at_home pc \<Longrightarrow> holds pc"
  by (cases pc) simp_all

lemma debt_holds: "debt pc \<Longrightarrow> holds pc"
  by (cases pc) simp_all

lemma home_at:
  assumes "home_inv tok s"
  shows "at_home (js_flush s t) \<Longrightarrow> owner s = Some t" "pc_old (js_flush s t) = Some old \<Longrightarrow> old = Some t"
  using assms by (simp_all add: home_inv_def)

text \<open>The holder after a step of \<open>PostJob\<close> and of \<open>Flush\<close>.\<close>

definition post_tok :: "addr \<Rightarrow> holder \<Rightarrow> 'j jsys \<Rightarrow> 'j jsys \<Rightarrow> holder" where
  "post_tok t tok s s' =
     (if js_post s' t = PSchedule then Poster t else if js_post s t = PSchedule then InQueue (the (owner s)) else tok)"

definition flush_tok :: "addr \<Rightarrow> holder \<Rightarrow> 'j jsys \<Rightarrow> 'j jsys \<Rightarrow> holder" where
  "flush_tok t tok s s' =
     (if js_flush s t = FClear then NoOne
      else if js_flush s t = FRequeue \<or> js_flush s t = FSchedule then InQueue (the (owner s))
      else if holds (js_flush s' t) then Flusher t else tok)"

lemma post_step_tok:
  assumes "post_step t s s'" "tok_inv tok s" "home_inv tok s"
  shows "tok_inv (post_tok t tok s s') s' \<and> home_inv (post_tok t tok s s') s'"
  using assms tok_at(1) [OF assms(2), of t]
  by (cases rule: post_step.cases) (auto simp: post_tok_def jinv_defs jsys_defs split: holder.splits)

lemma flush_step_tok:
  assumes "flush_step t s s'" "tok_inv tok s" "home_inv tok s" "\<not> js_deleted s'"
  shows "tok_inv (flush_tok t tok s s') s' \<and> home_inv (flush_tok t tok s s') s'"
  using assms(1)
proof cases
  case (job_moves old q)
  have "\<not> at_home (js_flush s t')" for t'
    using tok_at(2) [OF assms(2)] job_moves at_home_holds [of "js_flush s t'"] by (cases "t' = t") force+
  with job_moves assms(2,3) tok_at(2) [OF assms(2), of t] show ?thesis
    by (auto simp: flush_tok_def jinv_defs jsys_defs)
qed (use assms(2-4) tok_at(2,3) [OF assms(2), of t] home_at [OF assms(3), of t] in
    \<open>auto simp: flush_tok_def jinv_defs jsys_defs MarkForDelete_def split: holder.splits\<close>)

section \<open>The counter and the wake-up\<close>

lemma counting_upd:
  assumes "finite (counting s)"
  shows "finite (counting (pgo t pc s))"
    "int (card (counting (pgo t pc s))) =
       int (card (counting s)) + (if pc = PCount then 1 else 0) - (if js_post s t = PCount then 1 else 0)"
  using card_upd [of "\<lambda>x. x = PCount" "js_post s" t pc] assms by (simp_all add: counting_def pgo_def)

lemma counting_frame [simp]:
  "counting (fgo t pc' s) = counting s" "counting (on_obj f s) = counting s" "counting (js_count_update g s) = counting s"
  "counting (js_posted_update h s) = counting s" "counting (js_ran_update r s) = counting s"
  "counting (js_queues_update q s) = counting s"
  by (simp_all add: counting_def jsys_defs)

lemma jsys_fields [simp]:
  "js_obj (pgo t pc s) = js_obj s" "js_obj (fgo t pc' s) = js_obj s" "js_obj (on_obj f s) = f (js_obj s)"
  "js_count (pgo t pc s) = js_count s" "js_count (fgo t pc' s) = js_count s" "js_count (on_obj f s) = js_count s"
  "js_flush (pgo t pc s) = js_flush s" "js_flush (on_obj f s) = js_flush s" "js_flush (fgo t pc' s) = (js_flush s)(t := pc')"
  "js_post (fgo t pc' s) = js_post s" "js_post (on_obj f s) = js_post s" "js_post (pgo t pc s) = (js_post s)(t := pc)"
  "js_posted (pgo t pc s) = js_posted s" "js_posted (fgo t pc' s) = js_posted s" "js_posted (on_obj f s) = js_posted s"
  "js_queues (pgo t pc s) = js_queues s" "js_queues (fgo t pc' s) = js_queues s" "js_queues (on_obj f s) = js_queues s"
  "js_deleted (pgo t pc s) = js_deleted s" "js_deleted (fgo t pc' s) = js_deleted s" "js_deleted (on_obj f s) = js_deleted s"
  "js_ran (pgo t pc s) = js_ran s" "js_ran (fgo t pc' s) = js_ran s" "js_ran (on_obj f s) = js_ran s"
  by (simp_all add: jsys_defs)

lemma post_step_numbers:
  assumes "post_step t s s'" "finite (counting s)"
  shows "finite (counting s')" "js_flush s' = js_flush s" "js_count s \<le> js_count s'"
    "int (length (jq s')) - js_count s' - int (card (counting s')) = int (length (jq s)) - js_count s - int (card (counting s))"
  using assms by (cases rule: post_step.cases; simp add: counting_upd)+

lemma post_step_count:
  assumes "post_step t s s'" "count_inv s"
  shows "count_inv s'"
  using assms post_step_numbers [OF assms(1)] by (simp add: count_inv_def flush_debt_def undo_debt_def)

lemma waking_pgo [simp]:
  "pwaking pc \<Longrightarrow> waking (pgo t pc s)"
  "\<not> pwaking (js_post s t) \<Longrightarrow> \<not> pwaking pc \<Longrightarrow> waking (pgo t pc s) = waking s"
  by (auto simp: waking_def split: if_splits)

lemma waking_fgo [simp]:
  "fwaking pc \<Longrightarrow> waking (fgo t pc s)"
  "\<not> fwaking (js_flush s t) \<Longrightarrow> \<not> fwaking pc \<Longrightarrow> waking (fgo t pc s) = waking s"
  by (auto simp: waking_def split: if_splits)

lemma waking_frame [simp]:
  "waking (on_obj f s) = waking s" "waking (js_count_update g s) = waking s" "waking (js_posted_update h s) = waking s"
  "waking (js_ran_update r s) = waking s" "waking (js_queues_update q s) = waking s"
  by (simp_all add: waking_def)

lemma post_step_wake: "post_step t s s' \<Longrightarrow> wake_inv s \<Longrightarrow> wake_inv s'"
  by (erule post_stepE) (simp_all add: wake_inv_def pwaking_def)

lemma flush_step_wake:
  assumes "flush_step t s s'" "tok_inv tok s" "count_inv s" "wake_inv s" "\<not> js_deleted s'"
  shows "wake_inv s'"
  using assms(1)
proof cases
  case no_work
  have "waking (fgo t (FDone False) s)" if "jq s \<noteq> []" "\<not> processing s"
  proof -
    from that(2) assms(2) have "tok = NoOne" by (simp add: tok_inv_def)
    moreover from this have "\<not> debt (js_flush s u)" for u
      using tok_at(2) [OF assms(2), of u] debt_holds [of "js_flush s u"] by auto
    ultimately have "0 < card (counting s)"
      using assms(3) that(1) no_work by (cases "jq s") (auto simp: count_inv_def flush_debt_def)
    then obtain u where "js_post s u = PCount" by (auto simp: card_gt_0_iff counting_def)
    then show ?thesis by (auto simp: waking_def pwaking_def)
  qed
  then show ?thesis using no_work by (auto simp: wake_inv_def)
next
  case clear
  then show ?thesis by (simp add: wake_inv_def fwaking_def)
next
  case fcas_win
  then show ?thesis by (simp add: wake_inv_def)
qed (use assms(4,5) in \<open>auto simp: wake_inv_def fwaking_def MarkForDelete_def\<close>)

lemma post_step_log: "post_step t s s' \<Longrightarrow> log_inv s \<Longrightarrow> log_inv s'"
  by (erule post_stepE) (simp_all add: log_inv_def)

lemma flush_step_log: "flush_step t s s' \<Longrightarrow> log_inv s \<Longrightarrow> log_inv s'"
  by (erule flush_stepE) (simp_all add: log_inv_def MarkForDelete_def)

text \<open>At most the holder of the object is in debt.\<close>

lemma debt_alone:
  assumes "tok_inv tok s" "holds (js_flush s t)" "debt (js_flush s u)"
  shows "u = t"
  using tok_at(2) [OF assms(1)] assms(2) debt_holds [OF assms(3)] by (metis holder.inject(3))

lemma debt_fgo:
  assumes "\<forall>u. debt (js_flush s u) \<longrightarrow> u = t"
  shows "flush_debt (fgo t pc s) = (if debt pc then 1 else 0)" "undo_debt (fgo t pc s) = (if pc = FUndo then 1 else 0)"
proof -
  have "js_flush s u \<noteq> FUndo" if "u \<noteq> t" for u using assms that by (metis debt.simps(2))
  then show "undo_debt (fgo t pc s) = (if pc = FUndo then 1 else 0)"
    unfolding undo_debt_def jsys_fields ex_upd [where P = "\<lambda>pc. pc = FUndo"] by metis
  show "flush_debt (fgo t pc s) = (if debt pc then 1 else 0)"
    unfolding flush_debt_def jsys_fields ex_upd using assms by metis
qed

lemma debt_fgo_same:
  assumes "\<not> debt (js_flush s t)" "\<not> debt pc"
  shows "flush_debt (fgo t pc s) = flush_debt s" "undo_debt (fgo t pc s) = undo_debt s"
proof -
  show "flush_debt (fgo t pc s) = flush_debt s"
    unfolding flush_debt_def jsys_fields ex_upd using assms by metis
  show "undo_debt (fgo t pc s) = undo_debt s"
    unfolding undo_debt_def jsys_fields ex_upd [where P = "\<lambda>pc. pc = FUndo"] using assms by (metis debt.simps(2))
qed

lemma debt_frame [simp]:
  "flush_debt (on_obj f s) = flush_debt s" "flush_debt (js_count_update g s) = flush_debt s"
  "flush_debt (js_ran_update r s) = flush_debt s" "flush_debt (js_queues_update q s) = flush_debt s"
  "undo_debt (on_obj f s) = undo_debt s" "undo_debt (js_count_update g s) = undo_debt s"
  "undo_debt (js_ran_update r s) = undo_debt s" "undo_debt (js_queues_update q s) = undo_debt s"
  by (simp_all add: flush_debt_def undo_debt_def)

lemma debt_now:
  assumes "tok_inv tok s" "holds (js_flush s t)"
  shows "flush_debt s = (if debt (js_flush s t) then 1 else 0)" "undo_debt s = (if js_flush s t = FUndo then 1 else 0)"
  unfolding flush_debt_def undo_debt_def using debt_alone [OF assms] by (metis debt.simps(2))+

lemma flush_step_count:
  assumes "flush_step t s s'" "tok_inv tok s" "count_inv s" "\<not> js_deleted s'"
  shows "count_inv s'"
proof (cases "debt (js_flush s t) \<or> debt (js_flush s' t)")
  case True
  then have h: "holds (js_flush s t)" using assms(1) by (elim flush_stepE) (auto split: if_splits)
  note d = debt_now [OF assms(2) h]
  have alone: "\<forall>u. debt (js_flush s u) \<longrightarrow> u = t" using debt_alone [OF assms(2) h] by blast
  from assms(1) show ?thesis
    by cases (use True assms(3) d alone in \<open>simp_all add: count_inv_def debt_fgo\<close>)
next
  case False
  with assms(1) have "flush_debt s' = flush_debt s \<and> undo_debt s' = undo_debt s \<and> counting s' = counting s \<and>
      js_count s' = js_count s \<and> jq s' = jq s"
    by (elim flush_stepE) (use assms(4) in \<open>simp_all add: debt_fgo_same MarkForDelete_def\<close>)
  then show ?thesis using assms(3) by (simp add: count_inv_def)
qed

lemma job_step_inv:
  assumes "job_step s s'" "jinv tok s" "\<not> js_deleted s'"
  shows "\<exists>tok'. jinv tok' s'"
  using assms(1)
proof cases
  case (posting t)
  then show ?thesis
    using assms(2) post_step_tok post_step_count post_step_wake post_step_log unfolding jinv_def by metis
next
  case (flushing t)
  then show ?thesis
    using assms(2,3) flush_step_tok flush_step_count flush_step_wake flush_step_log unfolding jinv_def by metis
qed

lemma jinit_inv: "jinv NoOne (jinit q)"
  by (simp add: jinv_def jinv_defs count_inv_def wake_inv_def log_inv_def jinit_def JobObject_default_def counting_def
      flush_debt_def undo_debt_def)

lemma job_step_alive: "job_step s s' \<Longrightarrow> \<not> js_deleted s"
  by (auto elim: job_stepE)

lemma steps_inv:
  assumes "job_step\<^sup>*\<^sup>* s s'" "jinv tok s" "\<not> js_deleted s'"
  shows "\<exists>tok'. jinv tok' s'"
  using assms(1,3)
proof (induction rule: rtranclp_induct)
  case (step y z)
  then show ?case using job_step_alive job_step_inv by metis
qed (use assms(2) in blast)

lemma reachable_inv:
  assumes "reachable s" "\<not> js_deleted s"
  obtains tok where "jinv tok s"
  using assms steps_inv [OF _ jinit_inv] unfolding reachable_def by blast

section \<open>Runs\<close>

lemma post_reach: "reachable s \<Longrightarrow> \<not> js_deleted s \<Longrightarrow> post_step t s s' \<Longrightarrow> reachable s'"
  unfolding reachable_def by (meson posting rtranclp.rtrancl_into_rtrancl)

lemma flush_reach: "reachable s \<Longrightarrow> \<not> js_deleted s \<Longrightarrow> js_post s t = PIdle \<Longrightarrow> flush_step t s s' \<Longrightarrow> reachable s'"
  unfolding reachable_def by (meson flushing rtranclp.rtrancl_into_rtrancl)

lemma jinit_reach: "reachable (jinit q)"
  unfolding reachable_def by blast

text \<open>The state after \<open>PostJob\<close> has run in one thread without interruption.\<close>

definition posted_state :: "'j \<Rightarrow> (bool \<times> addr option \<times> 'j JobObject) \<Rightarrow> 'j jsys \<Rightarrow> 'j jsys" where
  "posted_state j = (\<lambda>(ok, sched, jo) s. s\<lparr>js_obj := jo, js_count := js_count s + (if ok then 1 else 0),
     js_queues := js_queues s @ (case sched of None \<Rightarrow> [] | Some q \<Rightarrow> [q]),
     js_posted := js_posted s @ (if ok then [j] else [])\<rparr>)"

lemma post_steps:
  assumes "(post_step t)\<^sup>*\<^sup>* s s'" "\<not> js_deleted s"
  shows "job_step\<^sup>*\<^sup>* s s'"
proof -
  from assms have "job_step\<^sup>*\<^sup>* s s' \<and> \<not> js_deleted s'"
  proof (induction rule: rtranclp_induct)
    case (step y z)
    from step(2) have "js_deleted z = js_deleted y" by (auto elim: post_stepE)
    with step show ?case by (meson posting rtranclp.rtrancl_into_rtrancl)
  qed simp
  then show ?thesis ..
qed

lemma chain: "post_step t s s' \<Longrightarrow> (post_step t)\<^sup>*\<^sup>* s' s'' \<Longrightarrow> (post_step t)\<^sup>*\<^sup>* s s''"
  by (rule converse_rtranclp_into_rtranclp)

lemma link_end: "post_step t s s' \<Longrightarrow> (post_step t)\<^sup>*\<^sup>* s s'"
  by (rule r_into_rtranclp)

lemma back_idle [simp]: "js_post s t = PIdle \<Longrightarrow> (js_post s)(t := PIdle) = js_post s"
  by (simp add: fun_upd_idem)

lemma uninterrupted_post:
  assumes "\<not> js_deleted s" "js_post s t = PIdle" "js_flush s t = FIdle" "PostJob j (js_obj s) = Inr r"
  shows "job_step\<^sup>*\<^sup>* s (posted_state j r s)"
proof (rule post_steps [OF _ assms(1)])
  let ?s1 = "pgo t (PCheck j) s" let ?s2 = "pgo t (PEnqueue j) ?s1"
  let ?s3 = "pgo t PCount ((on_obj (\<lambda>x. x\<lparr>jo_jobQueue := jo_jobQueue x @ [j]\<rparr>) ?s2)\<lparr>js_posted := js_posted ?s2 @ [j]\<rparr>)"
  let ?s4 = "pgo t PCas (?s3\<lparr>js_count := js_count ?s3 + 1\<rparr>)"
  let ?s5 = "pgo t PSchedule (on_obj (\<lambda>x. x\<lparr>jo_processing := True\<rparr>) ?s4)"
  have 1: "post_step t s ?s1" using assms(2,3) by (intro call) simp_all
  show "(post_step t)\<^sup>*\<^sup>* s (posted_state j r s)"
  proof (cases "marked s")
    case True
    then have r: "posted_state j r s = pgo t PIdle ?s1"
      using assms(2,4) by (auto simp: PostJob_def posted_state_def jsys_defs)
    have "post_step t ?s1 (pgo t PIdle ?s1)" using True by (intro refuse [where j = j]) simp_all
    with 1 show ?thesis unfolding r by (meson chain link_end)
  next
    case False
    have 2: "post_step t ?s1 ?s2" using False by (intro admit [where j = j]) simp_all
    have 3: "post_step t ?s2 ?s3" by (rule link) simp
    have 4: "post_step t ?s3 ?s4" by (rule count) simp
    have "(post_step t)\<^sup>*\<^sup>* ?s4 (posted_state j r s)"
    proof (cases "processing s")
      case True
      then have r: "posted_state j r s = pgo t PIdle ?s4"
        using assms(2,4) False by (auto simp: PostJob_def posted_state_def jsys_defs)
      have "post_step t ?s4 (pgo t PIdle ?s4)" using True by (intro cas_lose) simp_all
      then show ?thesis unfolding r by (rule link_end)
    next
      case no: False
      then obtain q where q: "owner s = Some q" using assms(4) False by (auto simp: PostJob_def split: option.splits)
      let ?s6 = "pgo t PIdle (?s5\<lparr>js_queues := js_queues ?s5 @ [q]\<rparr>)"
      have r: "posted_state j r s = ?s6"
        using q assms(2,4) False no by (auto simp: PostJob_def posted_state_def jsys_defs)
      have 5: "post_step t ?s4 ?s5" using no by (intro cas_win) simp_all
      have 6: "post_step t ?s5 ?s6" using q by (intro schedule) simp_all
      show ?thesis unfolding r by (rule chain [OF 5 link_end [OF 6]])
    qed
    then show ?thesis by (rule chain [OF 1 chain [OF 2 chain [OF 3 chain [OF 4]]]])
  qed
qed

section \<open>Properties\<close>

text \<open>C7: Jobs of one object never run at the same time and run in order on the right thread. In every
  state that any interleaving of posting and flushing threads can reach before the object is deleted, at
  most one thread is inside a job of the object; the jobs started so far followed by the jobs queued are
  exactly the jobs posted, in the order of posting; and the next step that starts a job is taken by
  the thread the object names as its own at that moment.\<close>

theorem job_object_serial:
  assumes "reachable s" "\<not> js_deleted s"
  shows "(\<forall>t u old old'. js_flush s t = FRun old \<and> js_flush s u = FRun old' \<longrightarrow> t = u) \<and>
    js_posted s = map snd (js_ran s) @ jq s \<and>
    (\<forall>s' t j. job_step s s' \<and> js_ran s' = js_ran s @ [(t, j)] \<longrightarrow> owner s = Some t)"
proof -
  obtain tok where inv: "jinv tok s" using reachable_inv [OF assms] .
  then have tok: "tok_inv tok s" and home: "home_inv tok s" and log: "log_inv s" by (simp_all add: jinv_def)
  have "t = u" if "js_flush s t = FRun old" "js_flush s u = FRun old'" for t u old old'
    using that tok_at(2) [OF tok, of t] tok_at(2) [OF tok, of u] by simp
  moreover have "owner s = Some t" if st: "job_step s s'" and ran: "js_ran s' = js_ran s @ [(t, j)]" for s' t j
  proof -
    have no: "js_ran s \<noteq> js_ran s @ [(t, j)]" by simp
    from st show ?thesis
    proof cases
      case (posting v)
      then have "js_ran s' = js_ran s" by (auto elim: post_stepE)
      with ran show ?thesis by simp
    next
      case (flushing v)
      from flushing(3) show ?thesis
        by cases (use ran home_at(1) [OF home, of v] in simp_all)
    qed
  qed
  ultimately show ?thesis using log by (auto simp: log_inv_def)
qed

text \<open>C8: No wake-up is lost. In every reachable state in which no thread is inside \<open>PostJob\<close> or
  \<open>Flush\<close> and the object is not deleted, a job left in the queue means that the object stands, once, on the
  queue of the thread that owns it; and an object without jobs stands on at most that queue.\<close>

theorem no_lost_wakeup:
  assumes "reachable s" "\<not> js_deleted s" "\<forall>t. js_post s t = PIdle \<and> js_flush s t = FIdle"
  shows "(jq s \<noteq> [] \<longrightarrow> (\<exists>q. owner s = Some q \<and> js_queues s = [q])) \<and>
    (js_queues s = [] \<or> (\<exists>q. owner s = Some q \<and> js_queues s = [q])) \<and>
    js_count s = int (length (jq s))"
proof -
  obtain tok where inv: "jinv tok s" using reachable_inv [OF assms(1,2)] .
  then have tok: "tok_inv tok s" and home: "home_inv tok s" and cnt: "count_inv s" and wake: "wake_inv s"
    by (simp_all add: jinv_def)
  have "tok = NoOne \<or> (\<exists>q. tok = InQueue q)"
    using tok_at [OF tok] assms(3) by (cases tok) (metis post_pc.distinct(9) holds.simps(1))+
  then have q: "js_queues s = [] \<and> \<not> processing s \<or> (\<exists>q. owner s = Some q \<and> js_queues s = [q])"
    using tok home by (auto simp: jinv_defs)
  have "\<not> waking s" using assms(3) by (simp add: waking_def pwaking_def fwaking_def)
  with wake q have "jq s \<noteq> [] \<longrightarrow> (\<exists>q. owner s = Some q \<and> js_queues s = [q])" by (auto simp: wake_inv_def)
  moreover have "js_count s = int (length (jq s))"
    using cnt assms(3) by (simp add: count_inv_def flush_debt_def counting_def)
  ultimately show ?thesis using q by blast
qed

text \<open>A thread that runs \<open>PostJob\<close> without interruption takes the atomic steps to exactly the state the
  operation computes: the job is appended and counted unless the object is marked, and the object is put on
  its thread's queue exactly if it was not being processed.\<close>

lemma post_job_steps:
  assumes "\<not> js_deleted s" "js_post s t = PIdle" "js_flush s t = FIdle" "PostJob j (js_obj s) = Inr r"
  shows "job_step\<^sup>*\<^sup>* s (posted_state j r s)"
  using assms by (rule uninterrupted_post)

lemma post_job_steps_example:
  "\<exists>r. PostJob (5 :: nat) (js_obj (jinit 7)) = Inr r \<and> job_step\<^sup>*\<^sup>* (jinit 7) (posted_state 5 r (jinit 7)) \<and>
    js_queues (posted_state 5 r (jinit 7)) = [7]"
proof -
  let ?r = "(True, Some 7, \<lparr>jo_jobQueue = [5], jo_processing = True, jo_markedForDelete = False, jo_thread = Some 7\<rparr>)
    :: bool \<times> addr option \<times> nat JobObject"
  have "PostJob (5 :: nat) (js_obj (jinit 7)) = Inr ?r"
    by (simp add: PostJob_def jinit_def JobObject_default_def)
  then show ?thesis using post_job_steps [of "jinit 7" 1 5 ?r]
    by (auto simp: jinit_def posted_state_def)
qed

section \<open>Deletion\<close>

text \<open>One object on thread 7 with two jobs posted. The first moves it to thread 8, the second marks it.
  A third thread has passed the check of the mark in \<open>PostJob\<close> and not yet linked its job.\<close>

definition two_posted :: "nat jsys" where
  "two_posted = \<lparr>js_obj = \<lparr>jo_jobQueue = [10, 11], jo_processing = True, jo_markedForDelete = False, jo_thread = Some 7\<rparr>,
     js_count = 2, js_queues = [7], js_post = (\<lambda>_. PIdle)(1 := PEnqueue 12), js_flush = (\<lambda>_. FIdle), js_deleted = False,
     js_posted = [10, 11], js_ran = []\<rparr>"

definition mid_move :: "nat jsys" where
  "mid_move = two_posted\<lparr>js_obj := \<lparr>jo_jobQueue = [11], jo_processing = True, jo_markedForDelete = False, jo_thread = Some 8\<rparr>,
     js_count := 1, js_queues := [8], js_flush := (\<lambda>_. FIdle)(7 := FDone False), js_ran := [(7, 10)]\<rparr>"

definition both_delete :: "nat jsys" where
  "both_delete = two_posted\<lparr>js_obj := \<lparr>jo_jobQueue = [], jo_processing = True, jo_markedForDelete = True, jo_thread = Some 8\<rparr>,
     js_count := 0, js_queues := [], js_flush := (\<lambda>_. FIdle)(7 := FDelete False, 8 := FDelete True), js_ran := [(7, 10), (8, 11)]\<rparr>"

lemma two_posted_reach: "reachable two_posted"
proof -
  let ?r1 = "(True, Some 7, \<lparr>jo_jobQueue = [10], jo_processing = True, jo_markedForDelete = False, jo_thread = Some 7\<rparr>)
    :: bool \<times> addr option \<times> nat JobObject"
  let ?s1 = "posted_state 10 ?r1 (jinit 7)"
  let ?r2 = "(True, None, \<lparr>jo_jobQueue = [10, 11], jo_processing = True, jo_markedForDelete = False, jo_thread = Some 7\<rparr>)
    :: bool \<times> addr option \<times> nat JobObject"
  have "job_step\<^sup>*\<^sup>* (jinit 7) ?s1"
    by (rule uninterrupted_post) (simp_all add: PostJob_def jinit_def JobObject_default_def)
  moreover have "job_step\<^sup>*\<^sup>* ?s1 (posted_state 11 ?r2 ?s1)"
    by (rule uninterrupted_post) (simp_all add: PostJob_def jinit_def posted_state_def)
  ultimately have "job_step\<^sup>*\<^sup>* (jinit 7) (posted_state 11 ?r2 ?s1)" by (rule rtranclp_trans)
  then have r: "reachable (posted_state 11 ?r2 ?s1)" unfolding reachable_def by (rule exI)
  let ?s3 = "pgo 1 (PCheck 12) (posted_state 11 ?r2 ?s1)"
  have "post_step 1 (posted_state 11 ?r2 ?s1) ?s3" by (rule call) (simp_all add: posted_state_def jinit_def)
  then have 3: "reachable ?s3" by (rule post_reach [OF r, rotated]) (simp add: posted_state_def jinit_def)
  have "post_step 1 ?s3 two_posted"
    using admit [of ?s3 1 12] by (simp add: posted_state_def jinit_def two_posted_def pgo_def)
  then show ?thesis by (rule post_reach [OF 3, rotated]) (simp add: posted_state_def jinit_def)
qed

definition running :: "nat jsys" where
  "running = two_posted\<lparr>js_obj := (js_obj two_posted)\<lparr>jo_jobQueue := [11]\<rparr>, js_count := 1, js_queues := [],
     js_flush := (\<lambda>_. FIdle)(7 := FRun (Some 7)), js_ran := [(7, 10)]\<rparr>"

lemma running_reach: "reachable running"
proof -
  let ?s1 = "fgo 7 FCheck (two_posted\<lparr>js_queues := []\<rparr>)"
  have "flush_step 7 two_posted ?s1"
    using take_object [of two_posted 7] by (simp add: two_posted_def)
  then have 1: "reachable ?s1" by (rule flush_reach [OF two_posted_reach, rotated 2]) (simp_all add: two_posted_def)
  let ?s2 = "fgo 7 (FDequeue (Some 7)) ?s1"
  have "flush_step 7 ?s1 ?s2" using begin_flush [of ?s1 7] by (simp add: two_posted_def)
  then have 2: "reachable ?s2" by (rule flush_reach [OF 1, rotated 2]) (simp_all add: two_posted_def)
  let ?s3 = "fgo 7 (FTake (Some 7)) (?s2\<lparr>js_count := 1\<rparr>)"
  have "flush_step 7 ?s2 ?s3" using reserve [of ?s2 7 "Some 7"] by (simp add: two_posted_def)
  then have 3: "reachable ?s3" by (rule flush_reach [OF 2, rotated 2]) (simp_all add: two_posted_def)
  have "flush_step 7 ?s3 running"
    using unlink [of ?s3 7 "Some 7" 10 "[11]"] by (simp add: running_def two_posted_def jsys_defs)
  then show ?thesis by (rule flush_reach [OF 3, rotated 2]) (simp_all add: two_posted_def)
qed

lemma mid_move_reach: "reachable mid_move"
proof -
  let ?s1 = "on_obj (\<lambda>x. x\<lparr>jo_thread := Some 8\<rparr>) running"
  have "flush_step 7 running ?s1" by (rule job_moves [of _ _ "Some 7"]) (simp add: running_def)
  then have 1: "reachable ?s1" by (rule flush_reach [OF running_reach, rotated 2]) (simp_all add: running_def two_posted_def)
  let ?s2 = "fgo 7 (FMarked (Some 7)) ?s1"
  have "flush_step 7 ?s1 ?s2" by (rule job_ends) (simp add: running_def)
  then have 2: "reachable ?s2" by (rule flush_reach [OF 1, rotated 2]) (simp_all add: running_def two_posted_def)
  let ?s3 = "fgo 7 (FThread (Some 7)) ?s2"
  have "flush_step 7 ?s2 ?s3" by (rule stay) (simp_all add: running_def two_posted_def)
  then have 3: "reachable ?s3" by (rule flush_reach [OF 2, rotated 2]) (simp_all add: running_def two_posted_def)
  let ?s4 = "fgo 7 FRequeue ?s3"
  have "flush_step 7 ?s3 ?s4" by (rule moved [of _ _ "Some 7"]) simp_all
  then have 4: "reachable ?s4" by (rule flush_reach [OF 3, rotated 2]) (simp_all add: running_def two_posted_def)
  have "flush_step 7 ?s4 mid_move"
    using requeue [of ?s4 7 8] by (simp add: running_def mid_move_def two_posted_def jsys_defs)
  then show ?thesis by (rule flush_reach [OF 4, rotated 2]) (simp_all add: running_def two_posted_def)
qed

lemma both_delete_reach: "reachable both_delete"
proof -
  let ?s1 = "fgo 8 FCheck (mid_move\<lparr>js_queues := []\<rparr>)"
  note d = mid_move_def two_posted_def
  have "flush_step 8 mid_move ?s1" using take_object [of mid_move 8] by (simp add: d)
  then have 1: "reachable ?s1" by (rule flush_reach [OF mid_move_reach, rotated 2]) (simp_all add: d)
  let ?s2 = "fgo 8 (FDequeue (Some 8)) ?s1"
  have "flush_step 8 ?s1 ?s2" using begin_flush [of ?s1 8] by (simp add: d)
  then have 2: "reachable ?s2" by (rule flush_reach [OF 1, rotated 2]) (simp_all add: d)
  let ?s3 = "fgo 8 (FTake (Some 8)) (?s2\<lparr>js_count := 0\<rparr>)"
  have "flush_step 8 ?s2 ?s3" using reserve [of ?s2 8 "Some 8"] by (simp add: d)
  then have 3: "reachable ?s3" by (rule flush_reach [OF 2, rotated 2]) (simp_all add: d)
  let ?s4 = "fgo 8 (FRun (Some 8)) ((on_obj (\<lambda>x. x\<lparr>jo_jobQueue := []\<rparr>) ?s3)\<lparr>js_ran := [(7, 10), (8, 11)]\<rparr>)"
  have "flush_step 8 ?s3 ?s4" using unlink [of ?s3 8 "Some 8" 11 "[]"] by (simp add: d)
  then have 4: "reachable ?s4" by (rule flush_reach [OF 3, rotated 2]) (simp_all add: d)
  let ?s5 = "on_obj MarkForDelete ?s4"
  have "flush_step 8 ?s4 ?s5" by (rule job_marks [of _ _ "Some 8"]) simp
  then have 5: "reachable ?s5" by (rule flush_reach [OF 4, rotated 2]) (simp_all add: d)
  let ?s6 = "fgo 8 (FMarked (Some 8)) ?s5"
  have "flush_step 8 ?s5 ?s6" by (rule job_ends) simp
  then have 6: "reachable ?s6" by (rule flush_reach [OF 5, rotated 2]) (simp_all add: d)
  let ?s7 = "fgo 8 (FDone True) ?s6"
  have "flush_step 8 ?s6 ?s7" by (rule leave_marked [of _ _ "Some 8"]) (simp_all add: MarkForDelete_def)
  then have 7: "reachable ?s7" by (rule flush_reach [OF 6, rotated 2]) (simp_all add: d)
  let ?s8 = "fgo 8 (FDelete True) ?s7"
  have "flush_step 8 ?s7 ?s8" by (rule found_marked) (simp_all add: MarkForDelete_def)
  then have 8: "reachable ?s8" by (rule flush_reach [OF 7, rotated 2]) (simp_all add: d)
  have "flush_step 7 ?s8 both_delete"
    using found_marked [of ?s8 7 False]
    by (simp add: d both_delete_def jsys_defs MarkForDelete_def fun_upd_twist)
  then show ?thesis by (rule flush_reach [OF 8, rotated 2]) (simp_all add: d)
qed

theorem job_object_serial_witness:
  "js_flush running 7 = FRun (Some 7) \<and> js_posted running = [10, 11] \<and>
    js_posted running = map snd (js_ran running) @ jq running"
proof -
  have "js_flush running 7 = FRun (Some 7)" "\<not> js_deleted running" "js_posted running = [10, 11]"
    by (simp_all add: running_def two_posted_def)
  with job_object_serial [OF running_reach] show ?thesis by blast
qed

definition posted_once :: "nat jsys" where
  "posted_once = posted_state 5
     (True, Some 7, \<lparr>jo_jobQueue = [5], jo_processing = True, jo_markedForDelete = False, jo_thread = Some 7\<rparr>) (jinit 7)"

theorem no_lost_wakeup_witness:
  "jq posted_once = [5] \<and> js_queues posted_once = [7] \<and> js_count posted_once = int (length (jq posted_once))"
proof -
  have "job_step\<^sup>*\<^sup>* (jinit 7) posted_once" unfolding posted_once_def
    by (rule uninterrupted_post) (simp_all add: PostJob_def jinit_def JobObject_default_def)
  then have "reachable posted_once" unfolding reachable_def by blast
  from no_lost_wakeup [OF this] show ?thesis
    by (simp add: posted_once_def posted_state_def jinit_def)
qed

text \<open>C39: An object that is deleted is not protected from its other users: an interleaving of a posting
  thread, the thread the object was moved from and the thread it was moved to reaches a state in which the
  object is already deleted while a thread inside \<open>PostJob\<close> is about to link a job into its queue and
  another thread is about to delete it again.\<close>

theorem deletion_races:
  "\<exists>s :: nat jsys. reachable s \<and> js_deleted s \<and> (\<exists>t j. js_post s t = PEnqueue j) \<and> (\<exists>u b. js_flush s u = FDelete b)"
proof -
  let ?s = "fgo 8 FIdle (both_delete\<lparr>js_deleted := True\<rparr>)"
  have "flush_step 8 both_delete ?s" by (rule delete [of _ _ True]) (simp add: both_delete_def)
  then have "reachable ?s"
    by (rule flush_reach [OF both_delete_reach, rotated 2]) (simp_all add: both_delete_def two_posted_def)
  moreover have "js_post ?s 1 = PEnqueue 12" "js_flush ?s 7 = FDelete False" "js_deleted ?s"
    by (simp_all add: both_delete_def two_posted_def)
  ultimately show ?thesis by blast
qed

end
