(* ===== verification/GameLogic.thy ===== *)
theory GameLogic
  imports JobObject Event
begin

text \<open>
  The game logic layer (\<^verbatim>\<open>JunCore/logic\<close>): scenes with their objects, the global object manager, job threads
  and the frame of a game thread. Jobs are the closures of the source written as data: each constructor of
  \<open>job\<close> is one lambda with what it captures. The virtual functions a game overrides and the handlers of
  events act on an application state \<open>'u\<close>; they are arguments (\<open>hooks\<close>).

  Objects, scenes and threads live in maps from addresses; a look-up of an address that is not there is an
  access to a deleted object. A flush may go on for ever when jobs keep posting jobs, so the loops take
  fuel and \<open>None\<close> means that it ran out.

  Shown: moving an object to another scene takes it out of the old one, hands it to the thread of the new
  one and enters it there, once; destroying it removes it from its scene, from memory and from the
  registry; and moving an object to the scene it is in puts it there twice, so that a destroyed object
  stays in the scene.
\<close>

section \<open>State\<close>

datatype 'u job =
    JUser addr "addr list \<Rightarrow> 'u \<Rightarrow> 'u \<times> (addr \<times> 'u job) list"
  | JMoveOut addr addr
  | JEnter addr addr
  | JExit addr
  | JDestroy addr
  | JRegister u64 addr
  | JUnregister u64
  | JPostTo u64 "'u job"

record 'h GameObject =
  go_scene :: "addr option"
  go_sn :: u64
  go_OnBeforeDestroy :: "'h Event"

record GameScene =
  gs_objects :: "addr list"
  gs_thread :: "addr option"

record JobThread =
  jt_queue :: "addr list"
  jt_running :: bool
  jt_joinable :: bool
  jt_scenes :: "addr list"

record ('u, 'h) logic =
  lw_jobs :: "addr \<rightharpoonup> 'u job JobObject"
  lw_gobjs :: "addr \<rightharpoonup> 'h GameObject"
  lw_scenes :: "addr \<rightharpoonup> GameScene"
  lw_threads :: "addr \<rightharpoonup> JobThread"
  lw_mgr :: addr
  lw_objects :: "u64 \<rightharpoonup> addr"
  lw_nextSN :: u64
  lw_app :: 'u

record ('u, 'h) hooks =
  hk_OnEnter :: "addr \<Rightarrow> addr list \<Rightarrow> 'u \<Rightarrow> 'u"
  hk_OnExit :: "addr \<Rightarrow> addr list \<Rightarrow> 'u \<Rightarrow> 'u"
  hk_OnFixedUpdate :: "addr \<Rightarrow> addr list \<Rightarrow> 'u \<Rightarrow> 'u"
  hk_OnUpdate :: "addr \<Rightarrow> addr list \<Rightarrow> 'u \<Rightarrow> 'u"
  hk_scene_fixed :: "addr \<Rightarrow> 'u \<Rightarrow> 'u"
  hk_scene_update :: "addr \<Rightarrow> 'u \<Rightarrow> 'u"
  hk_handler :: "'h \<Rightarrow> 'h Event \<times> 'u \<Rightarrow> 'h Event \<times> 'u"
  hk_order :: "'h Event \<Rightarrow> u64 list"

definition deref :: "(addr \<rightharpoonup> 'x) \<Rightarrow> addr \<Rightarrow> fault + 'x" where
  "deref m a = (case m a of None \<Rightarrow> Inl UseAfterFree | Some x \<Rightarrow> Inr x)"

definition app :: "('u \<Rightarrow> 'u) \<Rightarrow> ('u, 'h) logic \<Rightarrow> ('u, 'h) logic" where
  "app f w = w\<lparr>lw_app := f (lw_app w)\<rparr>"

text \<open>The objects of the scene an object is in, which its virtual functions and closures may look at; none when
  \<open>m_pScene\<close> is null.\<close>

definition scene_objects :: "('u, 'h) logic \<Rightarrow> addr \<Rightarrow> addr list" where
  "scene_objects w obj =
     (case Option.bind (lw_gobjs w obj) go_scene of
        None \<Rightarrow> []
      | Some sc \<Rightarrow> (case lw_scenes w sc of None \<Rightarrow> [] | Some scene \<Rightarrow> gs_objects scene))"

section \<open>Posting\<close>

definition queue_object :: "addr \<Rightarrow> addr \<Rightarrow> ('u, 'h) logic \<Rightarrow> fault + ('u, 'h) logic" where
  "queue_object q jobObj w =
     rbind (deref (lw_threads w) q) (\<lambda>th.
       Inr (w\<lparr>lw_threads := (lw_threads w)(q \<mapsto> th\<lparr>jt_queue := jt_queue th @ [jobObj]\<rparr>)\<rparr>))"

definition post_to_object :: "addr \<Rightarrow> 'u job \<Rightarrow> ('u, 'h) logic \<Rightarrow> fault + ('u, 'h) logic" where
  "post_to_object jobObj j w =
     rbind (deref (lw_jobs w) jobObj) (\<lambda>jo.
       rbind (PostJob j jo) (\<lambda>(ok, sched, jo').
         let w1 = w\<lparr>lw_jobs := (lw_jobs w)(jobObj \<mapsto> jo')\<rparr>
         in case sched of None \<Rightarrow> Inr w1 | Some q \<Rightarrow> queue_object q jobObj w1))"

fun post_all :: "(addr \<times> 'u job) list \<Rightarrow> ('u, 'h) logic \<Rightarrow> fault + ('u, 'h) logic" where
  "post_all [] w = Inr w"
| "post_all ((a, j) # ps) w = rbind (post_to_object a j w) (post_all ps)"

section \<open>The object manager\<close>

definition Manager_Initialize :: "addr option \<Rightarrow> ('u, 'h) logic \<Rightarrow> job_error + ('u, 'h) logic" where
  "Manager_Initialize coreThread w =
     (if coreThread = None then Inl NullJobThread
      else case lw_jobs w (lw_mgr w) of
        None \<Rightarrow> Inr w
      | Some jo \<Rightarrow> (case SetJobThread coreThread jo of
            Inl e \<Rightarrow> Inl e
          | Inr jo' \<Rightarrow> Inr (w\<lparr>lw_jobs := (lw_jobs w)(lw_mgr w \<mapsto> jo')\<rparr>)))"

definition GenerateSN :: "('u, 'h) logic \<Rightarrow> u64 \<times> ('u, 'h) logic" where
  "GenerateSN w = (lw_nextSN w, w\<lparr>lw_nextSN := lw_nextSN w + 1\<rparr>)"

definition Register :: "addr option \<Rightarrow> ('u, 'h) logic \<Rightarrow> fault + ('u, 'h) logic" where
  "Register obj w = (case obj of
     None \<Rightarrow> Inr w
   | Some a \<Rightarrow> rbind (deref (lw_gobjs w) a) (\<lambda>g. post_to_object (lw_mgr w) (JRegister (go_sn g) a) w))"

definition Unregister :: "u64 \<Rightarrow> ('u, 'h) logic \<Rightarrow> fault + ('u, 'h) logic" where
  "Unregister sn w = post_to_object (lw_mgr w) (JUnregister sn) w"

definition PostTo :: "u64 \<Rightarrow> 'u job \<Rightarrow> ('u, 'h) logic \<Rightarrow> fault + ('u, 'h) logic" where
  "PostTo sn j w = post_to_object (lw_mgr w) (JPostTo sn j) w"

section \<open>Scenes\<close>

definition AddScene :: "addr \<Rightarrow> JobThread \<Rightarrow> JobThread" where
  "AddScene scene th = th\<lparr>jt_scenes := jt_scenes th @ [scene]\<rparr>"

definition RemoveScene :: "addr \<Rightarrow> JobThread \<Rightarrow> JobThread" where
  "RemoveScene scene th = th\<lparr>jt_scenes := remove1 scene (jt_scenes th)\<rparr>"

definition GameScene_ctor :: "addr \<Rightarrow> addr option \<Rightarrow> ('u, 'h) logic \<Rightarrow> fault + ('u, 'h) logic" where
  "GameScene_ctor this gameThread w =
     (let w1 = w\<lparr>lw_scenes := (lw_scenes w)(this \<mapsto> \<lparr>gs_objects = [], gs_thread = gameThread\<rparr>)\<rparr>
      in case gameThread of
        None \<Rightarrow> Inr w1
      | Some t \<Rightarrow> rbind (deref (lw_threads w1) t) (\<lambda>th. Inr (w1\<lparr>lw_threads := (lw_threads w1)(t \<mapsto> AddScene this th)\<rparr>)))"

definition GameScene_dtor :: "addr \<Rightarrow> ('u, 'h) logic \<Rightarrow> fault + ('u, 'h) logic" where
  "GameScene_dtor this w =
     rbind (deref (lw_scenes w) this) (\<lambda>sc.
       case gs_thread sc of
         None \<Rightarrow> Inr (w\<lparr>lw_scenes := (lw_scenes w)(this := None)\<rparr>)
       | Some t \<Rightarrow> rbind (deref (lw_threads w) t) (\<lambda>th.
           Inr (w\<lparr>lw_threads := (lw_threads w)(t \<mapsto> RemoveScene this th), lw_scenes := (lw_scenes w)(this := None)\<rparr>)))"

definition Scene_Enter :: "('u, 'h) hooks \<Rightarrow> addr \<Rightarrow> addr \<Rightarrow> ('u, 'h) logic \<Rightarrow> fault + ('u, 'h) logic" where
  "Scene_Enter hk this obj w =
     rbind (deref (lw_scenes w) this) (\<lambda>sc.
       let w1 = w\<lparr>lw_scenes := (lw_scenes w)(this \<mapsto> sc\<lparr>gs_objects := gs_objects sc @ [obj]\<rparr>)\<rparr>
       in rbind (deref (lw_gobjs w1) obj) (\<lambda>g.
         let w2 = w1\<lparr>lw_gobjs := (lw_gobjs w1)(obj \<mapsto> g\<lparr>go_scene := Some this\<rparr>)\<rparr>
         in Register (Some obj) (app (hk_OnEnter hk obj (scene_objects w2 obj)) w2)))"

definition Scene_Exit :: "('u, 'h) hooks \<Rightarrow> addr \<Rightarrow> addr \<Rightarrow> ('u, 'h) logic \<Rightarrow> fault + ('u, 'h) logic" where
  "Scene_Exit hk this obj w =
     (let w1 = app (hk_OnExit hk obj (scene_objects w obj)) w
      in rbind (deref (lw_gobjs w1) obj) (\<lambda>g.
        let w2 = w1\<lparr>lw_gobjs := (lw_gobjs w1)(obj \<mapsto> g\<lparr>go_scene := None\<rparr>)\<rparr>
        in rbind (deref (lw_scenes w2) this) (\<lambda>sc.
          Inr (w2\<lparr>lw_scenes := (lw_scenes w2)(this \<mapsto> sc\<lparr>gs_objects := remove1 obj (gs_objects sc)\<rparr>)\<rparr>))))"

text \<open>The calls of a virtual function on every object of a scene.\<close>

fun update_objects :: "(addr \<Rightarrow> addr list \<Rightarrow> 'u \<Rightarrow> 'u) \<Rightarrow> addr list \<Rightarrow> ('u, 'h) logic \<Rightarrow> fault + ('u, 'h) logic" where
  "update_objects f [] w = Inr w"
| "update_objects f (obj # objs) w = rbind (deref (lw_gobjs w) obj) (\<lambda>_. update_objects f objs (app (f obj (scene_objects w obj)) w))"

definition Scene_FixedUpdate :: "('u, 'h) hooks \<Rightarrow> addr \<Rightarrow> ('u, 'h) logic \<Rightarrow> fault + ('u, 'h) logic" where
  "Scene_FixedUpdate hk this w =
     (let w1 = app (hk_scene_fixed hk this) w
      in rbind (deref (lw_scenes w1) this) (\<lambda>sc. update_objects (hk_OnFixedUpdate hk) (gs_objects sc) w1))"

definition Scene_Update :: "('u, 'h) hooks \<Rightarrow> addr \<Rightarrow> ('u, 'h) logic \<Rightarrow> fault + ('u, 'h) logic" where
  "Scene_Update hk this w =
     (let w1 = app (hk_scene_update hk this) w
      in rbind (deref (lw_scenes w1) this) (\<lambda>sc. update_objects (hk_OnUpdate hk) (gs_objects sc) w1))"

section \<open>Objects\<close>

text \<open>The object is made at the address \<open>this\<close>; a scene without a thread makes the base class throw.\<close>

definition GameObject_ctor :: "addr \<Rightarrow> addr \<Rightarrow> ('u, 'h) logic \<Rightarrow> fault + (job_error + ('u, 'h) logic)" where
  "GameObject_ctor this scene w =
     rbind (deref (lw_scenes w) scene) (\<lambda>sc.
       case JobObject_ctor (gs_thread sc) of
         Inl e \<Rightarrow> Inr (Inl e)
       | Inr jo \<Rightarrow> let (sn, w1) = GenerateSN w
                 in Inr (Inr (w1\<lparr>lw_jobs := (lw_jobs w1)(this \<mapsto> jo),
                   lw_gobjs := (lw_gobjs w1)(this \<mapsto> \<lparr>go_scene = Some scene, go_sn = sn, go_OnBeforeDestroy = Event_ctor\<rparr>)\<rparr>)))"

definition Manager_Create :: "addr \<Rightarrow> addr \<Rightarrow> ('u, 'h) logic \<Rightarrow> fault + (job_error + ('u, 'h) logic)" where
  "Manager_Create obj scene w =
     rbind (GameObject_ctor obj scene w) (\<lambda>r. case r of
         Inl e \<Rightarrow> Inr (Inl e)
       | Inr w1 \<Rightarrow> rbind (post_to_object obj (JEnter obj scene) w1) (\<lambda>w2. Inr (Inr w2)))"

definition Object_Destroy :: "addr \<Rightarrow> ('u, 'h) logic \<Rightarrow> fault + ('u, 'h) logic" where
  "Object_Destroy this w = post_to_object this (JDestroy this) w"

definition MoveToScene :: "addr \<Rightarrow> addr option \<Rightarrow> ('u, 'h) logic \<Rightarrow> fault + ('u, 'h) logic" where
  "MoveToScene this newScene w = (case newScene of
     None \<Rightarrow> Inr w
   | Some ns \<Rightarrow> rbind (post_to_object this (JMoveOut this ns) w) (post_to_object this (JEnter this ns)))"

definition ExitScene :: "addr \<Rightarrow> ('u, 'h) logic \<Rightarrow> fault + ('u, 'h) logic" where
  "ExitScene this w = post_to_object this (JExit this) w"

definition IsInScene :: "'h GameObject \<Rightarrow> bool" where
  "IsInScene g \<longleftrightarrow> go_scene g \<noteq> None"

section \<open>Running a job\<close>

definition leave_scene :: "('u, 'h) hooks \<Rightarrow> addr \<Rightarrow> ('u, 'h) logic \<Rightarrow> fault + ('u, 'h) logic" where
  "leave_scene hk this w =
     rbind (deref (lw_gobjs w) this) (\<lambda>g. case go_scene g of None \<Rightarrow> Inr w | Some sc \<Rightarrow> Scene_Exit hk sc this w)"

text \<open>The bodies of the closures. An exception leaves the thread function, which ends the process.\<close>

fun run_job :: "('u, 'h) hooks \<Rightarrow> 'u job \<Rightarrow> ('u, 'h) logic \<Rightarrow> fault + ('u, 'h) logic" where
  "run_job hk (JUser this f) w = (let (u, ps) = f (scene_objects w this) (lw_app w) in post_all ps (w\<lparr>lw_app := u\<rparr>))"
| "run_job hk (JMoveOut this newScene) w =
     rbind (deref (lw_gobjs w) this) (\<lambda>g.
       if go_scene g = Some newScene then Inr w
       else rbind (leave_scene hk this w) (\<lambda>w1.
         rbind (deref (lw_scenes w1) newScene) (\<lambda>ns.
           rbind (deref (lw_jobs w1) this) (\<lambda>jo.
             case SetJobThread (gs_thread ns) jo of
               Inl _ \<Rightarrow> Inl Terminate
             | Inr jo' \<Rightarrow> Inr (w1\<lparr>lw_jobs := (lw_jobs w1)(this \<mapsto> jo')\<rparr>)))))"
| "run_job hk (JEnter this scene) w = Scene_Enter hk scene this w"
| "run_job hk (JExit this) w = leave_scene hk this w"
| "run_job hk (JDestroy this) w =
     rbind (leave_scene hk this w) (\<lambda>w1.
       rbind (deref (lw_gobjs w1) this) (\<lambda>g.
         let (_, ev, u) = Event_Invoke (hk_handler hk) (hk_order hk (go_OnBeforeDestroy g)) (go_OnBeforeDestroy g, lw_app w1);
             w2 = w1\<lparr>lw_app := u, lw_gobjs := (lw_gobjs w1)(this \<mapsto> g\<lparr>go_OnBeforeDestroy := ev\<rparr>)\<rparr>
         in rbind (Unregister (go_sn g) w2) (\<lambda>w3.
           rbind (deref (lw_jobs w3) this) (\<lambda>jo.
             Inr (w3\<lparr>lw_jobs := (lw_jobs w3)(this \<mapsto> MarkForDelete jo)\<rparr>)))))"
| "run_job hk (JRegister sn obj) w = Inr (w\<lparr>lw_objects := (lw_objects w)(sn \<mapsto> obj)\<rparr>)"
| "run_job hk (JUnregister sn) w = Inr (w\<lparr>lw_objects := (lw_objects w)(sn := None)\<rparr>)"
| "run_job hk (JPostTo sn j) w = (case lw_objects w sn of None \<Rightarrow> Inr w | Some obj \<Rightarrow> post_to_object obj j w)"

section \<open>Flushing\<close>

definition set_job :: "addr \<Rightarrow> 'u job JobObject \<Rightarrow> ('u, 'h) logic \<Rightarrow> ('u, 'h) logic" where
  "set_job a jo w = w\<lparr>lw_jobs := (lw_jobs w)(a \<mapsto> jo)\<rparr>"

definition requeue_object :: "addr \<Rightarrow> 'u job JobObject \<Rightarrow> ('u, 'h) logic \<Rightarrow> fault + ('u, 'h) logic" where
  "requeue_object this jo w = (case jo_thread jo of None \<Rightarrow> Inl NullDeref | Some q \<Rightarrow> queue_object q this w)"

definition flush_end :: "addr \<Rightarrow> 'u job JobObject \<Rightarrow> ('u, 'h) logic \<Rightarrow> fault + ('u, 'h) logic" where
  "flush_end this jo w =
     (let jo1 = jo\<lparr>jo_processing := False\<rparr> in
      if 0 < length (jo_jobQueue jo1) \<and> \<not> jo_processing jo1
      then let jo2 = jo1\<lparr>jo_processing := True\<rparr> in requeue_object this jo2 (set_job this jo2 w)
      else Inr (set_job this jo1 w))"

fun flush_loop :: "('u, 'h) hooks \<Rightarrow> nat \<Rightarrow> addr \<Rightarrow> addr option \<Rightarrow> ('u, 'h) logic \<Rightarrow> (fault + ('u, 'h) logic) option" where
  "flush_loop hk 0 this pOldThread w = None"
| "flush_loop hk (Suc n) this pOldThread w =
     xbind (Some (deref (lw_jobs w) this)) (\<lambda>jo.
       case jo_jobQueue jo of
         [] \<Rightarrow> Some (flush_end this jo w)
       | j # js \<Rightarrow>
           xbind (Some (run_job hk j (set_job this (jo\<lparr>jo_jobQueue := js\<rparr>) w))) (\<lambda>w1.
             xbind (Some (deref (lw_jobs w1) this)) (\<lambda>jo1.
               if jo_markedForDelete jo1 then Some (Inr w1)
               else if jo_thread jo1 \<noteq> pOldThread then Some (requeue_object this jo1 w1)
               else flush_loop hk n this pOldThread w1)))"

definition Flush :: "('u, 'h) hooks \<Rightarrow> nat \<Rightarrow> addr \<Rightarrow> ('u, 'h) logic \<Rightarrow> (fault + ('u, 'h) logic) option" where
  "Flush hk fuel this w =
     xbind (Some (deref (lw_jobs w) this)) (\<lambda>jo.
       if jo_markedForDelete jo then Some (Inr w) else flush_loop hk fuel this (jo_thread jo) w)"

definition delete_object :: "addr \<Rightarrow> ('u, 'h) logic \<Rightarrow> ('u, 'h) logic" where
  "delete_object a w = w\<lparr>lw_jobs := (lw_jobs w)(a := None), lw_gobjs := (lw_gobjs w)(a := None)\<rparr>"

fun ProcessJobObjects :: "('u, 'h) hooks \<Rightarrow> nat \<Rightarrow> addr \<Rightarrow> ('u, 'h) logic \<Rightarrow> (fault + ('u, 'h) logic) option" where
  "ProcessJobObjects hk 0 this w = None"
| "ProcessJobObjects hk (Suc n) this w =
     xbind (Some (deref (lw_threads w) this)) (\<lambda>th.
       case jt_queue th of
         [] \<Rightarrow> Some (Inr w)
       | jobObj # rest \<Rightarrow>
           xbind (Flush hk n jobObj (w\<lparr>lw_threads := (lw_threads w)(this \<mapsto> th\<lparr>jt_queue := rest\<rparr>)\<rparr>)) (\<lambda>w1.
             xbind (Some (deref (lw_jobs w1) jobObj)) (\<lambda>jo.
               if jo_markedForDelete jo then ProcessJobObjects hk n this (delete_object jobObj w1)
               else ProcessJobObjects hk n this w1)))"

section \<open>Threads\<close>

definition Thread_Start :: "JobThread \<Rightarrow> JobThread" where
  "Thread_Start th = (if jt_running th then th else th\<lparr>jt_running := True, jt_joinable := True\<rparr>)"

definition Thread_Stop :: "JobThread \<Rightarrow> JobThread" where
  "Thread_Stop th = (let th1 = th\<lparr>jt_running := False\<rparr> in if jt_joinable th1 then th1\<lparr>jt_joinable := False\<rparr> else th1)"

text \<open>The loop of a job thread that finds \<open>m_running\<close> set \<open>rounds\<close> times.\<close>

fun Thread_Run :: "('u, 'h) hooks \<Rightarrow> nat \<Rightarrow> nat \<Rightarrow> addr \<Rightarrow> ('u, 'h) logic \<Rightarrow> (fault + ('u, 'h) logic) option" where
  "Thread_Run hk fuel 0 this w = ProcessJobObjects hk fuel this w"
| "Thread_Run hk fuel (Suc rounds) this w = xbind (ProcessJobObjects hk fuel this w) (Thread_Run hk fuel rounds this)"

text \<open>The time of a game thread; the operations of \<open>float\<close> are arguments.\<close>

record 'f float_ops =
  fl_add :: "'f \<Rightarrow> 'f \<Rightarrow> 'f"
  fl_sub :: "'f \<Rightarrow> 'f \<Rightarrow> 'f"
  fl_ge :: "'f \<Rightarrow> 'f \<Rightarrow> bool"

record 'f Time =
  tm_deltaTime :: 'f
  tm_fixedDeltaTime :: 'f
  tm_time :: 'f
  tm_frameCount :: c_int

record 'f GameThread =
  gt_fixedTimeAccum :: 'f
  gt_fixedTimeStep :: 'f
  gt_time :: "'f Time"

definition SetFixedTimeStep :: "'f \<Rightarrow> 'f GameThread \<Rightarrow> 'f GameThread" where
  "SetFixedTimeStep timeStep gt = gt\<lparr>gt_fixedTimeStep := timeStep\<rparr>"

fun scenes_do :: "(addr \<Rightarrow> ('u, 'h) logic \<Rightarrow> fault + ('u, 'h) logic) \<Rightarrow> addr list \<Rightarrow> ('u, 'h) logic \<Rightarrow> fault + ('u, 'h) logic" where
  "scenes_do f [] w = Inr w"
| "scenes_do f (sc # scs) w = rbind (f sc w) (scenes_do f scs)"

fun fixed_loop :: "'f float_ops \<Rightarrow> ('u, 'h) hooks \<Rightarrow> nat \<Rightarrow> addr list \<Rightarrow> 'f GameThread \<Rightarrow> ('u, 'h) logic \<Rightarrow>
    (fault + 'f GameThread \<times> ('u, 'h) logic) option" where
  "fixed_loop fl hk 0 scs gt w = None"
| "fixed_loop fl hk (Suc n) scs gt w =
     (if fl_ge fl (gt_fixedTimeAccum gt) (gt_fixedTimeStep gt) then
        xbind (Some (scenes_do (Scene_FixedUpdate hk) scs w)) (\<lambda>w1.
          fixed_loop fl hk n scs (gt\<lparr>gt_fixedTimeAccum := fl_sub fl (gt_fixedTimeAccum gt) (gt_fixedTimeStep gt)\<rparr>) w1)
      else Some (Inr (gt, w)))"

text \<open>One frame of \<open>GameThread::Run\<close>; \<open>dt\<close> is what \<open>CalcDeltaTime\<close> returns. The wait at its end is left out.\<close>

definition game_frame :: "'f float_ops \<Rightarrow> ('u, 'h) hooks \<Rightarrow> nat \<Rightarrow> addr \<Rightarrow> 'f \<Rightarrow> 'f GameThread \<times> ('u, 'h) logic \<Rightarrow>
    (fault + 'f GameThread \<times> ('u, 'h) logic) option" where
  "game_frame fl hk fuel this dt = (\<lambda>(gt, w).
     let tm = gt_time gt;
         gt1 = gt\<lparr>gt_time := \<lparr>tm_deltaTime = dt, tm_fixedDeltaTime = gt_fixedTimeStep gt,
                   tm_time = fl_add fl (tm_time tm) dt, tm_frameCount = tm_frameCount tm + 1\<rparr>,
                  gt_fixedTimeAccum := fl_add fl (gt_fixedTimeAccum gt) dt\<rparr>
     in xbind (ProcessJobObjects hk fuel this w) (\<lambda>w1.
       xbind (Some (deref (lw_threads w1) this)) (\<lambda>th.
         xbind (fixed_loop fl hk fuel (jt_scenes th) gt1 w1) (\<lambda>(gt2, w2).
           xbind (Some (scenes_do (Scene_Update hk) (jt_scenes th) w2)) (\<lambda>w3. Some (Inr (gt2, w3)))))))"

definition time_init :: "'f \<Rightarrow> 'f GameThread \<Rightarrow> 'f GameThread" where
  "time_init zero gt = gt\<lparr>gt_time := \<lparr>tm_deltaTime = zero, tm_fixedDeltaTime = gt_fixedTimeStep gt, tm_time = zero, tm_frameCount = 0\<rparr>\<rparr>"

text \<open>The whole \<open>GameThread::Run\<close>, for the times measured while \<open>m_running\<close> is set.\<close>

fun game_frames :: "'f float_ops \<Rightarrow> ('u, 'h) hooks \<Rightarrow> nat \<Rightarrow> addr \<Rightarrow> 'f list \<Rightarrow> 'f GameThread \<times> ('u, 'h) logic \<Rightarrow>
    (fault + 'f GameThread \<times> ('u, 'h) logic) option" where
  "game_frames fl hk fuel this [] gw = xbind (ProcessJobObjects hk fuel this (snd gw)) (\<lambda>w. Some (Inr (fst gw, w)))"
| "game_frames fl hk fuel this (dt # dts) gw = xbind (game_frame fl hk fuel this dt gw) (game_frames fl hk fuel this dts)"

definition GameThread_Run :: "'f float_ops \<Rightarrow> ('u, 'h) hooks \<Rightarrow> nat \<Rightarrow> 'f \<Rightarrow> addr \<Rightarrow> 'f list \<Rightarrow> 'f GameThread \<times> ('u, 'h) logic \<Rightarrow>
    (fault + 'f GameThread \<times> ('u, 'h) logic) option" where
  "GameThread_Run fl hk fuel zero this dts = (\<lambda>(gt, w). game_frames fl hk fuel this dts (time_init zero gt, w))"

section \<open>Facts\<close>

lemma deref_simps [simp]: "m a = Some x \<Longrightarrow> deref m a = Inr x" "m a = None \<Longrightarrow> deref m a = Inl UseAfterFree"
  by (simp_all add: deref_def)

lemma app_fields [simp]:
  "lw_jobs (app f w) = lw_jobs w" "lw_gobjs (app f w) = lw_gobjs w" "lw_scenes (app f w) = lw_scenes w"
  "lw_threads (app f w) = lw_threads w" "lw_mgr (app f w) = lw_mgr w" "lw_objects (app f w) = lw_objects w"
  by (simp_all add: app_def)

lemma set_job_fields [simp]:
  "lw_jobs (set_job a jo w) = (lw_jobs w)(a \<mapsto> jo)" "lw_gobjs (set_job a jo w) = lw_gobjs w"
  "lw_scenes (set_job a jo w) = lw_scenes w" "lw_threads (set_job a jo w) = lw_threads w"
  "lw_mgr (set_job a jo w) = lw_mgr w" "lw_objects (set_job a jo w) = lw_objects w" "lw_app (set_job a jo w) = lw_app w"
  by (simp_all add: set_job_def)

text \<open>An object that waits in a scene: no jobs, not marked, owned by thread \<open>t\<close>.\<close>

definition idle_job :: "addr \<Rightarrow> 'u job JobObject" where
  "idle_job t = \<lparr>jo_jobQueue = [], jo_processing = False, jo_markedForDelete = False, jo_thread = Some t\<rparr>"

text \<open>The manager can be posted to: it is not marked, and it is being processed or its thread exists.\<close>

definition manager_ok :: "('u, 'h) logic \<Rightarrow> bool" where
  "manager_ok w \<longleftrightarrow> (\<exists>m. lw_jobs w (lw_mgr w) = Some m \<and> \<not> jo_markedForDelete m \<and>
     (jo_processing m \<or> (\<exists>q. jo_thread m = Some q \<and> lw_threads w q \<noteq> None)))"

definition mgr_jobs :: "('u, 'h) logic \<Rightarrow> 'u job list" where
  "mgr_jobs w = (case lw_jobs w (lw_mgr w) of None \<Rightarrow> [] | Some m \<Rightarrow> jo_jobQueue m)"

lemma manager_post:
  assumes "manager_ok w"
  obtains m ths where "post_to_object (lw_mgr w) j w = Inr (w\<lparr>lw_jobs := (lw_jobs w)(lw_mgr w \<mapsto> m), lw_threads := ths\<rparr>)"
    "jo_jobQueue m = mgr_jobs w @ [j]"
    "\<forall>t. jo_thread (the (lw_jobs w (lw_mgr w))) \<noteq> Some t \<longrightarrow> ths t = lw_threads w t"
    "jo_processing m \<and> \<not> jo_markedForDelete m \<and> jo_thread m = jo_thread (the (lw_jobs w (lw_mgr w)))"
proof -
  obtain m where m: "lw_jobs w (lw_mgr w) = Some m" "\<not> jo_markedForDelete m"
      "jo_processing m \<or> (\<exists>q. jo_thread m = Some q \<and> lw_threads w q \<noteq> None)"
    using assms by (auto simp: manager_ok_def)
  show thesis
  proof (cases "jo_processing m")
    case True
    with m have "post_to_object (lw_mgr w) j w =
        Inr (w\<lparr>lw_jobs := (lw_jobs w)(lw_mgr w \<mapsto> m\<lparr>jo_jobQueue := jo_jobQueue m @ [j]\<rparr>), lw_threads := lw_threads w\<rparr>)"
      by (simp add: post_to_object_def PostJob_def Let_def)
    then show thesis by (rule that) (simp_all add: mgr_jobs_def m True)
  next
    case False
    with m obtain q th where q: "jo_thread m = Some q" "lw_threads w q = Some th" by auto
    with m False have "post_to_object (lw_mgr w) j w =
        Inr (w\<lparr>lw_jobs := (lw_jobs w)(lw_mgr w \<mapsto> m\<lparr>jo_jobQueue := jo_jobQueue m @ [j], jo_processing := True\<rparr>),
          lw_threads := (lw_threads w)(q \<mapsto> th\<lparr>jt_queue := jt_queue th @ [lw_mgr w]\<rparr>)\<rparr>)"
      by (simp add: post_to_object_def PostJob_def Let_def queue_object_def)
    then show thesis by (rule that) (simp_all add: mgr_jobs_def m q)
  qed
qed

lemma manager_ok_frame:
  "manager_ok w \<Longrightarrow> lw_mgr w' = lw_mgr w \<Longrightarrow> lw_jobs w' (lw_mgr w) = lw_jobs w (lw_mgr w) \<Longrightarrow>
    dom (lw_threads w) \<subseteq> dom (lw_threads w') \<Longrightarrow> manager_ok w'"
  unfolding manager_ok_def by (metis domIff in_mono)

lemma first_posts:
  assumes "lw_jobs w x = Some (idle_job t)" "lw_threads w t = Some th"
  shows "post_to_object x j w = Inr (w\<lparr>lw_jobs := (lw_jobs w)(x \<mapsto> (idle_job t)\<lparr>jo_jobQueue := [j], jo_processing := True\<rparr>),
      lw_threads := (lw_threads w)(t \<mapsto> th\<lparr>jt_queue := jt_queue th @ [x]\<rparr>)\<rparr>)"
  using assms by (simp add: post_to_object_def PostJob_def idle_job_def Let_def queue_object_def)

text \<open>The two jobs of \<open>MoveToScene\<close> on an idle object.\<close>

definition moving_job :: "addr \<Rightarrow> addr \<Rightarrow> addr \<Rightarrow> 'u job JobObject" where
  "moving_job x ns t = (idle_job t)\<lparr>jo_jobQueue := [JMoveOut x ns, JEnter x ns], jo_processing := True\<rparr>"

lemma MoveToScene_posts:
  assumes "lw_jobs w x = Some (idle_job t)" "lw_threads w t = Some th"
  shows "MoveToScene x (Some ns) w = Inr (w\<lparr>lw_jobs := (lw_jobs w)(x \<mapsto> moving_job x ns t),
      lw_threads := (lw_threads w)(t \<mapsto> th\<lparr>jt_queue := jt_queue th @ [x]\<rparr>)\<rparr>)"
  using assms by (simp add: MoveToScene_def first_posts)
    (simp add: post_to_object_def PostJob_def idle_job_def moving_job_def Let_def)

lemma move_out_job:
  assumes "lw_gobjs w x = Some g" "go_scene g = Some sA" "sA \<noteq> sB" "lw_scenes w sA = Some scA" "lw_scenes w sB = Some scB"
    "gs_thread scB = Some t" "lw_jobs w x = Some jo"
  shows "\<exists>w'. run_job hk (JMoveOut x sB) w = Inr w' \<and> lw_jobs w' = (lw_jobs w)(x \<mapsto> jo\<lparr>jo_thread := Some t\<rparr>) \<and>
    lw_gobjs w' = (lw_gobjs w)(x \<mapsto> g\<lparr>go_scene := None\<rparr>) \<and>
    lw_scenes w' = (lw_scenes w)(sA \<mapsto> scA\<lparr>gs_objects := remove1 x (gs_objects scA)\<rparr>) \<and>
    lw_threads w' = lw_threads w \<and> lw_mgr w' = lw_mgr w \<and> lw_app w' = hk_OnExit hk x (gs_objects scA) (lw_app w)"
  using assms by (simp add: scene_objects_def leave_scene_def Scene_Exit_def SetJobThread_def Let_def app_def)

lemma enter_job:
  assumes "lw_gobjs w x = Some g" "lw_scenes w sB = Some scB" "manager_ok w"
  obtains m ths where "run_job hk (JEnter x sB) w =
      Inr (w\<lparr>lw_jobs := (lw_jobs w)(lw_mgr w \<mapsto> m), lw_gobjs := (lw_gobjs w)(x \<mapsto> g\<lparr>go_scene := Some sB\<rparr>),
        lw_scenes := (lw_scenes w)(sB \<mapsto> scB\<lparr>gs_objects := gs_objects scB @ [x]\<rparr>),
        lw_threads := ths, lw_app := hk_OnEnter hk x (gs_objects scB @ [x]) (lw_app w)\<rparr>)"
    "jo_jobQueue m = mgr_jobs w @ [JRegister (go_sn g) x]"
    "\<forall>t. jo_thread (the (lw_jobs w (lw_mgr w))) \<noteq> Some t \<longrightarrow> ths t = lw_threads w t"
    "jo_processing m \<and> \<not> jo_markedForDelete m \<and> jo_thread m = jo_thread (the (lw_jobs w (lw_mgr w)))"
proof -
  let ?w = "app (hk_OnEnter hk x (gs_objects scB @ [x])) (w\<lparr>lw_scenes := (lw_scenes w)(sB \<mapsto> scB\<lparr>gs_objects := gs_objects scB @ [x]\<rparr>),
    lw_gobjs := (lw_gobjs w)(x \<mapsto> g\<lparr>go_scene := Some sB\<rparr>)\<rparr>)"
  have ok: "manager_ok ?w" and same: "mgr_jobs ?w = mgr_jobs w"
    using assms(3) by (simp_all add: manager_ok_def mgr_jobs_def app_def)
  obtain m ths where
    post: "post_to_object (lw_mgr ?w) (JRegister (go_sn g) x) ?w =
      Inr (?w\<lparr>lw_jobs := (lw_jobs ?w)(lw_mgr ?w \<mapsto> m), lw_threads := ths\<rparr>)" and
    m: "jo_jobQueue m = mgr_jobs ?w @ [JRegister (go_sn g) x]" and
    ths: "\<forall>t. jo_thread (the (lw_jobs ?w (lw_mgr ?w))) \<noteq> Some t \<longrightarrow> ths t = lw_threads ?w t" and
    still: "jo_processing m \<and> \<not> jo_markedForDelete m \<and> jo_thread m = jo_thread (the (lw_jobs ?w (lw_mgr ?w)))"
    by (rule manager_post [OF ok]) (rule that)
  from assms(1,2) have run: "run_job hk (JEnter x sB) w = post_to_object (lw_mgr ?w) (JRegister (go_sn g) x) ?w"
    by (simp add: Scene_Enter_def Register_def Let_def app_def scene_objects_def)
  show thesis
  proof (rule that)
    show "jo_jobQueue m = mgr_jobs w @ [JRegister (go_sn g) x]" using m same by simp
    show "run_job hk (JEnter x sB) w =
      Inr (w\<lparr>lw_jobs := (lw_jobs w)(lw_mgr w \<mapsto> m), lw_gobjs := (lw_gobjs w)(x \<mapsto> g\<lparr>go_scene := Some sB\<rparr>),
        lw_scenes := (lw_scenes w)(sB \<mapsto> scB\<lparr>gs_objects := gs_objects scB @ [x]\<rparr>),
        lw_threads := ths, lw_app := hk_OnEnter hk x (gs_objects scB @ [x]) (lw_app w)\<rparr>)"
      unfolding run post by (simp add: app_def)
  qed (use ths still in simp_all)
qed

lemma update_dangling: "x \<in> set objs \<Longrightarrow> lw_gobjs w x = None \<Longrightarrow> update_objects f objs w = Inl UseAfterFree"
proof (induction objs arbitrary: w)
  case (Cons y objs)
  then show ?case by (cases "lw_gobjs w y") auto
qed simp

text \<open>The state after \<open>OnBeforeDestroy\<close> was invoked on an object that has left its scene.\<close>

definition destroyed_app :: "('u, 'h) hooks \<Rightarrow> addr \<Rightarrow> addr list \<Rightarrow> 'h GameObject \<Rightarrow> 'u \<Rightarrow> 'u" where
  "destroyed_app hk x objs g u =
     snd (snd (Event_Invoke (hk_handler hk) (hk_order hk (go_OnBeforeDestroy g)) (go_OnBeforeDestroy g, hk_OnExit hk x objs u)))"

lemma destroy_job:
  assumes "lw_gobjs w x = Some g" "go_scene g = Some sA" "lw_scenes w sA = Some scA" "manager_ok w" "lw_jobs w x = Some jo"
    "lw_mgr w \<noteq> x"
  obtains g' m ths where "run_job hk (JDestroy x) w =
      Inr (w\<lparr>lw_jobs := (lw_jobs w)(lw_mgr w \<mapsto> m, x \<mapsto> MarkForDelete jo), lw_gobjs := (lw_gobjs w)(x \<mapsto> g'),
        lw_scenes := (lw_scenes w)(sA \<mapsto> scA\<lparr>gs_objects := remove1 x (gs_objects scA)\<rparr>),
        lw_threads := ths, lw_app := destroyed_app hk x (gs_objects scA) g (lw_app w)\<rparr>)"
    "jo_jobQueue m = mgr_jobs w @ [JUnregister (go_sn g)]"
    "\<forall>t. jo_thread (the (lw_jobs w (lw_mgr w))) \<noteq> Some t \<longrightarrow> ths t = lw_threads w t"
proof -
  obtain called ev u where inv: "Event_Invoke (hk_handler hk) (hk_order hk (go_OnBeforeDestroy g))
      (go_OnBeforeDestroy g, hk_OnExit hk x (gs_objects scA) (lw_app w)) = (called, ev, u)" by (metis prod.exhaust)
  let ?g = "g\<lparr>go_scene := None\<rparr>\<lparr>go_OnBeforeDestroy := ev\<rparr>"
  let ?w = "w\<lparr>lw_scenes := (lw_scenes w)(sA \<mapsto> scA\<lparr>gs_objects := remove1 x (gs_objects scA)\<rparr>), lw_app := u,
    lw_gobjs := (lw_gobjs w)(x \<mapsto> ?g)\<rparr>"
  have ok: "manager_ok ?w" and same: "mgr_jobs ?w = mgr_jobs w"
    using assms(4) by (simp_all add: manager_ok_def mgr_jobs_def)
  obtain m ths where
    post: "post_to_object (lw_mgr ?w) (JUnregister (go_sn g)) ?w =
      Inr (?w\<lparr>lw_jobs := (lw_jobs ?w)(lw_mgr ?w \<mapsto> m), lw_threads := ths\<rparr>)" and
    m: "jo_jobQueue m = mgr_jobs ?w @ [JUnregister (go_sn g)]" and
    th: "\<forall>t. jo_thread (the (lw_jobs ?w (lw_mgr ?w))) \<noteq> Some t \<longrightarrow> ths t = lw_threads ?w t"
    by (rule manager_post [OF ok])
  have "run_job hk (JDestroy x) w =
      Inr (w\<lparr>lw_jobs := (lw_jobs w)(lw_mgr w \<mapsto> m, x \<mapsto> MarkForDelete jo), lw_gobjs := (lw_gobjs w)(x \<mapsto> ?g),
        lw_scenes := (lw_scenes w)(sA \<mapsto> scA\<lparr>gs_objects := remove1 x (gs_objects scA)\<rparr>),
        lw_threads := ths, lw_app := destroyed_app hk x (gs_objects scA) g (lw_app w)\<rparr>)"
    using post assms(1-3,5,6) inv
    by (simp add: leave_scene_def Scene_Exit_def Let_def app_def destroyed_app_def Unregister_def scene_objects_def)
  then show thesis by (rule that) (use m th same in simp_all)
qed

section \<open>Properties\<close>

text \<open>C24: Moving an object to a scene of another thread takes three hand-overs and happens once.
  \<open>MoveToScene\<close> on an idle object of scene A puts it on the queue of its thread. The flush there takes it
  out of A, makes the thread of scene B its thread and puts it on that thread's queue, without entering
  B. The flush there enters it into B, once, leaves it idle, and asks the manager to register it; the exit
  hook has run before the enter hook.\<close>

theorem move_to_scene_moves:
  assumes "lw_jobs w x = Some (idle_job ta)" "lw_gobjs w x = Some g" "go_scene g = Some sA"
    "lw_scenes w sA = Some scA" "lw_scenes w sB = Some scB" "gs_thread scB = Some tb"
    "lw_threads w ta = Some tha" "lw_threads w tb = Some thb" "sA \<noteq> sB" "ta \<noteq> tb" "lw_mgr w \<noteq> x" "manager_ok w"
  shows "\<exists>w1 w2 w3. MoveToScene x (Some sB) w = Inr w1 \<and> lw_threads w1 ta = Some (tha\<lparr>jt_queue := jt_queue tha @ [x]\<rparr>) \<and>
    Flush hk (Suc n) x w1 = Some (Inr w2) \<and>
      map_option gs_objects (lw_scenes w2 sA) = Some (remove1 x (gs_objects scA)) \<and>
      lw_scenes w2 sB = Some scB \<and> map_option go_scene (lw_gobjs w2 x) = Some None \<and>
      map_option jt_queue (lw_threads w2 tb) = Some (jt_queue thb @ [x]) \<and>
    Flush hk (Suc (Suc n)) x w2 = Some (Inr w3) \<and>
      map_option gs_objects (lw_scenes w3 sB) = Some (gs_objects scB @ [x]) \<and>
      map_option gs_objects (lw_scenes w3 sA) = Some (remove1 x (gs_objects scA)) \<and>
      map_option go_scene (lw_gobjs w3 x) = Some (Some sB) \<and> lw_jobs w3 x = Some (idle_job tb) \<and>
      mgr_jobs w3 = mgr_jobs w @ [JRegister (go_sn g) x] \<and>
      lw_app w3 = hk_OnEnter hk x (gs_objects scB @ [x]) (hk_OnExit hk x (gs_objects scA) (lw_app w))"
proof -
  let ?w1 = "w\<lparr>lw_jobs := (lw_jobs w)(x \<mapsto> moving_job x sB ta),
    lw_threads := (lw_threads w)(ta \<mapsto> tha\<lparr>jt_queue := jt_queue tha @ [x]\<rparr>)\<rparr>"
  let ?j1 = "(idle_job ta)\<lparr>jo_jobQueue := [JEnter x sB], jo_processing := True\<rparr>"
  note move_out_job [of "set_job x ?j1 ?w1" x g sA sB scA scB tb ?j1 hk]
  then obtain wm where m: "run_job hk (JMoveOut x sB) (set_job x ?j1 ?w1) = Inr wm"
      "lw_jobs wm = (lw_jobs w)(x \<mapsto> ?j1\<lparr>jo_thread := Some tb\<rparr>)" "lw_gobjs wm = (lw_gobjs w)(x \<mapsto> g\<lparr>go_scene := None\<rparr>)"
      "lw_scenes wm = (lw_scenes w)(sA \<mapsto> scA\<lparr>gs_objects := remove1 x (gs_objects scA)\<rparr>)"
      "lw_threads wm = (lw_threads w)(ta \<mapsto> tha\<lparr>jt_queue := jt_queue tha @ [x]\<rparr>)" "lw_mgr wm = lw_mgr w"
      "lw_app wm = hk_OnExit hk x (gs_objects scA) (lw_app w)"
    using assms by auto
  define w2 where "w2 = wm\<lparr>lw_threads := (lw_threads wm)(tb \<mapsto> thb\<lparr>jt_queue := jt_queue thb @ [x]\<rparr>)\<rparr>"
  have f1: "Flush hk (Suc n) x ?w1 = Some (Inr w2)"
    using m assms(8,10) by (simp add: Flush_def moving_job_def idle_job_def requeue_object_def queue_object_def w2_def)
  let ?j2 = "(idle_job tb)\<lparr>jo_processing := True\<rparr>"
  let ?w2' = "set_job x ?j2 w2"
  have ok: "manager_ok ?w2'" and same: "mgr_jobs ?w2' = mgr_jobs w"
    using assms(11) by (auto intro!: manager_ok_frame [OF assms(12)] simp: mgr_jobs_def w2_def m)
  have g2: "lw_gobjs ?w2' x = Some (g\<lparr>go_scene := None\<rparr>)" and s2: "lw_scenes ?w2' sB = Some scB"
    using assms(5,9) by (simp_all add: w2_def m)
  obtain mj ths where
    e: "run_job hk (JEnter x sB) ?w2' = Inr (?w2'\<lparr>lw_jobs := (lw_jobs ?w2')(lw_mgr ?w2' \<mapsto> mj),
        lw_gobjs := (lw_gobjs ?w2')(x \<mapsto> g\<lparr>go_scene := None\<rparr>\<lparr>go_scene := Some sB\<rparr>),
        lw_scenes := (lw_scenes ?w2')(sB \<mapsto> scB\<lparr>gs_objects := gs_objects scB @ [x]\<rparr>),
        lw_threads := ths, lw_app := hk_OnEnter hk x (gs_objects scB @ [x]) (lw_app ?w2')\<rparr>)" (is "_ = Inr ?we")
    and mj: "jo_jobQueue mj = mgr_jobs ?w2' @ [JRegister (go_sn (g\<lparr>go_scene := None\<rparr>)) x]"
    by (rule enter_job [OF g2 s2 ok])
  have f2: "Flush hk (Suc (Suc n)) x w2 = Some (Inr (set_job x (idle_job tb) ?we))"
    using e m assms(11) by (simp add: Flush_def w2_def idle_job_def flush_end_def)
  show ?thesis
    using MoveToScene_posts [OF assms(1,7), of sB] f1 f2 assms(5,8-11) m mj same
    by (intro exI [of _ ?w1] exI [of _ w2] exI [of _ "set_job x (idle_job tb) ?we"])
      (simp add: w2_def mgr_jobs_def)
qed

text \<open>Moving an object to the scene it is already in puts it there a second time: the first job of \<open>MoveToScene\<close> returns
  because the scene is the same, the second enters the object again.\<close>

lemma same_scene_move_enters_again:
  assumes "lw_jobs w x = Some (idle_job t)" "lw_gobjs w x = Some g" "go_scene g = Some sA" "lw_scenes w sA = Some scA"
    "lw_threads w t = Some th" "jt_queue th = []" "lw_mgr w \<noteq> x" "manager_ok w" "jo_thread (the (lw_jobs w (lw_mgr w))) \<noteq> Some t"
  shows "\<exists>w1 w2. MoveToScene x (Some sA) w = Inr w1 \<and> ProcessJobObjects hk (Suc (Suc (Suc (Suc n)))) t w1 = Some (Inr w2) \<and>
    lw_jobs w2 x = Some (idle_job t) \<and> lw_gobjs w2 x = Some g \<and> lw_scenes w2 sA = Some (scA\<lparr>gs_objects := gs_objects scA @ [x]\<rparr>) \<and>
    lw_threads w2 t = Some th \<and> lw_mgr w2 = lw_mgr w \<and> manager_ok w2 \<and> jo_thread (the (lw_jobs w2 (lw_mgr w))) \<noteq> Some t \<and>
    lw_app w2 = hk_OnEnter hk x (gs_objects scA @ [x]) (lw_app w)"
proof -
  let ?w1 = "w\<lparr>lw_jobs := (lw_jobs w)(x \<mapsto> moving_job x sA t),
    lw_threads := (lw_threads w)(t \<mapsto> th\<lparr>jt_queue := jt_queue th @ [x]\<rparr>)\<rparr>"
  let ?wp = "?w1\<lparr>lw_threads := (lw_threads ?w1)(t \<mapsto> th\<lparr>jt_queue := []\<rparr>)\<rparr>"
  let ?j1 = "(idle_job t)\<lparr>jo_jobQueue := [JEnter x sA], jo_processing := True\<rparr>"
  let ?j2 = "(idle_job t)\<lparr>jo_processing := True\<rparr>"
  let ?w2 = "set_job x ?j2 (set_job x ?j1 ?wp)"
  have ok: "manager_ok ?w2" using assms(7) by (auto intro!: manager_ok_frame [OF assms(8)])
  have g2: "lw_gobjs ?w2 x = Some g" and s2: "lw_scenes ?w2 sA = Some scA" using assms(2,4) by simp_all
  obtain mj ths where
    e: "run_job hk (JEnter x sA) ?w2 = Inr (?w2\<lparr>lw_jobs := (lw_jobs ?w2)(lw_mgr ?w2 \<mapsto> mj),
        lw_gobjs := (lw_gobjs ?w2)(x \<mapsto> g\<lparr>go_scene := Some sA\<rparr>),
        lw_scenes := (lw_scenes ?w2)(sA \<mapsto> scA\<lparr>gs_objects := gs_objects scA @ [x]\<rparr>),
        lw_threads := ths, lw_app := hk_OnEnter hk x (gs_objects scA @ [x]) (lw_app ?w2)\<rparr>)" (is "_ = Inr ?we")
      and ths: "\<forall>t. jo_thread (the (lw_jobs ?w2 (lw_mgr ?w2))) \<noteq> Some t \<longrightarrow> ths t = lw_threads ?w2 t"
      and mj: "jo_processing mj \<and> \<not> jo_markedForDelete mj \<and> jo_thread mj = jo_thread (the (lw_jobs ?w2 (lw_mgr ?w2)))"
    by (rule enter_job [OF g2 s2 ok])
  let ?wf = "set_job x (idle_job t) ?we"
  have f: "Flush hk (Suc (Suc (Suc n))) x ?wp = Some (Inr ?wf)"
    using e assms(2,3,7) by (simp add: Flush_def moving_job_def idle_job_def flush_end_def)
  have t: "ths t = Some (th\<lparr>jt_queue := []\<rparr>)" using ths assms(7,9) by simp
  have p: "ProcessJobObjects hk (Suc (Suc (Suc (Suc n)))) t ?w1 = Some (Inr ?wf)"
    using f t assms(6) by (simp add: idle_job_def)
  have okf: "manager_ok ?wf" using mj assms(7) by (simp add: manager_ok_def)
  have same: "g\<lparr>go_scene := Some sA\<rparr> = g" "th\<lparr>jt_queue := []\<rparr> = th" using assms(3,6) by simp_all
  show ?thesis using MoveToScene_posts [OF assms(1,5), of sA] p t okf mj assms(7,9) same
    by (intro exI [of _ ?w1] exI [of _ ?wf]) simp
qed

text \<open>Destroying an object removes it. For an idle object in a scene whose thread has nothing else queued, with the manager on another thread: \<open>Destroy\<close> puts it on its thread's
  queue, and processing that queue takes one entry of it out of the scene, calls the handlers of \<open>OnBeforeDestroy\<close>
  after the exit hook, asks the manager to unregister its serial number and deletes it.\<close>

lemma destroy_effect:
  assumes "lw_jobs w x = Some (idle_job t)" "lw_gobjs w x = Some g" "go_scene g = Some sA" "lw_scenes w sA = Some scA"
    "lw_threads w t = Some th" "jt_queue th = []" "lw_mgr w \<noteq> x" "manager_ok w"
    "jo_thread (the (lw_jobs w (lw_mgr w))) \<noteq> Some t"
  shows "\<exists>w1 w2. Object_Destroy x w = Inr w1 \<and> ProcessJobObjects hk (Suc (Suc n)) t w1 = Some (Inr w2) \<and>
    lw_jobs w2 x = None \<and> lw_gobjs w2 x = None \<and>
    lw_scenes w2 = (lw_scenes w)(sA \<mapsto> scA\<lparr>gs_objects := remove1 x (gs_objects scA)\<rparr>) \<and>
    mgr_jobs w2 = mgr_jobs w @ [JUnregister (go_sn g)] \<and> lw_app w2 = destroyed_app hk x (gs_objects scA) g (lw_app w)"
proof -
  let ?j1 = "(idle_job t)\<lparr>jo_jobQueue := [JDestroy x], jo_processing := True\<rparr>"
  let ?w1 = "w\<lparr>lw_jobs := (lw_jobs w)(x \<mapsto> ?j1), lw_threads := (lw_threads w)(t \<mapsto> th\<lparr>jt_queue := jt_queue th @ [x]\<rparr>)\<rparr>"
  let ?wp = "?w1\<lparr>lw_threads := (lw_threads ?w1)(t \<mapsto> th\<lparr>jt_queue := []\<rparr>)\<rparr>"
  let ?j2 = "?j1\<lparr>jo_jobQueue := []\<rparr>"
  let ?wr = "set_job x ?j2 ?wp"
  have ok: "manager_ok ?wr" and same: "mgr_jobs ?wr = mgr_jobs w"
    using assms(7) by (auto intro!: manager_ok_frame [OF assms(8)] simp: mgr_jobs_def)
  have r: "lw_gobjs ?wr x = Some g" "lw_scenes ?wr sA = Some scA" "lw_jobs ?wr x = Some ?j2" "lw_mgr ?wr \<noteq> x"
    using assms(2,4,7) by simp_all
  obtain g' m ths where
    d: "run_job hk (JDestroy x) ?wr = Inr (?wr\<lparr>lw_jobs := (lw_jobs ?wr)(lw_mgr ?wr \<mapsto> m, x \<mapsto> MarkForDelete ?j2),
        lw_gobjs := (lw_gobjs ?wr)(x \<mapsto> g'),
        lw_scenes := (lw_scenes ?wr)(sA \<mapsto> scA\<lparr>gs_objects := remove1 x (gs_objects scA)\<rparr>),
        lw_threads := ths, lw_app := destroyed_app hk x (gs_objects scA) g (lw_app ?wr)\<rparr>)" (is "_ = Inr ?wd") and
    m: "jo_jobQueue m = mgr_jobs ?wr @ [JUnregister (go_sn g)]" and
    ths: "\<forall>t. jo_thread (the (lw_jobs ?wr (lw_mgr ?wr))) \<noteq> Some t \<longrightarrow> ths t = lw_threads ?wr t"
    by (rule destroy_job [OF r(1) assms(3) r(2) ok r(3,4)])
  have t: "ths t = Some (th\<lparr>jt_queue := []\<rparr>)" using ths assms(7,9) by simp
  have f: "Flush hk (Suc n) x ?wp = Some (Inr ?wd)"
    using d by (simp add: Flush_def idle_job_def MarkForDelete_def)
  have p: "ProcessJobObjects hk (Suc (Suc n)) t ?w1 = Some (Inr (delete_object x ?wd))"
    using f t assms(6) by (simp add: delete_object_def MarkForDelete_def)
  have "Object_Destroy x w = Inr ?w1" using first_posts [OF assms(1,5)] by (simp add: Object_Destroy_def)
  then show ?thesis using p m same assms(7)
    by (intro exI [of _ ?w1] exI [of _ "delete_object x ?wd"])
      (simp add: delete_object_def mgr_jobs_def)
qed

section \<open>A small world\<close>

text \<open>Object 1 in scene 50 on thread 100, an empty scene 51 on thread 101 and the manager 9 on thread 102. The
  hooks write digits into the application state.\<close>

definition demo_hooks :: "(nat, nat) hooks" where
  "demo_hooks = \<lparr>hk_OnEnter = (\<lambda>_ _ u. 10 * u + 1), hk_OnExit = (\<lambda>_ _ u. 10 * u + 2), hk_OnFixedUpdate = (\<lambda>_ _ u. u),
     hk_OnUpdate = (\<lambda>_ _ u. u), hk_scene_fixed = (\<lambda>_ u. u), hk_scene_update = (\<lambda>_ u. u),
     hk_handler = (\<lambda>h (ev, u). (ev, 10 * u + h)), hk_order = (\<lambda>_. [0])\<rparr>"

definition demo_thread :: JobThread where
  "demo_thread = \<lparr>jt_queue = [], jt_running = True, jt_joinable = True, jt_scenes = []\<rparr>"

definition demo_object :: "nat GameObject" where
  "demo_object = \<lparr>go_scene = Some 50, go_sn = 7, go_OnBeforeDestroy = \<lparr>ev_handlers = [0 \<mapsto> 5], ev_nextId = 1\<rparr>\<rparr>"

definition demo_world :: "(nat, nat) logic" where
  "demo_world = \<lparr>lw_jobs = [1 \<mapsto> idle_job 100, 9 \<mapsto> idle_job 102], lw_gobjs = [1 \<mapsto> demo_object],
     lw_scenes = [50 \<mapsto> \<lparr>gs_objects = [1], gs_thread = Some 100\<rparr>, 51 \<mapsto> \<lparr>gs_objects = [], gs_thread = Some 101\<rparr>],
     lw_threads = [100 \<mapsto> demo_thread, 101 \<mapsto> demo_thread, 102 \<mapsto> demo_thread],
     lw_mgr = 9, lw_objects = Map.empty, lw_nextSN = 8, lw_app = 0\<rparr>"

lemma demo_facts:
  "lw_jobs demo_world 1 = Some (idle_job 100)" "lw_gobjs demo_world 1 = Some demo_object" "go_scene demo_object = Some 50"
  "lw_scenes demo_world 50 = Some \<lparr>gs_objects = [1], gs_thread = Some 100\<rparr>"
  "lw_scenes demo_world 51 = Some \<lparr>gs_objects = [], gs_thread = Some 101\<rparr>"
  "lw_threads demo_world 100 = Some demo_thread" "lw_threads demo_world 101 = Some demo_thread"
  "lw_mgr demo_world \<noteq> 1" "manager_ok demo_world" "jt_queue demo_thread = []"
  "jo_thread (the (lw_jobs demo_world (lw_mgr demo_world))) \<noteq> Some 100" "lw_app demo_world = 0" "mgr_jobs demo_world = []"
  by (simp_all add: demo_world_def demo_object_def demo_thread_def manager_ok_def idle_job_def mgr_jobs_def)

theorem move_to_scene_moves_witness:
  "\<exists>w1 w2 w3. MoveToScene 1 (Some 51) demo_world = Inr w1 \<and> Flush demo_hooks 1 1 w1 = Some (Inr w2) \<and>
    Flush demo_hooks 2 1 w2 = Some (Inr w3) \<and> map_option gs_objects (lw_scenes w3 51) = Some [1] \<and>
    map_option gs_objects (lw_scenes w3 50) = Some [] \<and> lw_app w3 = 21"
proof -
  note d = demo_facts
  have "gs_thread \<lparr>gs_objects = [], gs_thread = Some 101\<rparr> = Some 101" "(50 :: addr) \<noteq> 51" "(100 :: addr) \<noteq> 101" by simp_all
  from move_to_scene_moves [OF d(1-5) this(1) d(6,7) this(2,3) d(8,9), of demo_hooks 0]
  obtain w1 w2 w3 where "MoveToScene 1 (Some 51) demo_world = Inr w1" "Flush demo_hooks (Suc 0) 1 w1 = Some (Inr w2)"
    "Flush demo_hooks (Suc (Suc 0)) 1 w2 = Some (Inr w3)" "map_option gs_objects (lw_scenes w3 51) = Some [1]"
    "map_option gs_objects (lw_scenes w3 50) = Some []" "lw_app w3 = 21"
    by (elim exE conjE) (simp add: demo_hooks_def d(12))
  then show ?thesis unfolding One_nat_def numeral_2_eq_2 by blast
qed

end
