(* ===== verification/Player.thy ===== *)
theory Player
  imports Session Entity MoveComponent GameLogic
begin

text \<open>
  The player object of the game server (\<^verbatim>\<open>GameServer/Player.*\<close>): a game object with a movement component, owned by the user of a
  connection, that tells the players of its scene when it appears, moves and disappears.

  The application state of the game logic is \<open>pworld\<close>: users, players and movement components by address, and the
  packets handed to \<open>User::SendPacket\<close>, in order. Users are never deleted by the server. The virtual functions get the
  objects of the player's scene from the game logic (\<open>player_hooks\<close>). The messages are generated from the
  protocol file; here they are their fields. Floats are bit patterns with their arithmetic as an argument.
  The loops over the objects of a scene look the players up by address; that an object of the list has been deleted is a
  fault of the scene update (\<open>GameLogic\<close>), not of these loops.

  Shown: entering a scene sends exactly the packets of the protocol: the new player learns of every other player and each of
  them of the new one, once; leaving tells exactly the others.
\<close>

section \<open>Messages and state\<close>

type_synonym Pos = "u32 \<times> u32 \<times> u32"

datatype ErrorCode = ALREADY_LOGGED_IN | AUTH_FAILED | PLAYER_NOT_FOUND | SCENE_NOT_FOUND | NOT_LOGGED_IN

datatype game_packet =
    GC_ERROR_NOTIFY ErrorCode string
  | GC_LOGIN_RES u32 c_int Pos
  | GC_SCENE_CHANGE_RES c_int Pos
  | GC_SCENE_ENTER_NOTIFY c_int u32 Pos
  | GC_PLAYER_APPEAR_NOTIFY u32 Pos
  | GC_PLAYER_DISAPPEAR_NOTIFY u32
  | GC_MOVE_NOTIFY u32 Pos Pos

record Player =
  pl_owner :: "addr option"
  pl_player_id :: u32
  pl_moveComp :: addr
  pl_entity :: "string Entity"
  pl_moveStartSub :: Subscription
  pl_arrivedSub :: Subscription

text \<open>A handler of a movement event is the player whose \<open>BroadcastMoveNotify\<close> the closure calls.\<close>

record pworld =
  pw_users :: "addr \<rightharpoonup> User"
  pw_players :: "addr \<rightharpoonup> Player"
  pw_moves :: "addr \<rightharpoonup> (u32, addr) MoveComponent"
  pw_owners :: owners
  pw_sent :: "(addr \<times> game_packet) list"

record game_env =
  ge_float :: "u32 float_arith"
  ge_order :: "addr Event \<Rightarrow> u64 list"

definition user_at :: "pworld \<Rightarrow> addr \<Rightarrow> User" where
  "user_at w o' = (case pw_users w o' of None \<Rightarrow> User_ctor | Some u \<Rightarrow> u)"

definition send_to :: "addr option \<Rightarrow> game_packet \<Rightarrow> pworld \<Rightarrow> pworld" where
  "send_to receiver packet w = (case receiver of None \<Rightarrow> w | Some o' \<Rightarrow> w\<lparr>pw_sent := pw_sent w @ [(o', packet)]\<rparr>)"

section \<open>Sending\<close>

definition Player_SendPacket :: "Player \<Rightarrow> game_packet \<Rightarrow> pworld \<Rightarrow> pworld" where
  "Player_SendPacket p packet w = send_to (pl_owner p) packet w"

fun BroadcastToScene :: "addr list \<Rightarrow> game_packet \<Rightarrow> pworld \<Rightarrow> pworld" where
  "BroadcastToScene [] packet w = w"
| "BroadcastToScene (obj # objs) packet w =
     BroadcastToScene objs packet (case pw_players w obj of None \<Rightarrow> w | Some player \<Rightarrow> send_to (pl_owner player) packet w)"

fun BroadcastToOthers :: "addr \<Rightarrow> addr list \<Rightarrow> game_packet \<Rightarrow> pworld \<Rightarrow> pworld" where
  "BroadcastToOthers this [] packet w = w"
| "BroadcastToOthers this (obj # objs) packet w =
     BroadcastToOthers this objs packet
       (case pw_players w obj of None \<Rightarrow> w | Some player \<Rightarrow> if obj \<noteq> this then send_to (pl_owner player) packet w else w)"

section \<open>Moving\<close>

definition move_of :: "pworld \<Rightarrow> Player \<Rightarrow> (u32, addr) MoveComponent" where
  "move_of w p = the (pw_moves w (pl_moveComp p))"

definition set_move :: "Player \<Rightarrow> (u32, addr) MoveComponent \<Rightarrow> pworld \<Rightarrow> pworld" where
  "set_move p mc w = w\<lparr>pw_moves := (pw_moves w)(pl_moveComp p \<mapsto> mc)\<rparr>"

definition GetCurrentPos :: "pworld \<Rightarrow> Player \<Rightarrow> Pos" where
  "GetCurrentPos w p = GetPosition (move_of w p)"

definition GetDestPos :: "pworld \<Rightarrow> Player \<Rightarrow> Pos" where
  "GetDestPos w p = GetDestination (move_of w p)"

definition BroadcastMoveNotify :: "addr list \<Rightarrow> addr \<Rightarrow> (u32, addr) MoveComponent \<Rightarrow> pworld \<Rightarrow> pworld" where
  "BroadcastMoveNotify objs this mc w = (case pw_players w this of
     None \<Rightarrow> w
   | Some p \<Rightarrow> BroadcastToScene objs (GC_MOVE_NOTIFY (pl_player_id p) (GetPosition mc) (GetDestination mc)) w)"

definition set_destination :: "game_env \<Rightarrow> addr list \<Rightarrow> Player \<Rightarrow> Pos \<Rightarrow> pworld \<Rightarrow> pworld" where
  "set_destination env objs p dest w =
     (let (x, y, z) = dest;
          (mc, w1) = SetDestination (BroadcastMoveNotify objs) (ge_order env (mc_OnMoveStart (move_of w p))) x y z (move_of w p, w)
      in set_move p mc w1)"

definition HandleSetDestPos :: "game_env \<Rightarrow> addr \<Rightarrow> Pos \<Rightarrow> addr list \<Rightarrow> pworld \<Rightarrow> pworld" where
  "HandleSetDestPos env this dest_pos objs w = (case pw_players w this of None \<Rightarrow> w | Some p \<Rightarrow> set_destination env objs p dest_pos w)"

definition PostSetDestPosJob :: "game_env \<Rightarrow> addr \<Rightarrow> Pos \<Rightarrow> (pworld, 'h) logic \<Rightarrow> fault + (pworld, 'h) logic" where
  "PostSetDestPosJob env this dest_pos lw =
     post_to_object this (JUser this (\<lambda>objs w. (HandleSetDestPos env this dest_pos objs w, []))) lw"

section \<open>Virtual functions\<close>

text \<open>The fixed update of the components, which for the movement component may raise the arrival event.\<close>

definition component_update :: "game_env \<Rightarrow> addr list \<Rightarrow> addr \<Rightarrow> pworld \<Rightarrow> pworld" where
  "component_update env objs c w = (case pw_moves w c of
     None \<Rightarrow> w
   | Some mc \<Rightarrow>
       let (mc1, w1) = Move_OnFixedUpdate (ge_float env) (BroadcastMoveNotify objs) (ge_order env (mc_OnArrived mc)) (mc, w)
       in w1\<lparr>pw_moves := (pw_moves w1)(c \<mapsto> mc1)\<rparr>)"

definition Player_OnFixedUpdate :: "game_env \<Rightarrow> addr \<Rightarrow> addr list \<Rightarrow> pworld \<Rightarrow> pworld" where
  "Player_OnFixedUpdate env this objs w = (case pw_players w this of
     None \<Rightarrow> w
   | Some p \<Rightarrow> FixedUpdateComponents \<lparr>ch_OnAttach = (\<lambda>_ u. u), ch_OnDetach = (\<lambda>_ u. u), ch_OnUpdate = (\<lambda>_ u. u), ch_OnFixedUpdate = component_update env objs\<rparr>
       (pl_entity p) w)"

text \<open>The loop at the end of \<open>OnEnter\<close>.\<close>

fun send_existing :: "addr \<Rightarrow> Player \<Rightarrow> addr list \<Rightarrow> pworld \<Rightarrow> pworld" where
  "send_existing this p [] w = w"
| "send_existing this p (obj # objs) w =
     send_existing this p objs
       (case pw_players w obj of
          None \<Rightarrow> w
        | Some other \<Rightarrow>
            if obj \<noteq> this \<and> pl_owner other \<noteq> None
            then Player_SendPacket p (GC_PLAYER_APPEAR_NOTIFY (pl_player_id other) (GetCurrentPos w other)) w else w)"

definition Player_OnEnter :: "game_env \<Rightarrow> addr \<Rightarrow> addr list \<Rightarrow> pworld \<Rightarrow> pworld" where
  "Player_OnEnter env this objs w = (case pw_players w this of
     None \<Rightarrow> w
   | Some p \<Rightarrow>
       let (scene_id, spawn) = (case pl_owner p of
               None \<Rightarrow> (0, (fa_zero (ge_float env), fa_zero (ge_float env), fa_zero (ge_float env)))
             | Some o' \<Rightarrow> (User_GetLastSceneId (user_at w o'), User_GetSpawnPos (user_at w o')));
           (x, y, z) = spawn;
           w1 = set_move p (SetPosition x y z (move_of w p)) w;
           w2 = set_destination env objs p (x, y, z) w1;
           w3 = Player_SendPacket p (GC_SCENE_ENTER_NOTIFY scene_id (pl_player_id p) (GetCurrentPos w2 p)) w2;
           w4 = BroadcastToOthers this objs (GC_PLAYER_APPEAR_NOTIFY (pl_player_id p) (GetCurrentPos w3 p)) w3
       in send_existing this p objs w4)"

definition Player_OnExit :: "addr \<Rightarrow> addr list \<Rightarrow> pworld \<Rightarrow> pworld" where
  "Player_OnExit this objs w = (case pw_players w this of
     None \<Rightarrow> w
   | Some p \<Rightarrow> BroadcastToOthers this objs (GC_PLAYER_DISAPPEAR_NOTIFY (pl_player_id p)) w)"

definition player_hooks :: "game_env \<Rightarrow> (pworld, unit) hooks" where
  "player_hooks env = \<lparr>hk_OnEnter = Player_OnEnter env, hk_OnExit = Player_OnExit, hk_OnFixedUpdate = Player_OnFixedUpdate env,
     hk_OnUpdate = (\<lambda>_ _ w. w), hk_scene_fixed = (\<lambda>_ w. w), hk_scene_update = (\<lambda>_ w. w), hk_handler = (\<lambda>_ st. st), hk_order = (\<lambda>_. [])\<rparr>"

text \<open>The constructor behind that of the base class; \<open>cptr\<close> is the address of the new component.\<close>

definition Player_ctor :: "game_env \<Rightarrow> addr \<Rightarrow> addr option \<Rightarrow> u32 \<Rightarrow> addr \<Rightarrow> pworld \<Rightarrow> pworld" where
  "Player_ctor env this user player_id cptr w =
     (let (ptr, ent, own, _) = AddComponent \<lparr>ch_OnAttach = (\<lambda>_ u. u), ch_OnDetach = (\<lambda>_ u. u), ch_OnUpdate = (\<lambda>_ u. u), ch_OnFixedUpdate = (\<lambda>_ u. u)\<rparr>
            this ''MoveComponent'' cptr (Entity_ctor, pw_owners w, ());
          mc = MoveComponent_ctor (ge_float env) (fa_tenth (ge_float env));
          (sub1, start) = Event_Subscribe this (mc_OnMoveStart mc);
          (sub2, arrived) = Event_Subscribe this (mc_OnArrived mc)
      in w\<lparr>pw_players := (pw_players w)(this \<mapsto> \<lparr>pl_owner = user, pl_player_id = player_id, pl_moveComp = ptr, pl_entity = ent,
             pl_moveStartSub = sub1, pl_arrivedSub = sub2\<rparr>),
           pw_moves := (pw_moves w)(ptr \<mapsto> mc\<lparr>mc_OnMoveStart := start, mc_OnArrived := arrived\<rparr>), pw_owners := own\<rparr>)"

section \<open>Who is told\<close>

definition owner_of :: "pworld \<Rightarrow> addr \<Rightarrow> addr option" where
  "owner_of w obj = Option.bind (pw_players w obj) pl_owner"

definition audience :: "pworld \<Rightarrow> addr list \<Rightarrow> addr list" where
  "audience w objs = List.map_filter (owner_of w) objs"

definition told :: "(addr \<times> game_packet) list \<Rightarrow> pworld \<Rightarrow> pworld" where
  "told ps w = w\<lparr>pw_sent := pw_sent w @ ps\<rparr>"

lemma told_simps [simp]:
  "pw_players (told ps w) = pw_players w" "pw_users (told ps w) = pw_users w" "pw_moves (told ps w) = pw_moves w" "pw_owners (told ps w) = pw_owners w"
  "pw_sent (told ps w) = pw_sent w @ ps" "told [] w = w" "told qs (told ps w) = told (ps @ qs) w"
  by (simp_all add: told_def)

lemma told_views [simp]: "owner_of (told ps w) = owner_of w" "move_of (told ps w) = move_of w" "GetCurrentPos (told ps w) = GetCurrentPos w"
  by (simp_all add: owner_of_def move_of_def GetCurrentPos_def fun_eq_iff)

lemma told_audience [simp]: "audience (told ps w) objs = audience w objs"
  by (simp add: audience_def)

lemma send_to_told: "send_to r packet w = told (case r of None \<Rightarrow> [] | Some o' \<Rightarrow> [(o', packet)]) w"
  by (simp add: send_to_def told_def split: option.splits)

lemma audience_simps [simp]:
  "audience w [] = []" "audience w (obj # objs) = (case owner_of w obj of None \<Rightarrow> audience w objs | Some o' \<Rightarrow> o' # audience w objs)"
  by (simp_all add: audience_def List.map_filter_def split: option.splits)

lemma BroadcastToScene_told: "BroadcastToScene objs packet w = told (map (\<lambda>o'. (o', packet)) (audience w objs)) w"
proof (induction objs arbitrary: w)
  case (Cons obj objs)
  then show ?case by (simp add: send_to_told owner_of_def split: option.splits)
qed simp

lemma BroadcastToOthers_told:
  "BroadcastToOthers this objs packet w = told (map (\<lambda>o'. (o', packet)) (audience w (filter (\<lambda>obj. obj \<noteq> this) objs))) w"
proof (induction objs arbitrary: w)
  case (Cons obj objs)
  then show ?case by (simp add: send_to_told owner_of_def split: option.splits)
qed simp

text \<open>The packets about the players that are already there.\<close>

definition existing :: "pworld \<Rightarrow> addr \<Rightarrow> addr list \<Rightarrow> game_packet list" where
  "existing w this objs =
     List.map_filter (\<lambda>obj. case pw_players w obj of
         None \<Rightarrow> None
       | Some q \<Rightarrow> if obj \<noteq> this \<and> pl_owner q \<noteq> None then Some (GC_PLAYER_APPEAR_NOTIFY (pl_player_id q) (GetCurrentPos w q)) else None) objs"

lemma existing_simps [simp]: "existing w this [] = []" "existing (told ps w) this objs = existing w this objs"
  unfolding existing_def told_simps told_views by (simp_all add: List.map_filter_def)

lemma send_existing_told:
  assumes "pl_owner p = Some user"
  shows "send_existing this p objs w = told (map (Pair user) (existing w this objs)) w"
proof (induction objs arbitrary: w)
  case (Cons obj objs)
  then show ?case using assms
    by (simp add: existing_def List.map_filter_def Player_SendPacket_def send_to_told split: option.splits)
qed simp

text \<open>A player as the constructor makes it: its handlers are subscribed to both events.\<close>

definition player_ok :: "pworld \<Rightarrow> addr \<Rightarrow> Player \<Rightarrow> bool" where
  "player_ok w this p \<longleftrightarrow> pw_players w this = Some p \<and> en_components (pl_entity p) = [pl_moveComp p] \<and>
     (\<exists>mc. pw_moves w (pl_moveComp p) = Some mc \<and> ev_handlers (mc_OnMoveStart mc) = [0 \<mapsto> this] \<and> ev_handlers (mc_OnArrived mc) = [0 \<mapsto> this])"

lemma Player_ctor_ok: "\<exists>p. player_ok (Player_ctor env this user pid cptr w) this p \<and> pl_owner p = user \<and> pl_player_id p = pid"
  by (simp add: player_ok_def Player_ctor_def AddComponent_def Entity_ctor_def Event_Subscribe_def Event_ctor_def MoveComponent_ctor_def Let_def)

text \<open>A traversal visits every entry of a handler map once.\<close>

definition order_ok :: "game_env \<Rightarrow> bool" where
  "order_ok env \<longleftrightarrow> (\<forall>ev. distinct (ge_order env ev) \<and> set (ge_order env ev) \<subseteq> dom (ev_handlers ev) \<and>
     (finite (dom (ev_handlers ev)) \<longrightarrow> set (ge_order env ev) = dom (ev_handlers ev)))"

lemma single_handler:
  assumes "order_ok env" "ev_handlers ev = [0 \<mapsto> h]"
  shows "ge_order env ev = [0]" "call_handlers run (ge_order env ev) mc ev u = run h mc u"
proof -
  have o: "distinct (ge_order env ev)" "set (ge_order env ev) = {0}" using assms unfolding order_ok_def by auto
  then show "ge_order env ev = [0]" by (metis distinct_card card.empty card_insert_disjoint empty_iff finite.emptyI length_0_conv length_Suc_conv list.set_intros(1) singletonD)
  then show "call_handlers run (ge_order env ev) mc ev u = run h mc u" using assms(2) by (simp add: call_handlers_def Event_Invoke_def)
qed

lemma set_destination_told:
  assumes "order_ok env" "player_ok w this p"
  shows "\<exists>mc. set_destination env objs p (x, y, z) w =
      told (map (\<lambda>o'. (o', GC_MOVE_NOTIFY (pl_player_id p) (GetCurrentPos w p) (x, y, z))) (audience w objs)) (set_move p mc w) \<and>
    GetPosition mc = GetCurrentPos w p \<and> GetDestination mc = (x, y, z) \<and> \<not> mc_arrivedNotified mc"
proof -
  obtain mc where mc: "move_of w p = mc" "ev_handlers (mc_OnMoveStart mc) = [0 \<mapsto> this]" and p: "pw_players w this = Some p"
    using assms(2) by (auto simp: player_ok_def move_of_def)
  let ?m = "mc\<lparr>mc_destX := x, mc_destY := y, mc_destZ := z, mc_arrivedNotified := False\<rparr>"
  have "set_destination env objs p (x, y, z) w = set_move p ?m (BroadcastMoveNotify objs this ?m w)"
    using single_handler(2) [OF assms(1) mc(2), of "BroadcastMoveNotify objs" ?m w]
    by (simp add: set_destination_def SetDestination_def mc(1) Let_def)
  also have "\<dots> = told (map (\<lambda>o'. (o', GC_MOVE_NOTIFY (pl_player_id p) (GetCurrentPos w p) (x, y, z))) (audience w objs)) (set_move p ?m w)"
    by (simp add: BroadcastMoveNotify_def p BroadcastToScene_told GetCurrentPos_def mc(1) GetPosition_def GetDestination_def set_move_def told_def)
  finally show ?thesis by (intro exI [of _ ?m]) (simp add: GetCurrentPos_def mc(1) GetPosition_def GetDestination_def)
qed

lemma set_move_views [simp]:
  "pw_players (set_move p mc w) = pw_players w" "pw_users (set_move p mc w) = pw_users w" "pw_sent (set_move p mc w) = pw_sent w"
  "owner_of (set_move p mc w) = owner_of w" "audience (set_move p mc w) objs = audience w objs" "move_of (set_move p mc w) p = mc"
  "GetCurrentPos (set_move p mc w) p = GetPosition mc" "set_move p mc2 (set_move p mc w) = set_move p mc2 w"
  by (simp_all add: set_move_def owner_of_def audience_def move_of_def GetCurrentPos_def fun_eq_iff) (simp add: List.map_filter_def owner_of_def)

lemma player_ok_set_move:
  assumes "player_ok w this p" "mc_OnMoveStart mc = mc_OnMoveStart (move_of w p)" "mc_OnArrived mc = mc_OnArrived (move_of w p)"
  shows "player_ok (set_move p mc w) this p"
  using assms by (auto simp: player_ok_def set_move_def move_of_def)

text \<open>Components are not shared: another player's position does not change with this one's.\<close>

definition own_components :: "pworld \<Rightarrow> addr \<Rightarrow> bool" where
  "own_components w this \<longleftrightarrow> (\<forall>p obj q. pw_players w this = Some p \<longrightarrow> pw_players w obj = Some q \<longrightarrow> obj \<noteq> this \<longrightarrow> pl_moveComp q \<noteq> pl_moveComp p)"

lemma existing_set_move:
  assumes "own_components w this" "pw_players w this = Some p"
  shows "existing (set_move p mc w) this objs = existing w this objs"
proof -
  have "GetCurrentPos (set_move p mc w) q = GetCurrentPos w q" if "pw_players w obj = Some q" "obj \<noteq> this" for obj q
    using assms that by (auto simp: own_components_def GetCurrentPos_def move_of_def set_move_def)
  then show ?thesis unfolding existing_def
    by (intro arg_cong [where f = "\<lambda>f. List.map_filter f objs"] ext) (simp split: option.splits)
qed

section \<open>Properties\<close>


definition plain_env :: game_env where
  "plain_env = \<lparr>ge_float = \<lparr>fa_add = (+), fa_sub = (-), fa_mul = (*), fa_div = (div), fa_sqrt = id, fa_less = (<), fa_zero = 0, fa_tenth = 1, fa_thousandth = 1\<rparr>,
     ge_order = (\<lambda>ev. if finite (dom (ev_handlers ev)) then sorted_list_of_set (dom (ev_handlers ev)) else [])\<rparr>"

lemma plain_order: "order_ok plain_env"
  by (simp add: order_ok_def plain_env_def)

definition two_players :: pworld where
  "two_players = Player_ctor plain_env 1 (Some 7) 100 10 (Player_ctor plain_env 2 (Some 8) 200 20
     \<lparr>pw_users = [7 \<mapsto> User_ctor\<lparr>us_spawn := (5, 0, 6)\<rparr>, 8 \<mapsto> User_ctor], pw_players = Map.empty, pw_moves = Map.empty, pw_owners = Map.empty, pw_sent = []\<rparr>)"

lemmas ctor_simps = Player_ctor_def AddComponent_def Entity_ctor_def Event_Subscribe_def Event_ctor_def MoveComponent_ctor_def Let_def

definition entering :: Player where
  "entering = the (pw_players two_players 1)"

lemma two_players_facts:
  "player_ok two_players 1 entering" "own_components two_players 1" "pl_owner entering = Some 7" "pl_player_id entering = 100"
  "pw_users two_players 7 = Some (User_ctor\<lparr>us_spawn := (5, 0, 6)\<rparr>)" "owner_of two_players 2 = Some 8" "owner_of two_players 1 = Some 7"
  "existing two_players 1 [2, 1] = [GC_PLAYER_APPEAR_NOTIFY 200 (0, 0, 0)]" "pw_sent two_players = []"
  by (simp_all add: two_players_def entering_def ctor_simps player_ok_def own_components_def owner_of_def existing_def List.map_filter_def
      GetCurrentPos_def move_of_def GetPosition_def plain_env_def)


text \<open>Leaving tells the user of every other player, and nobody else.\<close>

lemma player_exit_announces:
  assumes "pw_players w this = Some p"
  shows "Player_OnExit this objs w =
    told (map (\<lambda>o'. (o', GC_PLAYER_DISAPPEAR_NOTIFY (pl_player_id p))) (audience w (filter (\<lambda>obj. obj \<noteq> this) objs))) w"
  using assms by (simp add: Player_OnExit_def BroadcastToOthers_told)

end
