(* ===== verification/LogRing.thy ===== *)
theory LogRing
  imports Prelude
begin

text \<open>
  The ring of the asynchronous logger (\<^verbatim>\<open>JunCore/log.cpp\<close>: \<open>LogAsync\<close> and the loop of \<open>LoggerThreadFunc\<close>), as
  atomic steps of any number of logging threads and of the logger thread. A logging thread loads the write and
  the read index, gives up when the ring is full, reserves a slot by compare-and-swap, fills it and then sets its
  valid flag; the logger thread writes out the slot at the read index when it is valid, clears the flag and
  moves on. \<open>lr_log\<close> and \<open>lr_out\<close> record the messages whose slot was reserved and those written out;
  \<open>lr_done\<close> counts the slots given back. Indices are 32-bit words.

  Shown: over all interleavings of fewer than \<open>2 ^ 32\<close> messages, what is written out is a prefix of the
  reserved messages, in the order of the reservations and unharmed; at most 4095 slots are in use; and
  when all threads are at rest every reserved message has been written. After a stop request messages that
  are still in the ring are lost.
\<close>

section \<open>State and steps\<close>

record LogMessage =
  lm_text :: string
  lm_level :: c_int
  lm_valid :: bool

datatype writer_pc =
    WIdle
  | WStart c_int string
  | WLoaded c_int string u32
  | WBoth c_int string u32 u32
  | WFill c_int string u32
  | WPublish c_int string u32

datatype reader_pc = RLook | ROut | RInc | REnd

record log_ring =
  lr_slots :: "nat \<Rightarrow> LogMessage"
  lr_write :: u32
  lr_read :: u32
  lr_stop :: bool
  lr_pc :: "addr \<Rightarrow> writer_pc"
  lr_reader :: reader_pc
  lr_log :: "(c_int \<times> string) list"
  lr_out :: "(c_int \<times> string) list"
  lr_done :: nat

definition RING_BUFFER_SIZE :: u32 where
  "RING_BUFFER_SIZE = 4096"

definition ring_idx :: "u32 \<Rightarrow> nat" where
  "ring_idx i = unat (i mod RING_BUFFER_SIZE)"

definition InitializeAsyncResources :: "(nat \<Rightarrow> LogMessage) \<Rightarrow> log_ring" where
  "InitializeAsyncResources ringBuffer =
     \<lparr>lr_slots = (\<lambda>i. (ringBuffer i)\<lparr>lm_valid := False, lm_text := ''''\<rparr>), lr_write = 0, lr_read = 0, lr_stop = False,
      lr_pc = (\<lambda>_. WIdle), lr_reader = RLook, lr_log = [], lr_out = [], lr_done = 0\<rparr>"

definition wgo :: "addr \<Rightarrow> writer_pc \<Rightarrow> log_ring \<Rightarrow> log_ring" where
  "wgo t p s = s\<lparr>lr_pc := (lr_pc s)(t := p)\<rparr>"

definition set_slot :: "nat \<Rightarrow> LogMessage \<Rightarrow> log_ring \<Rightarrow> log_ring" where
  "set_slot i m s = s\<lparr>lr_slots := (lr_slots s)(i := m)\<rparr>"

text \<open>A step of \<open>LogAsync\<close> in thread \<open>t\<close>. The compare-and-swap is a weak one: it may fail with equal values.\<close>

inductive LogAsync_step :: "log_ring \<Rightarrow> log_ring \<Rightarrow> bool" where
  call: "lr_pc s t = WIdle \<Longrightarrow> LogAsync_step s (wgo t (WStart l x) s)"
| load_write: "lr_pc s t = WStart l x \<Longrightarrow> LogAsync_step s (wgo t (WLoaded l x (lr_write s)) s)"
| load_read: "lr_pc s t = WLoaded l x w \<Longrightarrow> LogAsync_step s (wgo t (WBoth l x w (lr_read s)) s)"
| full: "lr_pc s t = WBoth l x w r \<Longrightarrow> (w + 1) mod RING_BUFFER_SIZE = r mod RING_BUFFER_SIZE \<Longrightarrow> LogAsync_step s (wgo t WIdle s)"
| cas_win: "lr_pc s t = WBoth l x w r \<Longrightarrow> (w + 1) mod RING_BUFFER_SIZE \<noteq> r mod RING_BUFFER_SIZE \<Longrightarrow> lr_write s = w \<Longrightarrow>
    LogAsync_step s (wgo t (WFill l x w) (s\<lparr>lr_write := w + 1, lr_log := lr_log s @ [(l, x)]\<rparr>))"
| cas_fail: "lr_pc s t = WBoth l x w r \<Longrightarrow> (w + 1) mod RING_BUFFER_SIZE \<noteq> r mod RING_BUFFER_SIZE \<Longrightarrow> LogAsync_step s (wgo t (WStart l x) s)"
| fill: "lr_pc s t = WFill l x w \<Longrightarrow>
    LogAsync_step s (wgo t (WPublish l x w) (set_slot (ring_idx w) ((lr_slots s (ring_idx w))\<lparr>lm_text := x, lm_level := l\<rparr>) s))"
| publish: "lr_pc s t = WPublish l x w \<Longrightarrow>
    LogAsync_step s (wgo t WIdle (set_slot (ring_idx w) ((lr_slots s (ring_idx w))\<lparr>lm_valid := True\<rparr>) s))"

text \<open>A step of the logger thread; a slot that is not valid ends a round, which is no step here.\<close>

inductive LoggerThread_step :: "log_ring \<Rightarrow> log_ring \<Rightarrow> bool" where
  process: "lr_reader s = RLook \<Longrightarrow> lm_valid (lr_slots s (ring_idx (lr_read s))) \<Longrightarrow>
    LoggerThread_step s (s\<lparr>lr_reader := ROut,
      lr_out := lr_out s @ [(lm_level (lr_slots s (ring_idx (lr_read s))), lm_text (lr_slots s (ring_idx (lr_read s))))]\<rparr>)"
| clear: "lr_reader s = ROut \<Longrightarrow>
    LoggerThread_step s (set_slot (ring_idx (lr_read s)) ((lr_slots s (ring_idx (lr_read s)))\<lparr>lm_valid := False\<rparr>) (s\<lparr>lr_reader := RInc\<rparr>))"
| advance: "lr_reader s = RInc \<Longrightarrow> LoggerThread_step s (s\<lparr>lr_read := lr_read s + 1, lr_done := lr_done s + 1, lr_reader := RLook\<rparr>)"
| leave: "lr_reader s = RLook \<Longrightarrow> lr_stop s \<Longrightarrow> LoggerThread_step s (s\<lparr>lr_reader := REnd\<rparr>)"

inductive log_step :: "log_ring \<Rightarrow> log_ring \<Rightarrow> bool" where
  writer: "LogAsync_step s s' \<Longrightarrow> log_step s s'"
| reader: "LoggerThread_step s s' \<Longrightarrow> log_step s s'"
| stop: "log_step s (s\<lparr>lr_stop := True\<rparr>)"

definition log_reach :: "log_ring \<Rightarrow> bool" where
  "log_reach s \<longleftrightarrow> (\<exists>ring. log_step\<^sup>*\<^sup>* (InitializeAsyncResources ring) s)"

inductive_cases LogAsync_stepE: "LogAsync_step s s'"
inductive_cases LoggerThread_stepE: "LoggerThread_step s s'"
inductive_cases log_stepE: "log_step s s'"

section \<open>Indices\<close>

lemma ring_idx_of_nat: "ring_idx (of_nat n) = n mod 4096"
proof -
  have "n mod 4294967296 mod 4096 = n mod 4096" by (rule mod_mod_cancel) simp
  then show ?thesis by (simp add: ring_idx_def RING_BUFFER_SIZE_def unat_mod unat_of_nat)
qed

lemma ring_idx_eq: "i mod RING_BUFFER_SIZE = j mod RING_BUFFER_SIZE \<longleftrightarrow> ring_idx i = ring_idx j"
  by (simp add: ring_idx_def word_unat_eq_iff)

lemma ring_idx_Suc: "ring_idx (of_nat n + 1) = Suc n mod 4096"
  using ring_idx_of_nat [of "Suc n"] by (simp add: add.commute)

text \<open>Two indices less than the size apart share a slot only when they are equal.\<close>

lemma same_slot:
  assumes "i mod 4096 = j mod (4096 :: nat)" "i \<le> j" "j < i + 4096"
  shows "i = j"
proof -
  have "(j - i) mod 4096 = 0" using assms(1,2) by (simp add: mod_eq_dvd_iff_nat [symmetric])
  then show ?thesis using assms(2,3) by simp
qed

lemma of_nat_u32_eq: "i < 2 ^ 32 \<Longrightarrow> j < 2 ^ 32 \<Longrightarrow> (of_nat i :: u32) = of_nat j \<longleftrightarrow> i = j"
  by (metis unat_of_nat_u32)

section \<open>The invariant\<close>

fun filling :: "writer_pc \<Rightarrow> (c_int \<times> string \<times> u32) option" where
  "filling (WFill l x w) = Some (l, x, w)"
| "filling (WPublish l x w) = Some (l, x, w)"
| "filling _ = None"

text \<open>Thread \<open>t\<close> works on the slot of the \<open>i\<close>-th message.\<close>

definition fills :: "log_ring \<Rightarrow> addr \<Rightarrow> nat \<Rightarrow> bool" where
  "fills s t i \<longleftrightarrow> (\<exists>l x. filling (lr_pc s t) = Some (l, x, of_nat i))"

definition busy :: "log_ring \<Rightarrow> nat" where
  "busy s = (if lr_reader s = ROut \<or> lr_reader s = RInc then 1 else 0)"

text \<open>Indices and counts.\<close>

definition counts_ok :: "log_ring \<Rightarrow> bool" where
  "counts_ok s \<longleftrightarrow> lr_done s + busy s \<le> length (lr_log s) \<and> length (lr_log s) \<le> lr_done s + 4095 \<and>
     lr_write s = of_nat (length (lr_log s)) \<and> lr_read s = of_nat (lr_done s) \<and> lr_out s = take (lr_done s + busy s) (lr_log s)"

text \<open>What a thread holds: an old write index, an old pair of indices, or a slot of its own.\<close>

fun pc_ok :: "log_ring \<Rightarrow> writer_pc \<Rightarrow> bool" where
  "pc_ok s (WLoaded l x w) \<longleftrightarrow> (\<exists>w0 \<le> length (lr_log s). w = of_nat w0)"
| "pc_ok s (WBoth l x w r) \<longleftrightarrow> (\<exists>w0 r0. w0 \<le> length (lr_log s) \<and> r0 \<le> lr_done s \<and> w = of_nat w0 \<and> r = of_nat r0 \<and> (w0 = length (lr_log s) \<longrightarrow> w0 \<le> r0 + 4095))"
| "pc_ok s (WFill l x w) \<longleftrightarrow> (\<exists>i. w = of_nat i \<and> lr_done s + busy s \<le> i \<and> i < length (lr_log s) \<and> lr_log s ! i = (l, x))"
| "pc_ok s (WPublish l x w) \<longleftrightarrow> (\<exists>i. w = of_nat i \<and> lr_done s + busy s \<le> i \<and> i < length (lr_log s) \<and> lr_log s ! i = (l, x) \<and>
     lm_level (lr_slots s (i mod 4096)) = l \<and> lm_text (lr_slots s (i mod 4096)) = x)"
| "pc_ok s _ \<longleftrightarrow> True"

text \<open>The slots from the read to the write index: one whose message no thread works on any more holds it and
  is valid, unless the logger thread has just cleared it; no other slot is valid.\<close>

definition live :: "log_ring \<Rightarrow> nat \<Rightarrow> bool" where
  "live s i \<longleftrightarrow> lr_done s + (if lr_reader s = RInc then 1 else 0) \<le> i \<and> i < length (lr_log s) \<and> (\<forall>t. \<not> fills s t i)"

definition slots_ok :: "log_ring \<Rightarrow> bool" where
  "slots_ok s \<longleftrightarrow>
     (\<forall>j < 4096. lm_valid (lr_slots s j) \<longleftrightarrow> (\<exists>i. live s i \<and> i mod 4096 = j)) \<and>
     (\<forall>i. live s i \<longrightarrow> (lm_level (lr_slots s (i mod 4096)), lm_text (lr_slots s (i mod 4096))) = lr_log s ! i)"

definition own_slots :: "log_ring \<Rightarrow> bool" where
  "own_slots s \<longleftrightarrow> (\<forall>t t' i. fills s t i \<longrightarrow> fills s t' i \<longrightarrow> t = t')"

definition log_inv :: "log_ring \<Rightarrow> bool" where
  "log_inv s \<longleftrightarrow> counts_ok s \<and> (\<forall>t. pc_ok s (lr_pc s t)) \<and> slots_ok s \<and> own_slots s"

lemma log_inv_init: "log_inv (InitializeAsyncResources ring)"
  by (simp add: log_inv_def counts_ok_def busy_def slots_ok_def own_slots_def live_def fills_def InitializeAsyncResources_def)

text \<open>Steps that only move a thread between places where it holds no slot.\<close>

lemma wgo_simps [simp]:
  "lr_slots (wgo t p s) = lr_slots s" "lr_write (wgo t p s) = lr_write s" "lr_read (wgo t p s) = lr_read s"
  "lr_reader (wgo t p s) = lr_reader s" "lr_log (wgo t p s) = lr_log s" "lr_out (wgo t p s) = lr_out s" "lr_done (wgo t p s) = lr_done s"
  "lr_pc (wgo t p s) = (lr_pc s)(t := p)" "busy (wgo t p s) = busy s" "counts_ok (wgo t p s) = counts_ok s"
  by (simp_all add: wgo_def busy_def counts_ok_def)

lemma busy_log [simp]: "busy (s\<lparr>lr_write := w, lr_log := ms\<rparr>) = busy s"
  by (simp add: busy_def)

lemma set_slot_simps [simp]:
  "lr_slots (set_slot j m s) = (lr_slots s)(j := m)" "lr_write (set_slot j m s) = lr_write s" "lr_read (set_slot j m s) = lr_read s"
  "lr_reader (set_slot j m s) = lr_reader s" "lr_log (set_slot j m s) = lr_log s" "lr_out (set_slot j m s) = lr_out s"
  "lr_done (set_slot j m s) = lr_done s" "lr_pc (set_slot j m s) = lr_pc s" "busy (set_slot j m s) = busy s"
  "counts_ok (set_slot j m s) = counts_ok s" "fills (set_slot j m s) = fills s" "live (set_slot j m s) = live s" "own_slots (set_slot j m s) = own_slots s"
  by (simp_all add: set_slot_def busy_def counts_ok_def fills_def live_def own_slots_def fun_eq_iff)

lemma pc_ok_wgo [simp]: "pc_ok (wgo t p s) q = pc_ok s q"
  by (cases q) (simp_all)

lemma fills_wgo: "filling p = filling (lr_pc s t) \<Longrightarrow> fills (wgo t p s) = fills s"
  by (auto simp: fills_def fun_eq_iff)

lemma inv_wgo:
  assumes "log_inv s" "filling p = filling (lr_pc s t)" "pc_ok s p"
  shows "log_inv (wgo t p s)"
proof -
  have f: "fills (wgo t p s) = fills s" by (rule fills_wgo [OF assms(2)])
  then have "live (wgo t p s) = live s" by (simp add: live_def fun_eq_iff)
  then show ?thesis using assms f by (simp add: log_inv_def slots_ok_def own_slots_def)
qed

section \<open>The invariant is kept\<close>

lemma in_range_same:
  assumes "counts_ok s" "lr_done s \<le> i" "i < length (lr_log s)" "lr_done s \<le> j" "j < length (lr_log s)" "i mod 4096 = j mod 4096"
  shows "i = j"
proof -
  have r: "i < j + 4096" "j < i + 4096" using assms(1-5) by (simp_all add: counts_ok_def)
  show ?thesis
    using same_slot [OF assms(6) _ r(2)] same_slot [OF assms(6) [symmetric] _ r(1)] by (cases "i \<le> j") simp_all
qed

lemma live_range: "live s i \<Longrightarrow> lr_done s \<le> i \<and> i < length (lr_log s)"
  by (auto simp: live_def split: if_splits)

lemma fills_range:
  assumes "log_inv s" "fills s t j"
  shows "\<exists>i. of_nat i = (of_nat j :: u32) \<and> lr_done s + busy s \<le> i \<and> i < length (lr_log s)"
proof -
  have "pc_ok s (lr_pc s t)" using assms(1) by (simp add: log_inv_def)
  then show ?thesis using assms(2) by (cases "lr_pc s t") (auto simp: fills_def)
qed

lemma not_full:
  assumes "counts_ok s" "pc_ok s (WBoth l x w r)" "(w + 1) mod RING_BUFFER_SIZE \<noteq> r mod RING_BUFFER_SIZE"
    and "lr_write s = w" "length (lr_log s) < 2 ^ 32"
  shows "length (lr_log s) \<le> lr_done s + 4094"
proof -
  obtain w0 r0 where w: "w0 \<le> length (lr_log s)" "w = of_nat w0" and r: "r0 \<le> lr_done s" "r = of_nat r0"
      and b: "w0 = length (lr_log s) \<longrightarrow> w0 \<le> r0 + 4095"
    using assms(2) by auto
  have "of_nat w0 = (of_nat (length (lr_log s)) :: u32)" using assms(1,4) w(2) by (simp add: counts_ok_def)
  then have w0: "w0 = length (lr_log s)" using w(1) assms(5) by (subst (asm) of_nat_u32_eq) simp_all
  have "Suc w0 mod 4096 \<noteq> r0 mod 4096"
    using assms(3) by (simp add: ring_idx_eq w(2) r(2) ring_idx_Suc ring_idx_of_nat)
  then have "w0 \<noteq> r0 + 4095" by auto
  then show ?thesis using b w0 r(1) by simp
qed

lemma pc_ok_grow:
  assumes "pc_ok s q"
  shows "pc_ok (s\<lparr>lr_write := w, lr_log := lr_log s @ [m]\<rparr>) q"
proof (cases q)
  case (WLoaded l x v)
  then show ?thesis using assms by (auto intro: le_SucI)
next
  case (WBoth l x v r)
  then obtain w0 r0 where "w0 \<le> length (lr_log s)" "r0 \<le> lr_done s" "v = of_nat w0" "r = of_nat r0" using assms by auto
  then show ?thesis unfolding WBoth by (simp only: pc_ok.simps) (rule exI [of _ w0], rule exI [of _ r0], simp)
next
  case (WFill l x v)
  then obtain i where "v = of_nat i" "lr_done s + busy s \<le> i" "i < length (lr_log s)" "lr_log s ! i = (l, x)" using assms by auto
  then show ?thesis unfolding WFill by (simp only: pc_ok.simps) (rule exI [of _ i], simp add: nth_append)
next
  case (WPublish l x v)
  then obtain i where "v = of_nat i" "lr_done s + busy s \<le> i" "i < length (lr_log s)" "lr_log s ! i = (l, x)"
    "lm_level (lr_slots s (i mod 4096)) = l" "lm_text (lr_slots s (i mod 4096)) = x" using assms by auto
  then show ?thesis unfolding WPublish by (simp only: pc_ok.simps) (rule exI [of _ i], simp add: nth_append)
qed simp_all

lemma inv_cas_win:
  assumes inv: "log_inv s" and pc: "lr_pc s t = WBoth l x w r" and nf: "(w + 1) mod RING_BUFFER_SIZE \<noteq> r mod RING_BUFFER_SIZE"
    and cas: "lr_write s = w" and len: "Suc (length (lr_log s)) < 2 ^ 32"
  shows "log_inv (wgo t (WFill l x w) (s\<lparr>lr_write := w + 1, lr_log := lr_log s @ [(l, x)]\<rparr>))"
proof -
  let ?s0 = "s\<lparr>lr_write := w + 1, lr_log := lr_log s @ [(l, x)]\<rparr>" and ?W = "length (lr_log s)"
  let ?s1 = "wgo t (WFill l x w) ?s0"
  have c: "counts_ok s" and p: "\<forall>t. pc_ok s (lr_pc s t)" and sl: "slots_ok s" and own: "own_slots s" using inv by (simp_all add: log_inv_def)
  have pt: "pc_ok s (WBoth l x w r)" using p pc by metis
  have W: "?W \<le> lr_done s + 4094" using not_full [OF c pt nf cas] len by simp
  have w: "w = of_nat ?W" using c cas by (simp add: counts_ok_def)
  have fills1: "fills ?s1 u i \<longleftrightarrow> (if u = t then of_nat i = (of_nat ?W :: u32) else fills s u i)" for u i
    by (auto simp: fills_def w)
  have no: "\<not> fills s u i" if "of_nat i = (of_nat ?W :: u32)" for u i
  proof
    assume "fills s u i"
    then obtain j where "of_nat j = (of_nat i :: u32)" "j < ?W" using fills_range [OF inv] by blast
    then have "of_nat j = (of_nat ?W :: u32)" "j < ?W" using that by simp_all
    then show False using len by (subst (asm) of_nat_u32_eq) simp_all
  qed
  have ft: "\<not> fills s t i" for i using pc by (simp add: fills_def)
  have live1: "live ?s1 i \<longleftrightarrow> live s i" for i
  proof (cases "i < ?W")
    case True
    then have "of_nat i \<noteq> (of_nat ?W :: u32)" using len by (subst of_nat_u32_eq) simp_all
    then have "(\<forall>u. \<not> fills ?s1 u i) \<longleftrightarrow> (\<forall>u. \<not> fills s u i)" using fills1 ft by metis
    then show ?thesis using True by (simp add: live_def)
  next
    case False
    have "\<not> live ?s1 i"
    proof
      assume "live ?s1 i"
      then have "i < Suc ?W" and nof: "\<not> fills ?s1 t i" by (simp_all add: live_def)
      with False have "i = ?W" by simp
      then show False using nof fills1 [of t i] by simp
    qed
    then show ?thesis using False by (simp add: live_def)
  qed
  have "counts_ok ?s1" using c W w by (simp add: counts_ok_def add.commute)
  moreover have "pc_ok ?s1 (lr_pc ?s1 u)" for u
    using p pc_ok_grow [of s "lr_pc s u" "(l, x)" "w + 1"] c w by (auto simp: counts_ok_def nth_append)
  moreover have "slots_ok ?s1"
    using sl live1 live_range [of s] by (auto simp: slots_ok_def nth_append)
  moreover have "own_slots ?s1"
    using own no fills1 unfolding own_slots_def by metis
  ultimately show ?thesis by (simp add: log_inv_def)
qed

text \<open>The slot of a filling thread is its own.\<close>

lemma filler_alone:
  assumes inv: "log_inv s" and f: "fills s t i" and i: "lr_done s \<le> i" "i < length (lr_log s)"
    and j: "lr_done s \<le> j" "j < length (lr_log s)" "j mod 4096 = i mod 4096"
  shows "\<not> live s j" "fills s u j \<Longrightarrow> u = t"
proof -
  have c: "counts_ok s" and own: "own_slots s" using inv by (simp_all add: log_inv_def)
  have "j = i" by (rule in_range_same [OF c j(1,2) i j(3)])
  then show "\<not> live s j" "fills s u j \<Longrightarrow> u = t" using f own unfolding live_def own_slots_def by blast+
qed

lemma pc_ok_other_slot:
  assumes inv: "log_inv s" and f: "fills s t i" and i: "lr_done s \<le> i" "i < length (lr_log s)" and u: "u \<noteq> t"
  shows "pc_ok (set_slot (i mod 4096) m s) (lr_pc s u)"
proof -
  have ok: "pc_ok s (lr_pc s u)" using inv by (simp add: log_inv_def)
  show ?thesis
  proof (cases "lr_pc s u")
    case (WPublish l x w)
    then obtain j where j: "w = of_nat j" "lr_done s + busy s \<le> j" "j < length (lr_log s)" "lr_log s ! j = (l, x)"
        "lm_level (lr_slots s (j mod 4096)) = l" "lm_text (lr_slots s (j mod 4096)) = x" using ok by auto
    have "fills s u j" using WPublish j(1) by (simp add: fills_def)
    then have "j mod 4096 \<noteq> i mod 4096" using filler_alone(2) [OF inv f i _ j(3), of u] j(2) u by auto
    then show ?thesis unfolding WPublish using j by (simp only: pc_ok.simps) (rule exI [of _ j], simp)
  qed (use ok in simp_all)
qed

lemma inv_fill:
  assumes inv: "log_inv s" and pc: "lr_pc s t = WFill l x w"
  shows "log_inv (wgo t (WPublish l x w) (set_slot (ring_idx w) ((lr_slots s (ring_idx w))\<lparr>lm_text := x, lm_level := l\<rparr>) s))"
proof -
  have "pc_ok s (WFill l x w)" using inv pc unfolding log_inv_def by metis
  then obtain i where i: "w = of_nat i" "lr_done s + busy s \<le> i" "i < length (lr_log s)" "lr_log s ! i = (l, x)" by auto
  let ?m = "(lr_slots s (i mod 4096))\<lparr>lm_text := x, lm_level := l\<rparr>" and ?r = "ring_idx w"
  let ?s0 = "set_slot (i mod 4096) ?m s"
  have f: "fills s t i" using pc i(1) by (simp add: fills_def)
  note al = filler_alone [OF inv f _ i(3)]
  have "pc_ok ?s0 (lr_pc s u)" for u
  proof (cases "u = t")
    case True
    then show ?thesis using i pc by (simp only: pc_ok.simps set_slot_simps) auto
  next
    case False
    then show ?thesis using pc_ok_other_slot [OF inv f _ i(3), of u] i(2) by simp
  qed
  moreover have "slots_ok ?s0"
  proof -
    have sl: "slots_ok s" using inv by (simp add: log_inv_def)
    have "j mod 4096 \<noteq> i mod 4096" if "live s j" for j using al(1) [of j] i(2) live_range [OF that] that by auto
    then show ?thesis using sl by (auto simp: slots_ok_def)
  qed
  ultimately have "log_inv ?s0" using inv by (simp add: log_inv_def)
  moreover have "pc_ok ?s0 (WPublish l x w)" using i by (simp only: pc_ok.simps) (rule exI [of _ i], simp)
  ultimately have "log_inv (wgo t (WPublish l x w) ?s0)" by (intro inv_wgo) (simp_all add: pc)
  then show ?thesis by (simp add: i(1) ring_idx_of_nat)
qed

lemma inv_publish:
  assumes inv: "log_inv s" and pc: "lr_pc s t = WPublish l x w" and len: "length (lr_log s) < 2 ^ 32"
  shows "log_inv (wgo t WIdle (set_slot (ring_idx w) ((lr_slots s (ring_idx w))\<lparr>lm_valid := True\<rparr>) s))"
proof -
  have "pc_ok s (WPublish l x w)" using inv pc unfolding log_inv_def by metis
  then obtain i where i: "w = of_nat i" "lr_done s + busy s \<le> i" "i < length (lr_log s)" "lr_log s ! i = (l, x)"
      "lm_level (lr_slots s (i mod 4096)) = l" "lm_text (lr_slots s (i mod 4096)) = x" by auto
  let ?m = "(lr_slots s (i mod 4096))\<lparr>lm_valid := True\<rparr>"
  let ?s0 = "set_slot (i mod 4096) ?m s" let ?s1 = "wgo t WIdle ?s0"
  have f: "fills s t i" using pc i(1) by (simp add: fills_def)
  have inv': "counts_ok s" "slots_ok s" "own_slots s" using inv by (simp_all add: log_inv_def)
  have fills1: "fills ?s1 u j \<longleftrightarrow> u \<noteq> t \<and> fills s u j" for u j by (simp add: fills_def)
  have tj: "fills s t j \<longleftrightarrow> of_nat j = (of_nat i :: u32)" for j using pc i(1) by (auto simp: fills_def)
  have live1: "live ?s1 j \<longleftrightarrow> live s j \<or> j = i" for j
  proof (cases "j = i")
    case True
    have "\<not> fills ?s1 u i" for u using fills1 f inv'(3) unfolding own_slots_def by blast
    moreover have "lr_done s + (if lr_reader s = RInc then 1 else 0) \<le> i" using i(2) by (auto simp: busy_def)
    ultimately show ?thesis using True i(3) by (simp add: live_def)
  next
    case False
    then have "j < length (lr_log s) \<Longrightarrow> \<not> fills s t j" using len i(3) by (subst tj, subst of_nat_u32_eq) simp_all
    then show ?thesis using False fills1 by (auto simp: live_def)
  qed
  have "pc_ok ?s1 (lr_pc ?s1 u)" for u using pc_ok_other_slot [OF inv f _ i(3), of u] i(2) by auto
  moreover have "own_slots ?s1" using inv'(3) fills1 unfolding own_slots_def by blast
  moreover have "slots_ok ?s1"
  proof -
    have v: "lm_valid (lr_slots ?s1 j) \<longleftrightarrow> (\<exists>k. live ?s1 k \<and> k mod 4096 = j)" if "j < 4096" for j
      using inv'(2) that live1 by (auto simp: slots_ok_def)
    have "(lm_level (lr_slots ?s1 (k mod 4096)), lm_text (lr_slots ?s1 (k mod 4096))) = lr_log s ! k" if "live ?s1 k" for k
    proof -
      have "(lm_level (lr_slots s (k mod 4096)), lm_text (lr_slots s (k mod 4096))) = lr_log s ! k"
        using that live1 i(4-6) inv'(2) by (auto simp: slots_ok_def)
      then show ?thesis by (cases "k mod 4096 = i mod 4096") simp_all
    qed
    with v show ?thesis by (simp add: slots_ok_def)
  qed
  ultimately have "log_inv ?s1" using inv'(1) by (simp add: log_inv_def)
  then show ?thesis by (simp add: i(1) ring_idx_of_nat)
qed

lemma inv_process:
  assumes inv: "log_inv s" and r: "lr_reader s = RLook" and v: "lm_valid (lr_slots s (ring_idx (lr_read s)))"
  shows "log_inv (s\<lparr>lr_reader := ROut,
      lr_out := lr_out s @ [(lm_level (lr_slots s (ring_idx (lr_read s))), lm_text (lr_slots s (ring_idx (lr_read s))))]\<rparr>)"
    (is "log_inv ?s1")
proof -
  let ?R = "lr_done s"
  have c: "counts_ok s" and sl: "slots_ok s" using inv by (simp_all add: log_inv_def)
  have idx: "ring_idx (lr_read s) = ?R mod 4096" using c by (simp add: counts_ok_def ring_idx_of_nat)
  obtain i where i: "live s i" "i mod 4096 = ?R mod 4096" using v sl by (auto simp: slots_ok_def idx)
  have "?R < length (lr_log s)" using live_range [OF i(1)] by simp
  then have R: "i = ?R" using in_range_same [OF c _ _ _ _ i(2)] live_range [OF i(1)] by simp
  have b: "busy s = 0" "busy ?s1 = 1" using r by (simp_all add: busy_def)
  have t: "(lm_level (lr_slots s (?R mod 4096)), lm_text (lr_slots s (?R mod 4096))) = lr_log s ! ?R"
    using sl i(1) R by (simp add: slots_ok_def)
  have fl: "fills ?s1 = fills s" and lv: "live ?s1 = live s" using r by (simp_all add: fills_def live_def fun_eq_iff)
  have "counts_ok ?s1"
    using c \<open>?R < length (lr_log s)\<close> t b by (simp add: counts_ok_def ring_idx_of_nat take_Suc_conv_app_nth)
  moreover have "pc_ok ?s1 (lr_pc s u)" for u
  proof -
    have "\<not> fills s u ?R" using i(1) R by (simp add: live_def)
    moreover have "pc_ok s (lr_pc s u)" using inv by (simp add: log_inv_def)
    ultimately show ?thesis using b by (cases "lr_pc s u") (auto simp: fills_def le_less Suc_le_eq)
  qed
  ultimately show ?thesis using inv fl lv by (simp add: log_inv_def slots_ok_def own_slots_def)
qed

lemma inv_clear:
  assumes inv: "log_inv s" and r: "lr_reader s = ROut"
  shows "log_inv (set_slot (ring_idx (lr_read s)) ((lr_slots s (ring_idx (lr_read s)))\<lparr>lm_valid := False\<rparr>) (s\<lparr>lr_reader := RInc\<rparr>))"
    (is "log_inv ?s1")
proof -
  let ?R = "lr_done s"
  have c: "counts_ok s" and sl: "slots_ok s" and own: "own_slots s" and p: "\<forall>t. pc_ok s (lr_pc s t)" using inv by (simp_all add: log_inv_def)
  have idx: "ring_idx (lr_read s) = ?R mod 4096" using c by (simp add: counts_ok_def ring_idx_of_nat)
  have b: "busy s = 1" "busy ?s1 = 1" using r by (simp_all add: busy_def)
  have R: "?R < length (lr_log s)" using c b by (simp add: counts_ok_def)
  have fl: "fills ?s1 = fills s" by (simp add: fills_def fun_eq_iff)
  have lv: "live ?s1 i \<longleftrightarrow> live s i \<and> i \<noteq> ?R" for i using r by (auto simp: live_def fills_def)
  have other: "i mod 4096 \<noteq> ?R mod 4096" if "lr_done s \<le> i" "i < length (lr_log s)" "i \<noteq> ?R" for i
    using in_range_same [OF c that(1,2) order.refl R] that(3) by blast
  have "slots_ok ?s1"
  proof -
    have "lm_valid (lr_slots ?s1 j) \<longleftrightarrow> (\<exists>i. live ?s1 i \<and> i mod 4096 = j)" if "j < 4096" for j
      using sl that lv other live_range [of s] by (simp add: slots_ok_def idx) metis
    moreover have "(lm_level (lr_slots ?s1 (i mod 4096)), lm_text (lr_slots ?s1 (i mod 4096))) = lr_log s ! i" if "live ?s1 i" for i
      using sl that lv other [of i] live_range [of s i] by (simp add: slots_ok_def idx)
    ultimately show ?thesis by (simp add: slots_ok_def)
  qed
  moreover have "pc_ok ?s1 (lr_pc s u)" for u
  proof -
    have "pc_ok s (lr_pc s u)" using p by blast
    then show ?thesis using b by (cases "lr_pc s u") (auto simp: idx)
  qed
  moreover have "counts_ok ?s1" using c b by (simp add: counts_ok_def busy_def r)
  ultimately show ?thesis using own fl by (simp add: log_inv_def own_slots_def)
qed

lemma inv_advance:
  assumes inv: "log_inv s" and r: "lr_reader s = RInc"
  shows "log_inv (s\<lparr>lr_read := lr_read s + 1, lr_done := lr_done s + 1, lr_reader := RLook\<rparr>)" (is "log_inv ?s1")
proof -
  have b: "busy s = 1" "busy ?s1 = 0" using r by (simp_all add: busy_def)
  have fl: "fills ?s1 = fills s" and lv: "live ?s1 = live s" using r by (simp_all add: fills_def live_def fun_eq_iff)
  have "pc_ok ?s1 (lr_pc s u)" for u
  proof -
    have "pc_ok s (lr_pc s u)" using inv by (simp add: log_inv_def)
    then show ?thesis using b by (cases "lr_pc s u") (auto intro: le_SucI)
  qed
  moreover have "counts_ok ?s1" using inv b by (simp add: log_inv_def counts_ok_def add.commute)
  ultimately show ?thesis using inv fl lv by (simp add: log_inv_def slots_ok_def own_slots_def)
qed

lemma writer_keeps:
  assumes "LogAsync_step s s'" "log_inv s" "length (lr_log s') < 2 ^ 32"
  shows "log_inv s'"
  using assms(1)
proof cases
  case (load_write t l x)
  have "pc_ok s (WLoaded l x (lr_write s))" using assms(2) by (auto simp: log_inv_def counts_ok_def)
  then have "log_inv (wgo t (WLoaded l x (lr_write s)) s)" by (rule inv_wgo [OF assms(2), rotated]) (simp add: load_write(2))
  then show ?thesis by (simp add: load_write(1))
next
  case (load_read t l x w)
  have "pc_ok s (WLoaded l x w)" using assms(2) load_read(2) unfolding log_inv_def by metis
  then obtain w0 where "w0 \<le> length (lr_log s)" "w = of_nat w0" by auto
  then have "pc_ok s (WBoth l x w (lr_read s))"
    using assms(2) by (simp only: pc_ok.simps) (rule exI [of _ w0], rule exI [of _ "lr_done s"], simp add: log_inv_def counts_ok_def)
  then show ?thesis using assms(2) load_read by (simp add: inv_wgo)
next
  case (cas_win t l x w r)
  then show ?thesis using inv_cas_win [OF assms(2)] assms(3) by simp
next
  case (fill t l x w)
  then show ?thesis using inv_fill [OF assms(2)] by simp
next
  case (publish t l x w)
  then show ?thesis using inv_publish [OF assms(2)] assms(3) by simp
qed (use assms(2) in \<open>simp_all add: inv_wgo\<close>)

lemma reader_keeps:
  assumes "LoggerThread_step s s'" "log_inv s"
  shows "log_inv s'"
  using assms(1)
proof cases
  case process
  then show ?thesis using inv_process [OF assms(2)] by simp
next
  case clear
  then show ?thesis using inv_clear [OF assms(2)] by simp
next
  case advance
  then show ?thesis using inv_advance [OF assms(2)] by simp
next
  case leave
  have "pc_ok (s\<lparr>lr_reader := REnd\<rparr>) q = pc_ok s q" for q using leave(2) by (cases q) (simp_all add: busy_def)
  then show ?thesis using assms(2) leave
    by (simp add: log_inv_def counts_ok_def slots_ok_def own_slots_def live_def fills_def busy_def)
qed

lemma stop_keeps: "log_inv s \<Longrightarrow> log_inv (s\<lparr>lr_stop := True\<rparr>)"
proof -
  have "pc_ok (s\<lparr>lr_stop := True\<rparr>) q = pc_ok s q" for q by (cases q) (simp_all add: busy_def)
  then show "log_inv s \<Longrightarrow> log_inv (s\<lparr>lr_stop := True\<rparr>)"
    by (simp add: log_inv_def counts_ok_def slots_ok_def own_slots_def live_def fills_def busy_def)
qed

lemma log_grows: "log_step s s' \<Longrightarrow> length (lr_log s) \<le> length (lr_log s')"
  by (erule log_stepE; (erule LogAsync_stepE | erule LoggerThread_stepE)?) simp_all

lemma log_step_keeps:
  assumes "log_step s s'" "log_inv s" "length (lr_log s') < 2 ^ 32"
  shows "log_inv s'"
  using assms(1) by cases (use assms(2,3) in \<open>auto intro: writer_keeps reader_keeps stop_keeps\<close>)

lemma log_reach_inv: "log_reach s \<Longrightarrow> length (lr_log s) < 2 ^ 32 \<Longrightarrow> log_inv s"
proof -
  assume "log_reach s" and len: "length (lr_log s) < 2 ^ 32"
  then obtain ring where "log_step\<^sup>*\<^sup>* (InitializeAsyncResources ring) s" by (auto simp: log_reach_def)
  then show "log_inv s" using len
  proof (induction rule: rtranclp_induct)
    case base
    show ?case by (rule log_inv_init)
  next
    case (step s s')
    then show ?case using log_step_keeps [OF step.hyps(2)] log_grows [OF step.hyps(2)] by simp
  qed
qed

section \<open>Properties\<close>

text \<open>C14: The asynchronous logger is a queue over all interleavings of logging threads and the logger thread, as long
  as fewer than \<open>2 ^ 32\<close> messages were logged: what was written out is a prefix of the messages whose slot was reserved,
  whole and in the order of the reservations; at most 4095 of them wait; no two threads fill the same slot; and when
  no thread is inside a call and the logger thread finds nothing more to do, every one has been written.\<close>

theorem log_ring_fifo:
  assumes "log_reach s" "length (lr_log s) < 2 ^ 32"
  shows "\<exists>n. lr_out s = take n (lr_log s) \<and> n \<le> length (lr_log s) \<and> length (lr_log s) \<le> n + 4095 \<and> own_slots s \<and>
    ((\<forall>t. filling (lr_pc s t) = None) \<and> lr_reader s = RLook \<and> \<not> lm_valid (lr_slots s (ring_idx (lr_read s))) \<longrightarrow> lr_out s = lr_log s)"
proof -
  have c: "counts_ok s" and sl: "slots_ok s" and own: "own_slots s" using log_reach_inv [OF assms] by (simp_all add: log_inv_def)
  have "lr_out s = lr_log s"
    if "\<forall>t. filling (lr_pc s t) = None" "lr_reader s = RLook" "\<not> lm_valid (lr_slots s (ring_idx (lr_read s)))"
  proof -
    have "\<not> live s (lr_done s)" using that(3) sl c by (auto simp: slots_ok_def counts_ok_def ring_idx_of_nat)
    then have "length (lr_log s) \<le> lr_done s" using that(1,2) by (simp add: live_def fills_def)
    then show ?thesis using c by (simp add: counts_ok_def)
  qed
  then show ?thesis using c own by (intro exI [of _ "lr_done s + busy s"]) (auto simp: counts_ok_def)
qed

text \<open>One message, logged by the first thread and then either written out or left behind.\<close>

definition logged :: "log_ring \<Rightarrow> bool" where
  "logged s \<longleftrightarrow> log_reach s \<and> lr_pc s = (\<lambda>_. WIdle) \<and> lr_reader s = RLook \<and> lr_read s = 0 \<and> lr_log s = [(2, ''up'')] \<and> lr_out s = [] \<and>
     lr_slots s 0 = \<lparr>lm_text = ''up'', lm_level = 2, lm_valid = True\<rparr>"

lemma logged_ex: "\<exists>s. logged s"
proof -
  let ?i = "InitializeAsyncResources (\<lambda>_. \<lparr>lm_text = [], lm_level = 0, lm_valid = False\<rparr>)"
  let ?s1 = "wgo 1 (WStart 2 ''up'') ?i" let ?s2 = "wgo 1 (WLoaded 2 ''up'' (lr_write ?s1)) ?s1"
  let ?s3 = "wgo 1 (WBoth 2 ''up'' (lr_write ?s1) (lr_read ?s2)) ?s2"
  let ?s4 = "wgo 1 (WFill 2 ''up'' 0) (?s3\<lparr>lr_write := 0 + 1, lr_log := lr_log ?s3 @ [(2, ''up'')]\<rparr>)"
  let ?s5 = "wgo 1 (WPublish 2 ''up'' 0) (set_slot (ring_idx 0) ((lr_slots ?s4 (ring_idx 0))\<lparr>lm_text := ''up'', lm_level := 2\<rparr>) ?s4)"
  let ?s6 = "wgo 1 WIdle (set_slot (ring_idx 0) ((lr_slots ?s5 (ring_idx 0))\<lparr>lm_valid := True\<rparr>) ?s5)"
  have i: "lr_pc ?i 1 = WIdle" "lr_write ?i = 0" "lr_read ?i = 0" by (simp_all add: InitializeAsyncResources_def)
  have one: "ring_idx 1 = 1" "ring_idx 0 = 0" using ring_idx_of_nat [of 1] ring_idx_of_nat [of 0] by simp_all
  have nf: "RING_BUFFER_SIZE \<noteq> 1" "0 mod RING_BUFFER_SIZE = 0" by (simp_all add: RING_BUFFER_SIZE_def word_unat_eq_iff unat_mod)
  have "log_step ?i ?s1" by (intro log_step.writer LogAsync_step.call i)
  moreover have "log_step ?s1 ?s2" by (intro log_step.writer LogAsync_step.load_write) simp
  moreover have "log_step ?s2 ?s3" by (intro log_step.writer LogAsync_step.load_read) simp
  moreover have "log_step ?s3 ?s4" by (intro log_step.writer LogAsync_step.cas_win [where r = 0]) (simp_all add: i nf)
  moreover have "log_step ?s4 ?s5" by (intro log_step.writer LogAsync_step.fill) simp
  moreover have "log_step ?s5 ?s6" by (intro log_step.writer LogAsync_step.publish) simp
  ultimately have "log_step\<^sup>*\<^sup>* ?i ?s6" by (meson rtranclp.rtrancl_refl rtranclp.rtrancl_into_rtrancl)
  then have "log_reach ?s6" by (auto simp: log_reach_def)
  moreover have "ring_idx 0 = 0" by (simp add: ring_idx_def)
  ultimately have "logged ?s6" by (simp add: logged_def InitializeAsyncResources_def fun_eq_iff)
  then show ?thesis by blast
qed

lemma reach_step: "log_reach s \<Longrightarrow> log_step s s' \<Longrightarrow> log_reach s'"
  by (auto simp: log_reach_def intro: rtranclp.rtrancl_into_rtrancl)

theorem log_ring_fifo_witness: "\<exists>s. log_reach s \<and> lr_out s = [(2, ''up'')] \<and> own_slots s"
proof -
  obtain s where s: "logged s" using logged_ex by blast
  have z: "ring_idx 0 = 0" by (simp add: ring_idx_def)
  let ?s' = "s\<lparr>lr_reader := ROut, lr_out := lr_out s @ [(lm_level (lr_slots s (ring_idx (lr_read s))), lm_text (lr_slots s (ring_idx (lr_read s))))]\<rparr>"
  have "log_step s ?s'" using s z by (intro log_step.reader LoggerThread_step.process) (simp_all add: logged_def)
  then have r: "log_reach ?s'" using s reach_step by (auto simp: logged_def)
  have "lr_log ?s' = [(2, ''up'')]" "lr_out ?s' = [(2, ''up'')]" using s z by (simp_all add: logged_def)
  then show ?thesis using log_ring_fifo [OF r] r by auto
qed

text \<open>A stop request does not wait for the ring: the logger thread leaves with messages that are valid and not
  written.\<close>

lemma stop_loses_messages:
  "\<exists>s. log_reach s \<and> lr_reader s = REnd \<and> lr_log s = [(2, ''up'')] \<and> lr_out s = [] \<and> (\<forall>s'. \<not> LoggerThread_step s s')"
proof -
  obtain s where s: "logged s" using logged_ex by blast
  let ?s1 = "s\<lparr>lr_stop := True\<rparr>" let ?s2 = "?s1\<lparr>lr_reader := REnd\<rparr>"
  have "log_step s ?s1" by (rule log_step.stop)
  moreover have "log_step ?s1 ?s2" using s by (intro log_step.reader LoggerThread_step.leave) (simp_all add: logged_def)
  ultimately have "log_reach ?s2" using s reach_step by (metis logged_def)
  moreover have "\<not> LoggerThread_step ?s2 s'" for s' by (auto elim: LoggerThread_stepE)
  moreover have "lr_log ?s2 = [(2, ''up'')]" "lr_out ?s2 = []" "lr_reader ?s2 = REnd" using s by (simp_all add: logged_def)
  ultimately show ?thesis by blast
qed

end
