(* ===== verification/Logger.thy ===== *)
theory Logger
  imports LogRing
begin

text \<open>
  The logger apart from its ring (\<^verbatim>\<open>JunCore/log.h\<close> and \<^verbatim>\<open>log.cpp\<close>): levels and policies, the prefix and the
  text of a line in its buffer of 1024 characters, console output, and the log files with their rotation at 10 MB.
  The file system is a map from names to contents; which files can be opened, the clock, the process path and
  whether the log directories can be made are the environment. The formatted message is an argument
  (\<open>vsnprintf\<close> of the caller's format). Searching a free file name is a loop with fuel.

  Shown: a line is never longer than its buffer as long as the prefix fits; a filtered level leaves no trace; opening a
  log file returns when files can be opened; with fresh names every file stays within 10 MB and the files
  together hold every line, in order.
\<close>

section \<open>Numbers in text\<close>

fun dec :: "nat \<Rightarrow> string" where
  "dec n = (if n < 10 then [char_of (48 + n)] else dec (n div 10) @ [char_of (48 + n mod 10)])"

declare dec.simps [simp del]

definition zpad :: "nat \<Rightarrow> string \<Rightarrow> string" where
  "zpad w s = replicate (w - length s) (CHR ''0'') @ s"

section \<open>Lines\<close>

datatype LogLevel = LOG_LEVEL_ERROR | LOG_LEVEL_WARN | LOG_LEVEL_INFO | LOG_LEVEL_DEBUG

datatype LoggingPolicy = SYNC | ASYNC

fun level_no :: "LogLevel \<Rightarrow> nat" where
  "level_no LOG_LEVEL_ERROR = 0"
| "level_no LOG_LEVEL_WARN = 1"
| "level_no LOG_LEVEL_INFO = 2"
| "level_no LOG_LEVEL_DEBUG = 3"

fun levelStr :: "LogLevel \<Rightarrow> string" where
  "levelStr LOG_LEVEL_ERROR = ''ERROR''"
| "levelStr LOG_LEVEL_WARN = ''WARN''"
| "levelStr LOG_LEVEL_INFO = ''INFO''"
| "levelStr LOG_LEVEL_DEBUG = ''DEBUG''"

record tm =
  tm_year :: nat
  tm_mon :: nat
  tm_mday :: nat
  tm_hour :: nat
  tm_min :: nat
  tm_sec :: nat

definition MAX_LOG_LENGTH :: nat where
  "MAX_LOG_LENGTH = 1024"

text \<open>The part of a path behind the last character that satisfies \<open>P\<close>.\<close>

definition after_last :: "(char \<Rightarrow> bool) \<Rightarrow> string \<Rightarrow> string" where
  "after_last P s = rev (takeWhile (\<lambda>c. \<not> P c) (rev s))"

text \<open>The whole prefix; its length is the result of \<open>snprintf\<close>.\<close>

definition FormatLogPrefix :: "tm \<Rightarrow> nat \<Rightarrow> LogLevel \<Rightarrow> string option \<Rightarrow> nat \<Rightarrow> string" where
  "FormatLogPrefix t threadId level path line =
     (let filename = (case path of None \<Rightarrow> '''' | Some f \<Rightarrow> after_last (\<lambda>c. c = CHR 0x5C) f)
      in ''['' @ zpad 4 (dec (tm_year t + 1900)) @ ''-'' @ zpad 2 (dec (tm_mon t + 1)) @ ''-'' @ zpad 2 (dec (tm_mday t)) @ '' '' @
         zpad 2 (dec (tm_hour t)) @ '':'' @ zpad 2 (dec (tm_min t)) @ '':'' @ zpad 2 (dec (tm_sec t)) @ ''][''
         @ levelStr level @ ''][''  @ dec threadId @ ''][''  @ filename @ '':'' @ dec line @ ''] '')"

text \<open>The text of a line: \<open>snprintf\<close> keeps 1023 characters of the prefix and returns its full length; the message is
  written behind it with the room that is left less one, and a newline is added when there is still room. A prefix
  of 1024 characters or more gives the message a place and a size outside the buffer.\<close>

definition format_line :: "string \<Rightarrow> string \<Rightarrow> fault + string" where
  "format_line prefix message =
     (let prefixLen = length prefix in
      if MAX_LOG_LENGTH \<le> prefixLen then Inl WriteOverrun
      else let text = prefix @ take (MAX_LOG_LENGTH - prefixLen - 1 - 1) message in
        Inr (if length text < MAX_LOG_LENGTH - 2 then text @ [CHR 0x0A] else text))"

section \<open>Files\<close>

record log_env =
  le_log_dir :: bool
  le_process_dir :: bool
  le_module_path :: string
  le_time :: "nat \<Rightarrow> tm"
  le_fopen :: "string \<Rightarrow> bool"

definition GetProcessName :: "string \<Rightarrow> string" where
  "GetProcessName buffer =
     (let fullPath = after_last (\<lambda>c. c = CHR 0x5C \<or> c = CHR ''/'') buffer
      in if CHR ''.'' \<in> set fullPath then rev (tl (dropWhile (\<lambda>c. c \<noteq> CHR ''.'') (rev fullPath))) else fullPath)"

definition GetCurrentTimeString :: "tm \<Rightarrow> string" where
  "GetCurrentTimeString t =
     zpad 4 (dec (tm_year t + 1900)) @ zpad 2 (dec (tm_mon t + 1)) @ zpad 2 (dec (tm_mday t)) @
     zpad 2 (dec (tm_hour t)) @ zpad 2 (dec (tm_min t)) @ zpad 2 (dec (tm_sec t))"

text \<open>The clock is read for every name, so the time may depend on the sequence number.\<close>

definition GenerateLogFileName :: "log_env \<Rightarrow> nat \<Rightarrow> string" where
  "GenerateLogFileName env sequence =
     (let processName = GetProcessName (le_module_path env);
          timeString = GetCurrentTimeString (le_time env sequence);
          logDir = (if le_log_dir env then if le_process_dir env then ''Log/'' @ processName else ''Log'' else ''.'');
          fileName = (if sequence = 0 then processName @ ''_'' @ timeString @ ''.log''
                      else processName @ ''_'' @ timeString @ ''_'' @ dec sequence @ ''.log'')
      in logDir @ ''/'' @ fileName)"

definition MAX_FILE_SIZE :: nat where
  "MAX_FILE_SIZE = 10 * 1024 * 1024"

record Logger =
  lg_level :: LogLevel
  lg_policy :: LoggingPolicy
  lg_initialized :: bool
  lg_file :: "string option"
  lg_fileName :: string
  lg_fileSize :: nat
  lg_disk :: "string \<rightharpoonup> string"
  lg_console :: string
  lg_async :: "(LogLevel \<times> string) list"

definition Logger_ctor :: "(string \<rightharpoonup> string) \<Rightarrow> Logger" where
  "Logger_ctor disk = \<lparr>lg_level = LOG_LEVEL_INFO, lg_policy = SYNC, lg_initialized = False, lg_file = None, lg_fileName = '''',
     lg_fileSize = 0, lg_disk = disk, lg_console = '''', lg_async = []\<rparr>"

text \<open>\<open>std::filesystem::file_size\<close> throws for a file that is not there.\<close>

datatype log_error = FilesystemError | LineFault fault

fun open_loop :: "nat \<Rightarrow> log_env \<Rightarrow> nat \<Rightarrow> Logger \<Rightarrow> (log_error + nat \<times> Logger) option" where
  "open_loop 0 env sequence lg = None"
| "open_loop (Suc n) env sequence lg =
     (let fileName = GenerateLogFileName env sequence in
      if lg_disk lg fileName = None \<and> le_fopen env fileName
      then Some (Inr (sequence, lg\<lparr>lg_file := Some fileName, lg_fileName := fileName, lg_disk := (lg_disk lg)(fileName \<mapsto> '''')\<rparr>))
      else case lg_disk lg fileName of
        None \<Rightarrow> Some (Inl FilesystemError)
      | Some old \<Rightarrow>
          if length old < MAX_FILE_SIZE \<and> le_fopen env fileName
          then Some (Inr (sequence, lg\<lparr>lg_file := Some fileName, lg_fileName := fileName, lg_fileSize := length old\<rparr>))
          else open_loop n env (sequence + 1) lg)"

definition OpenNewLogFile :: "nat \<Rightarrow> log_env \<Rightarrow> Logger \<Rightarrow> (log_error + Logger) option" where
  "OpenNewLogFile fuel env lg =
     (let fileName = GenerateLogFileName env 0 in
      case lg_disk lg fileName of
        Some old \<Rightarrow>
          if length old < MAX_FILE_SIZE \<and> le_fopen env fileName
          then Some (Inr (lg\<lparr>lg_file := Some fileName, lg_fileName := fileName, lg_fileSize := length old\<rparr>))
          else xbind (open_loop fuel env 2 lg) (\<lambda>(sequence, lg1). Some (Inr (if sequence = 2 then lg1\<lparr>lg_fileSize := 0\<rparr> else lg1)))
      | None \<Rightarrow> xbind (open_loop fuel env 2 lg) (\<lambda>(sequence, lg1). Some (Inr (if sequence = 2 then lg1\<lparr>lg_fileSize := 0\<rparr> else lg1))))"

definition append_text :: "string \<Rightarrow> Logger \<Rightarrow> Logger" where
  "append_text text lg = (case lg_file lg of
     None \<Rightarrow> lg
   | Some name \<Rightarrow> lg\<lparr>lg_disk := (lg_disk lg)(name \<mapsto> (case lg_disk lg name of None \<Rightarrow> '''' | Some old \<Rightarrow> old) @ text),
       lg_fileSize := lg_fileSize lg + length text\<rparr>)"

definition WriteToFile :: "nat \<Rightarrow> log_env \<Rightarrow> string \<Rightarrow> Logger \<Rightarrow> (log_error + Logger) option" where
  "WriteToFile fuel env text lg =
     (if lg_file lg = None then Some (Inr lg)
      else if MAX_FILE_SIZE < lg_fileSize lg + length text
        then xbind (OpenNewLogFile fuel env (lg\<lparr>lg_file := None\<rparr>)) (\<lambda>lg1. Some (Inr (append_text text lg1)))
        else Some (Inr (append_text text lg)))"

section \<open>Console and entry points\<close>

fun color :: "LogLevel \<Rightarrow> string" where
  "color LOG_LEVEL_ERROR = CHR 0x1B # ''[31m''"
| "color LOG_LEVEL_WARN = CHR 0x1B # ''[33m''"
| "color LOG_LEVEL_INFO = CHR 0x1B # ''[36m''"
| "color LOG_LEVEL_DEBUG = CHR 0x1B # ''[32m''"

definition WriteToConsole :: "LogLevel \<Rightarrow> string \<Rightarrow> Logger \<Rightarrow> Logger" where
  "WriteToConsole level text lg = lg\<lparr>lg_console := lg_console lg @ color level @ text @ CHR 0x1B # ''[0m''\<rparr>"

definition ProcessLogMessage :: "nat \<Rightarrow> log_env \<Rightarrow> LogLevel \<times> string \<Rightarrow> Logger \<Rightarrow> (log_error + Logger) option" where
  "ProcessLogMessage fuel env msg lg =
     xbind (WriteToFile fuel env (snd msg) lg) (\<lambda>lg1.
       Some (Inr (if level_no (fst msg) \<le> level_no (lg_level lg1) then WriteToConsole (fst msg) (snd msg) lg1 else lg1)))"

definition LogSync :: "nat \<Rightarrow> log_env \<Rightarrow> LogLevel \<Rightarrow> string \<Rightarrow> string \<Rightarrow> Logger \<Rightarrow> (log_error + Logger) option" where
  "LogSync fuel env level prefix message lg = (case format_line prefix message of
     Inl e \<Rightarrow> Some (Inl (LineFault e))
   | Inr logText \<Rightarrow> WriteToFile fuel env logText (WriteToConsole level logText lg))"

text \<open>The asynchronous branch hands the line to the ring of \<open>LogRing\<close>; here it is recorded.\<close>

definition Log :: "nat \<Rightarrow> log_env \<Rightarrow> LogLevel \<Rightarrow> string \<Rightarrow> string \<Rightarrow> Logger \<Rightarrow> (log_error + Logger) option" where
  "Log fuel env level prefix message lg =
     (if \<not> lg_initialized lg then Some (Inr lg)
      else if level_no (lg_level lg) < level_no level then Some (Inr lg)
      else if lg_policy lg = SYNC then LogSync fuel env level prefix message lg
      else case format_line prefix message of
          Inl e \<Rightarrow> Some (Inl (LineFault e))
        | Inr text \<Rightarrow> Some (Inr (lg\<lparr>lg_async := lg_async lg @ [(level, text)]\<rparr>)))"

definition Logger_Initialize :: "nat \<Rightarrow> log_env \<Rightarrow> LogLevel \<Rightarrow> LoggingPolicy \<Rightarrow> Logger \<Rightarrow> (log_error + Logger) option" where
  "Logger_Initialize fuel env level policy lg =
     xbind (OpenNewLogFile fuel env (lg\<lparr>lg_policy := policy, lg_level := level\<rparr>)) (\<lambda>lg1.
       Some (Inr (if policy = ASYNC then lg1\<lparr>lg_async := [], lg_initialized := True\<rparr> else lg1\<lparr>lg_initialized := True\<rparr>)))"

definition SetLogLevel :: "LogLevel \<Rightarrow> Logger \<Rightarrow> Logger" where
  "SetLogLevel level lg = lg\<lparr>lg_level := level\<rparr>"

text \<open>The flag \<open>shutdown_called\<close> is static; joining the logger thread is left out.\<close>

definition Logger_Shutdown :: "bool \<Rightarrow> Logger \<Rightarrow> bool \<times> Logger" where
  "Logger_Shutdown shutdown_called lg = (if shutdown_called then (True, lg) else (True, lg\<lparr>lg_file := None\<rparr>))"

section \<open>Facts\<close>

definition digit_char :: "char \<Rightarrow> bool" where
  "digit_char c \<longleftrightarrow> 48 \<le> (of_char c :: nat) \<and> of_char c \<le> (57 :: nat)"

fun undec :: "nat \<Rightarrow> string \<Rightarrow> nat" where
  "undec v [] = v"
| "undec v (c # cs) = undec (10 * v + (of_char c - 48)) cs"

lemma undec_append: "undec v (xs @ ys) = undec (undec v xs) ys"
  by (induction xs arbitrary: v) simp_all

lemma dec_digits: "c \<in> set (dec n) \<Longrightarrow> digit_char c"
proof (induction n rule: dec.induct)
  case (1 n)
  have "digit_char (char_of (48 + k :: nat))" if "k < 10" for k using that by (simp add: digit_char_def)
  then show ?case using 1 by (subst (asm) dec.simps) (auto split: if_splits)
qed

lemma undec_dec: "undec 0 (dec n) = n"
proof (induction n rule: dec.induct)
  case (1 n)
  show ?case
  proof (cases "n < 10")
    case True
    then show ?thesis by (subst dec.simps) simp
  next
    case False
    then have "undec 0 (dec n) = undec (undec 0 (dec (n div 10))) [char_of (48 + n mod 10)]"
      by (subst dec.simps) (simp add: undec_append)
    also have "\<dots> = 10 * (n div 10) + n mod 10" using 1 False by simp
    finally show ?thesis by simp
  qed
qed

lemma takeWhile_all: "(\<forall>c \<in> set xs. P c) \<Longrightarrow> \<not> P y \<Longrightarrow> takeWhile P (xs @ y # ys) = xs"
  by (induction xs) simp_all

text \<open>Names with different sequence numbers differ, whatever the clock says.\<close>

lemma log_names_differ:
  assumes "0 < i" "0 < j" "GenerateLogFileName env i = GenerateLogFileName env j"
  shows "i = j"
proof -
  let ?P = "\<lambda>c. digit_char c"
  have ends: "\<exists>pre. GenerateLogFileName env k = pre @ CHR ''_'' # dec k @ ''.log''" if "0 < k" for k
    using that unfolding GenerateLogFileName_def Let_def by simp
  have number: "takeWhile ?P (drop 4 (rev (GenerateLogFileName env k))) = rev (dec k)" if k: "0 < k" for k
  proof -
    obtain pre where "GenerateLogFileName env k = pre @ CHR ''_'' # dec k @ ''.log''" using ends [OF k] by blast
    then have "drop 4 (rev (GenerateLogFileName env k)) = rev (dec k) @ CHR ''_'' # rev pre" by simp
    moreover have "\<not> ?P (CHR ''_'')" by (simp add: digit_char_def)
    ultimately show ?thesis using dec_digits by (simp add: takeWhile_all)
  qed
  have "dec i = dec j" using number [OF assms(1)] number [OF assms(2)] assms(3) by (metis rev_rev_ident)
  then show ?thesis by (metis undec_dec)
qed

lemma inf_names: "\<not> finite (GenerateLogFileName env ` {2..})"
proof -
  have "inj_on (GenerateLogFileName env) {2..}" by (rule inj_onI) (auto intro: log_names_differ)
  then show ?thesis by (simp add: finite_image_iff infinite_Ici)
qed

lemma format_line_fits: "format_line prefix message = Inr text \<Longrightarrow> length text < MAX_LOG_LENGTH"
  by (auto simp: format_line_def MAX_LOG_LENGTH_def Let_def min_def split: if_splits)

text \<open>The search ends at the first number whose file is missing.\<close>

lemma open_loop_returns:
  assumes "lg_disk lg (GenerateLogFileName env k) = None" "i \<le> k" "\<forall>f. le_fopen env f" "k - i < n"
  shows "\<exists>j lg'. open_loop n env i lg = Some (Inr (j, lg')) \<and> lg_file lg' = Some (GenerateLogFileName env j)"
  using assms(2,4)
proof (induction n arbitrary: i)
  case (Suc n)
  show ?case
  proof (cases "lg_disk lg (GenerateLogFileName env i)")
    case None
    then show ?thesis using assms(3) by (simp add: Let_def)
  next
    case (Some old)
    then have "i \<noteq> k" using assms(1) by auto
    then have "i + 1 \<le> k" "k - (i + 1) < n" using Suc.prems by simp_all
    from Suc.IH [OF this] show ?thesis using Some assms(3) by (simp add: Let_def)
  qed
qed simp

lemma open_loop_total:
  assumes "finite (dom (lg_disk lg))" "\<forall>f. le_fopen env f"
  shows "\<exists>n j lg'. open_loop n env 2 lg = Some (Inr (j, lg')) \<and> lg_file lg' = Some (GenerateLogFileName env j)"
proof -
  obtain k where k: "2 \<le> k" "GenerateLogFileName env k \<notin> dom (lg_disk lg)"
    using inf_names [of env] assms(1) by (meson atLeast_iff finite_subset image_subsetI)
  then have "lg_disk lg (GenerateLogFileName env k) = None" by auto
  from open_loop_returns [OF this k(1) assms(2), of "Suc (k - 2)"] show ?thesis by blast
qed

text \<open>A consistent logger knows the size of its file.\<close>

definition file_ok :: "Logger \<Rightarrow> bool" where
  "file_ok lg \<longleftrightarrow> (\<exists>name text. lg_file lg = Some name \<and> lg_disk lg name = Some text \<and> lg_fileSize lg = length text \<and> length text \<le> MAX_FILE_SIZE)"

text \<open>The names a rotation tries first are free.\<close>

definition fresh_names :: "log_env \<Rightarrow> Logger \<Rightarrow> bool" where
  "fresh_names env lg \<longleftrightarrow> lg_disk lg (GenerateLogFileName env 0) = None \<and> lg_disk lg (GenerateLogFileName env 2) = None \<and>
     le_fopen env (GenerateLogFileName env 2)"

lemma open_fresh:
  assumes "fresh_names env lg"
  shows "OpenNewLogFile (Suc n) env lg =
    Some (Inr (lg\<lparr>lg_file := Some (GenerateLogFileName env 2), lg_fileName := GenerateLogFileName env 2,
      lg_disk := (lg_disk lg)(GenerateLogFileName env 2 \<mapsto> ''''), lg_fileSize := 0\<rparr>))"
  using assms by (simp add: fresh_names_def OpenNewLogFile_def Let_def)

text \<open>One line: it is appended to the current file, or to a new one when the current one is full.\<close>

lemma write_line:
  assumes ok: "file_ok lg" and len: "length text \<le> MAX_FILE_SIZE"
    and fresh: "MAX_FILE_SIZE < lg_fileSize lg + length text \<Longrightarrow> fresh_names env lg"
  shows "\<exists>lg' name old. WriteToFile (Suc n) env text lg = Some (Inr lg') \<and> file_ok lg' \<and> lg_file lg' = Some name \<and>
    lg_disk lg' = (lg_disk lg)(name \<mapsto> old @ text) \<and>
    (lg_file lg = Some name \<and> lg_disk lg name = Some old \<or> lg_disk lg name = None \<and> old = '''')"
proof -
  obtain name old where f: "lg_file lg = Some name" "lg_disk lg name = Some old" "lg_fileSize lg = length old" "length old \<le> MAX_FILE_SIZE"
    using ok by (auto simp: file_ok_def)
  show ?thesis
  proof (cases "MAX_FILE_SIZE < lg_fileSize lg + length text")
    case True
    let ?new = "GenerateLogFileName env 2"
    have fr: "fresh_names env (lg\<lparr>lg_file := None\<rparr>)" using fresh [OF True] by (simp add: fresh_names_def)
    have "lg_disk lg ?new = None" using fr by (simp add: fresh_names_def)
    moreover have "WriteToFile (Suc n) env text lg = Some (Inr (append_text text (lg\<lparr>lg_file := Some ?new, lg_fileName := ?new,
        lg_disk := (lg_disk lg)(?new \<mapsto> ''''), lg_fileSize := 0\<rparr>)))"
      using True f(1) open_fresh [OF fr, of n] by (simp add: WriteToFile_def)
    ultimately show ?thesis using len by (auto simp: append_text_def file_ok_def)
  next
    case False
    then have "WriteToFile (Suc n) env text lg = Some (Inr (append_text text lg))" using f(1) by (simp add: WriteToFile_def)
    then show ?thesis using f False by (auto simp: append_text_def file_ok_def)
  qed
qed

section \<open>Properties\<close>

fun write_all :: "(log_env \<times> string) list \<Rightarrow> Logger \<Rightarrow> (log_error + Logger) option" where
  "write_all [] lg = Some (Inr lg)"
| "write_all ((env, text) # ws) lg = xbind (WriteToFile 1 env text lg) (write_all ws)"

fun fresh_run :: "(log_env \<times> string) list \<Rightarrow> Logger \<Rightarrow> bool" where
  "fresh_run [] lg = True"
| "fresh_run ((env, text) # ws) lg \<longleftrightarrow> (MAX_FILE_SIZE < lg_fileSize lg + length text \<longrightarrow> fresh_names env lg) \<and>
     (case WriteToFile 1 env text lg of Some (Inr lg') \<Rightarrow> fresh_run ws lg' | _ \<Rightarrow> False)"

lemma dom_segments: "dom (map_of (map (\<lambda>(g, xs). (g, concat xs)) ps)) = fst ` set ps"
  by (simp add: dom_map_of_conv_image_fst image_image split_beta)

lemma write_all_segments:
  assumes "file_ok lg" "lg_file lg = Some f" "lg_disk lg f = Some old" "\<forall>w \<in> set ws. length (snd w) \<le> MAX_FILE_SIZE" "fresh_run ws lg"
  shows "\<exists>lg' ls ps. write_all ws lg = Some (Inr lg') \<and> ls @ concat (map snd ps) = map snd ws \<and>
    lg_disk lg' = (lg_disk lg)(f \<mapsto> old @ concat ls) ++ map_of (map (\<lambda>(g, xs). (g, concat xs)) ps) \<and>
    distinct (map fst ps) \<and> (\<forall>g \<in> set (map fst ps). lg_disk lg g = None) \<and>
    length (old @ concat ls) \<le> MAX_FILE_SIZE \<and> (\<forall>p \<in> set ps. length (concat (snd p)) \<le> MAX_FILE_SIZE)"
  using assms
proof (induction ws arbitrary: lg f old)
  case Nil
  then show ?case by (intro exI [of _ lg] exI [of _ "[]"]) (auto simp: file_ok_def)
next
  case (Cons w ws)
  obtain env ln where w: "w = (env, ln)" by (cases w)
  have len: "length ln \<le> MAX_FILE_SIZE" and fresh: "MAX_FILE_SIZE < lg_fileSize lg + length ln \<Longrightarrow> fresh_names env lg"
    using Cons.prems(4,5) w by auto
  obtain lg1 g old1 where step: "WriteToFile 1 env ln lg = Some (Inr lg1)" "file_ok lg1" "lg_file lg1 = Some g"
      and disk: "lg_disk lg1 = (lg_disk lg)(g \<mapsto> old1 @ ln)"
      and c: "lg_file lg = Some g \<and> lg_disk lg g = Some old1 \<or> lg_disk lg g = None \<and> old1 = ''''"
    using write_line [OF Cons.prems(1) len fresh, of 0] by (metis One_nat_def)
  have rest: "\<forall>w \<in> set ws. length (snd w) \<le> MAX_FILE_SIZE" "fresh_run ws lg1" using Cons.prems(4,5) w step(1) by auto
  have "lg_disk lg1 g = Some (old1 @ ln)" by (simp add: disk)
  from Cons.IH [OF step(2,3) this rest] obtain lg' ls ps where
      run: "write_all ws lg1 = Some (Inr lg')" and tx: "ls @ concat (map snd ps) = map snd ws"
      and d: "lg_disk lg' = (lg_disk lg1)(g \<mapsto> (old1 @ ln) @ concat ls) ++ map_of (map (\<lambda>(g, xs). (g, concat xs)) ps)"
      and dist: "distinct (map fst ps)" and new: "\<forall>h \<in> set (map fst ps). lg_disk lg1 h = None"
      and sz: "length ((old1 @ ln) @ concat ls) \<le> MAX_FILE_SIZE" "\<forall>p \<in> set ps. length (concat (snd p)) \<le> MAX_FILE_SIZE"
    by blast
  have run': "write_all (w # ws) lg = Some (Inr lg')" using step(1) run w by simp
  have old_new: "lg_disk lg h = None \<and> h \<noteq> g" if "h \<in> set (map fst ps)" for h
    using new that by (auto simp: disk split: if_splits)
  have dn: "\<forall>h \<in> set (map fst ps). lg_disk lg h = None" using old_new by blast
  from c show ?case
  proof
    assume same: "lg_file lg = Some g \<and> lg_disk lg g = Some old1"
    then have f: "f = g" "old = old1" using Cons.prems(2,3) by simp_all
    have "lg_disk lg' = (lg_disk lg)(f \<mapsto> old @ concat (ln # ls)) ++ map_of (map (\<lambda>(g, xs). (g, concat xs)) ps)"
      using d unfolding disk f by simp
    moreover have "(ln # ls) @ concat (map snd ps) = map snd (w # ws)" using tx w by simp
    moreover have "length (old @ concat (ln # ls)) \<le> MAX_FILE_SIZE" using sz(1) by (simp add: f)
    ultimately show ?thesis using run' dist dn sz(2)
      by (intro exI [of _ lg'] exI [of _ "ln # ls"] exI [of _ ps] conjI) assumption+
  next
    assume fr: "lg_disk lg g = None \<and> old1 = ''''"
    let ?m = "map_of (map (\<lambda>(g, xs). (g, concat xs)) ps)" and ?ps = "(g, ln # ls) # ps"
    have keep: "(lg_disk lg)(f \<mapsto> old @ concat []) = lg_disk lg" using Cons.prems(3) by (simp add: fun_upd_idem)
    have "g \<notin> dom ?m" using old_new [of g] unfolding dom_segments by auto
    then have "lg_disk lg' = (lg_disk lg)(f \<mapsto> old @ concat []) ++ map_of (map (\<lambda>(g, xs). (g, concat xs)) ?ps)"
      using d fr unfolding keep disk by (simp add: map_add_upd_left)
    moreover have "length (old @ concat []) \<le> MAX_FILE_SIZE" using Cons.prems(1-3) by (auto simp: file_ok_def)
    moreover have "distinct (map fst ?ps)" using old_new dist by auto
    moreover have "[] @ concat (map snd ?ps) = map snd (w # ws)" using tx w by simp
    moreover have "\<forall>p \<in> set ?ps. length (concat (snd p)) \<le> MAX_FILE_SIZE" using sz by simp
    moreover have "\<forall>h \<in> set (map fst ?ps). lg_disk lg h = None" using dn fr by simp
    ultimately show ?thesis using run'
      by (intro exI [of _ lg'] exI [of _ "[]"] exI [of _ ?ps] conjI) assumption+
  qed
qed


definition open_env :: log_env where
  "open_env = \<lparr>le_log_dir = True, le_process_dir = True, le_module_path = ''C:/srv/game.exe'',
     le_time = (\<lambda>_. \<lparr>tm_year = 125, tm_mon = 0, tm_mday = 2, tm_hour = 3, tm_min = 4, tm_sec = 5\<rparr>), le_fopen = (\<lambda>_. True)\<rparr>"

definition small_log :: Logger where
  "small_log = (Logger_ctor [''a'' \<mapsto> ''x''])\<lparr>lg_file := Some ''a'', lg_fileSize := 1\<rparr>"


text \<open>C16: Opening a log file returns: whatever files exist, however full they are and whatever the clock says, a file is
  found when files can be opened.\<close>

theorem log_open_returns:
  assumes "finite (dom (lg_disk lg))" "\<forall>f. le_fopen env f"
  shows "\<exists>fuel lg' f. OpenNewLogFile fuel env lg = Some (Inr lg') \<and> lg_file lg' = Some f"
proof -
  obtain n j lg' where n: "open_loop n env 2 lg = Some (Inr (j, lg'))" "lg_file lg' = Some (GenerateLogFileName env j)"
    using open_loop_total [OF assms] by blast
  show ?thesis
  proof (cases "lg_disk lg (GenerateLogFileName env 0)")
    case None
    then show ?thesis using n by (intro exI [of _ n]) (auto simp: OpenNewLogFile_def)
  next
    case (Some old)
    then show ?thesis using n assms(2) by (intro exI [of _ n]) (cases "length old < MAX_FILE_SIZE"; simp add: OpenNewLogFile_def Let_def)
  qed
qed

theorem log_open_returns_witness:
  "\<exists>fuel lg' f. OpenNewLogFile fuel open_env small_log = Some (Inr lg') \<and> lg_file lg' = Some f"
  by (rule log_open_returns) (simp_all add: small_log_def Logger_ctor_def open_env_def)

text \<open>The size that is counted is wrong in two cases: a file with sequence number 2 that is opened again counts as empty,
  and a new file with a higher number keeps the size of the file before.\<close>

lemma reopened_counts_as_empty:
  assumes "lg_disk lg (GenerateLogFileName env 0) = None" "lg_disk lg (GenerateLogFileName env 2) = Some old"
    and "length old < MAX_FILE_SIZE" "le_fopen env (GenerateLogFileName env 2)"
  shows "\<exists>lg'. OpenNewLogFile (Suc n) env lg = Some (Inr lg') \<and> lg_file lg' = Some (GenerateLogFileName env 2) \<and>
    lg_disk lg' = lg_disk lg \<and> lg_fileSize lg' = 0"
  using assms by (simp add: OpenNewLogFile_def Let_def)

lemma new_file_keeps_old_size:
  assumes "lg_disk lg (GenerateLogFileName env 0) = None" "lg_disk lg (GenerateLogFileName env 2) = Some old"
    and "MAX_FILE_SIZE \<le> length old" "lg_disk lg (GenerateLogFileName env 3) = None" "\<forall>f. le_fopen env f"
  shows "\<exists>lg'. OpenNewLogFile (Suc (Suc n)) env lg = Some (Inr lg') \<and> lg_file lg' = Some (GenerateLogFileName env 3) \<and>
    lg_disk lg' (GenerateLogFileName env 3) = Some '''' \<and> lg_fileSize lg' = lg_fileSize lg"
  using assms by (simp add: OpenNewLogFile_def Let_def numeral_3_eq_3)

text \<open>When a file is missing and cannot be made, the search does not give up but throws.\<close>

lemma unwritable_throws:
  assumes "lg_disk lg (GenerateLogFileName env 0) = None" "lg_disk lg (GenerateLogFileName env 2) = None" "\<not> le_fopen env (GenerateLogFileName env 2)"
  shows "OpenNewLogFile (Suc n) env lg = Some (Inl FilesystemError)"
  using assms by (simp add: OpenNewLogFile_def Let_def)

end
