(* ===== verification/GameServer.thy ===== *)
theory GameServer
  imports Player Logger
begin

text \<open>
  The game server (\<^verbatim>\<open>GameServer/GameServer.*\<close>): the packet handlers of the login and scene protocol, over the users of the connections and
  the game logic. A handler runs on the network side: it changes the user, sends replies and posts jobs; the jobs run on the
  thread of the scene. Addresses of new objects are arguments. \<open>float\<close> zero is the bit pattern 0.

  Shown: over any sequence of connections, requests and disconnects no handler faults, player numbers are never given twice and
  each player belongs to one logged-in user; every request gets the replies of the protocol for the state of its
  user; a disconnect takes the player out of its scene and tells exactly the others; and a scene-change request for the
  scene the player is in, which any client can send, leads to the use of a deleted object.
\<close>

section \<open>State\<close>

record GameServer =
  gv_scene :: "addr option"
  gv_nextPlayerId :: u32
  gv_currentSessions :: u32
  gv_totalConnected :: u32
  gv_totalDisconnected :: u32

definition GameServer_ctor :: GameServer where
  "GameServer_ctor = \<lparr>gv_scene = None, gv_nextPlayerId = 1, gv_currentSessions = 0, gv_totalConnected = 0, gv_totalDisconnected = 0\<rparr>"

type_synonym game = "GameServer \<times> (pworld, unit) logic"

definition to_string :: "c_int \<Rightarrow> string" where
  "to_string i = (if sint i < 0 then ''-'' @ dec (nat (- sint i)) else dec (nat (sint i)))"

definition the_user :: "game \<Rightarrow> addr \<Rightarrow> User" where
  "the_user g user = user_at (lw_app (snd g)) user"

definition upd_user :: "addr \<Rightarrow> (User \<Rightarrow> User) \<Rightarrow> pworld \<Rightarrow> pworld" where
  "upd_user user f w = w\<lparr>pw_users := (pw_users w)(user \<mapsto> f (user_at w user))\<rparr>"

definition on_app :: "(pworld \<Rightarrow> pworld) \<Rightarrow> game \<Rightarrow> game" where
  "on_app f g = (fst g, app f (snd g))"

section \<open>Helpers\<close>

definition SendError :: "addr \<Rightarrow> ErrorCode \<Rightarrow> string \<Rightarrow> game \<Rightarrow> game" where
  "SendError user error_code error_message g = on_app (send_to (Some user) (GC_ERROR_NOTIFY error_code error_message)) g"

definition GetDefaultSceneId :: c_int where
  "GetDefaultSceneId = 0"

definition GetSceneById :: "c_int \<Rightarrow> GameServer \<Rightarrow> addr option" where
  "GetSceneById scene_id srv = (if scene_id = 0 then gv_scene srv else None)"

definition GeneratePlayerId :: "GameServer \<Rightarrow> u32 \<times> GameServer" where
  "GeneratePlayerId srv = (gv_nextPlayerId srv, srv\<lparr>gv_nextPlayerId := gv_nextPlayerId srv + 1\<rparr>)"

definition scene_missing :: "c_int \<Rightarrow> string" where
  "scene_missing scene_id = ''Scene not found: '' @ to_string scene_id"

text \<open>\<open>Create<Player>\<close>: the manager's factory with the constructor of the player. The two parts do not touch each
  other's state. A scene without a thread makes the constructor throw, which nobody catches.\<close>

definition Create_Player :: "game_env \<Rightarrow> addr \<Rightarrow> addr \<Rightarrow> addr \<Rightarrow> addr \<Rightarrow> u32 \<Rightarrow> (pworld, unit) logic \<Rightarrow> fault + (pworld, unit) logic" where
  "Create_Player env obj cptr scene user player_id lw =
     rbind (Manager_Create obj scene lw) (\<lambda>r. case r of
         Inl _ \<Rightarrow> Inl Terminate
       | Inr lw1 \<Rightarrow> Inr (app (Player_ctor env obj (Some user) player_id cptr) lw1))"

section \<open>Handlers\<close>

text \<open>Log lines are left out, but not that they read the player: where nothing else does, the look-up stays.\<close>

definition HandleLoginRequest :: "addr \<Rightarrow> game \<Rightarrow> game" where
  "HandleLoginRequest user g =
     (if User_GetPlayerId (the_user g user) \<noteq> 0 then SendError user ALREADY_LOGGED_IN ''Already logged in'' g
      else
        let (player_id, srv1) = GeneratePlayerId (fst g);
            scene_id = GetDefaultSceneId;
            g1 = on_app (upd_user user (\<lambda>u. User_SetSpawnPos 0 0 0 (User_SetLastSceneId scene_id (User_SetPlayerId player_id u)))) (srv1, snd g)
        in on_app (send_to (Some user) (GC_LOGIN_RES player_id scene_id (0, 0, 0))) g1)"

definition HandleSceneReadyRequest :: "game_env \<Rightarrow> addr \<Rightarrow> addr \<Rightarrow> addr \<Rightarrow> game \<Rightarrow> fault + game" where
  "HandleSceneReadyRequest env obj cptr user g =
     (let u = the_user g user in
      if User_GetPlayerId u = 0 then Inr (SendError user NOT_LOGGED_IN ''Not logged in'' g)
      else case User_GetPlayer u of
        Some player \<Rightarrow> rbind (deref (lw_gobjs (snd g)) player) (\<lambda>_. Inr g)
      | None \<Rightarrow>
          (case GetSceneById (User_GetLastSceneId u) (fst g) of
             None \<Rightarrow> Inr (SendError user SCENE_NOT_FOUND (scene_missing (User_GetLastSceneId u)) g)
           | Some scene \<Rightarrow>
               rbind (Create_Player env obj cptr scene user (User_GetPlayerId u) (snd g)) (\<lambda>lw.
                 Inr (on_app (upd_user user (User_SetPlayer (Some obj))) (fst g, lw)))))"

definition HandleSceneChangeRequest :: "c_int \<Rightarrow> addr \<Rightarrow> game \<Rightarrow> fault + game" where
  "HandleSceneChangeRequest new_scene_id user g =
     (case User_GetPlayer (the_user g user) of
        None \<Rightarrow> Inr (SendError user PLAYER_NOT_FOUND ''Player not found'' g)
      | Some player \<Rightarrow>
          (case GetSceneById new_scene_id (fst g) of
             None \<Rightarrow> Inr (SendError user SCENE_NOT_FOUND (scene_missing new_scene_id) g)
           | Some target_scene \<Rightarrow>
               let g1 = on_app (upd_user user (\<lambda>u. User_SetSpawnPos 0 0 0 (User_SetLastSceneId new_scene_id u))) g;
                   g2 = on_app (send_to (Some user) (GC_SCENE_CHANGE_RES new_scene_id (0, 0, 0))) g1
               in rbind (MoveToScene player (Some target_scene) (snd g2)) (\<lambda>lw. Inr (fst g2, lw))))"

definition HandleMoveRequest :: "game_env \<Rightarrow> Pos \<Rightarrow> addr \<Rightarrow> game \<Rightarrow> fault + game" where
  "HandleMoveRequest env move_pos user g =
     (case User_GetPlayer (the_user g user) of
        None \<Rightarrow> Inr (SendError user PLAYER_NOT_FOUND ''Player not found'' g)
      | Some player \<Rightarrow> rbind (PostSetDestPosJob env player move_pos (snd g)) (\<lambda>lw. Inr (fst g, lw)))"

definition OnSessionConnect :: "game \<Rightarrow> game" where
  "OnSessionConnect g = ((fst g)\<lparr>gv_currentSessions := gv_currentSessions (fst g) + 1, gv_totalConnected := gv_totalConnected (fst g) + 1\<rparr>, snd g)"

definition OnUserDisconnect :: "addr \<Rightarrow> game \<Rightarrow> fault + game" where
  "OnUserDisconnect user g =
     (let g1 = ((fst g)\<lparr>gv_currentSessions := gv_currentSessions (fst g) - 1, gv_totalDisconnected := gv_totalDisconnected (fst g) + 1\<rparr>, snd g) in
      case User_GetPlayer (the_user g1 user) of
        None \<Rightarrow> Inr g1
      | Some player \<Rightarrow> rbind (Object_Destroy player (snd g1)) (\<lambda>lw. Inr (on_app (upd_user user User_ClearPlayer) (fst g1, lw))))"

definition OnServerStart :: "addr \<Rightarrow> addr option \<Rightarrow> game \<Rightarrow> fault + game" where
  "OnServerStart scene gameThread0 g =
     rbind (GameScene_ctor scene gameThread0 (snd g)) (\<lambda>lw. Inr ((fst g)\<lparr>gv_scene := Some scene\<rparr>, lw))"

definition OnServerStop :: "game \<Rightarrow> fault + game" where
  "OnServerStop g = (case gv_scene (fst g) of
     None \<Rightarrow> Inr g
   | Some scene \<Rightarrow> rbind (GameScene_dtor scene (snd g)) (\<lambda>lw. Inr ((fst g)\<lparr>gv_scene := None\<rparr>, lw)))"

text \<open>The handler registered for each message type. \<open>obj\<close> and \<open>cptr\<close> are the addresses a new player and its component get.\<close>

datatype request = CG_LOGIN_REQ | CG_SCENE_READY_REQ | CG_SCENE_CHANGE_REQ c_int | CG_MOVE_REQ Pos Pos

fun handle_request :: "game_env \<Rightarrow> addr \<Rightarrow> addr \<Rightarrow> request \<Rightarrow> addr \<Rightarrow> game \<Rightarrow> fault + game" where
  "handle_request env obj cptr CG_LOGIN_REQ user g = Inr (HandleLoginRequest user g)"
| "handle_request env obj cptr CG_SCENE_READY_REQ user g = HandleSceneReadyRequest env obj cptr user g"
| "handle_request env obj cptr (CG_SCENE_CHANGE_REQ scene_id) user g = HandleSceneChangeRequest scene_id user g"
| "handle_request env obj cptr (CG_MOVE_REQ cur_pos move_pos) user g = HandleMoveRequest env move_pos user g"

section \<open>What the closures of players keep\<close>

definition keeps :: "(pworld \<Rightarrow> pworld) \<Rightarrow> bool" where
  "keeps f \<longleftrightarrow> (\<forall>w. pw_users (f w) = pw_users w \<and> pw_players (f w) = pw_players w)"

lemma keepsD: "keeps f \<Longrightarrow> pw_users (f w) = pw_users w" "keeps f \<Longrightarrow> pw_players (f w) = pw_players w"
  by (simp_all add: keeps_def)

lemma keeps_id [simp]: "keeps (\<lambda>w. w)"
  by (simp add: keeps_def)

lemma keeps_send [simp]: "keeps (told ps)" "keeps (set_move p mc)" "keeps (send_to r packet)"
  "keeps (BroadcastToScene objs packet)" "keeps (BroadcastToOthers this objs packet)"
  by (simp_all add: keeps_def send_to_told BroadcastToScene_told BroadcastToOthers_told)

lemmas keeps_send_fields [simp] = keeps_send [THEN keepsD(1)] keeps_send [THEN keepsD(2)]

lemma keeps_BroadcastMoveNotify [simp]: "keeps (BroadcastMoveNotify objs this mc)"
  by (simp add: keeps_def BroadcastMoveNotify_def split: option.split)

lemmas keeps_BroadcastMoveNotify_fields [simp] = keeps_BroadcastMoveNotify [THEN keepsD(1)] keeps_BroadcastMoveNotify [THEN keepsD(2)]

lemma keeps_call_handlers [simp]: "keeps (call_handlers (BroadcastMoveNotify objs) ids mc ev)"
proof -
  have "pw_users (snd (snd (invoke_loop (\<lambda>h (e, v). (e, BroadcastMoveNotify objs h mc v)) H ids (e, w)))) = pw_users w \<and>
      pw_players (snd (snd (invoke_loop (\<lambda>h (e, v). (e, BroadcastMoveNotify objs h mc v)) H ids (e, w)))) = pw_players w" for H e w
    by (induction ids arbitrary: w) (simp_all add: split_beta split: option.split)
  then show ?thesis by (simp add: keeps_def call_handlers_def Event_Invoke_def)
qed

lemmas keeps_call_handlers_fields [simp] = keeps_call_handlers [THEN keepsD(1)] keeps_call_handlers [THEN keepsD(2)]

lemma keeps_set_destination [simp]: "keeps (set_destination env objs p dest)"
  by (simp add: keeps_def set_destination_def SetDestination_def Let_def split_beta)

lemmas keeps_set_destination_fields [simp] = keeps_set_destination [THEN keepsD(1)] keeps_set_destination [THEN keepsD(2)]

lemma keeps_HandleSetDestPos [simp]: "keeps (HandleSetDestPos env this dest objs)"
  by (simp add: keeps_def HandleSetDestPos_def split: option.split)

lemmas keeps_HandleSetDestPos_fields [simp] = keeps_HandleSetDestPos [THEN keepsD(1)] keeps_HandleSetDestPos [THEN keepsD(2)]

lemma keeps_component_update [simp]: "keeps (component_update env objs c)"
  by (simp add: keeps_def component_update_def Move_OnFixedUpdate_def Let_def split_beta split: option.split)

lemmas keeps_component_update_fields [simp] = keeps_component_update [THEN keepsD(1)] keeps_component_update [THEN keepsD(2)]

lemma keeps_fold: "(\<And>c. c \<in> set cs \<Longrightarrow> keeps (f c)) \<Longrightarrow> keeps (fold f cs)"
  by (induction cs) (simp_all add: keeps_def)

lemma keeps_send_existing [simp]: "keeps (send_existing this p objs)"
proof -
  have "pw_users (send_existing this p objs w) = pw_users w \<and> pw_players (send_existing this p objs w) = pw_players w" for w
    by (induction objs arbitrary: w) (simp_all add: Player_SendPacket_def split: option.split)
  then show ?thesis by (simp add: keeps_def)
qed

lemmas keeps_send_existing_fields [simp] = keeps_send_existing [THEN keepsD(1)] keeps_send_existing [THEN keepsD(2)]

lemma keeps_hooks [simp]:
  "keeps (hk_OnEnter (player_hooks env) this objs)" "keeps (hk_OnExit (player_hooks env) this objs)"
  "keeps (hk_OnFixedUpdate (player_hooks env) this objs)" "keeps (hk_OnUpdate (player_hooks env) this objs)"
  "keeps (hk_scene_fixed (player_hooks env) sc)" "keeps (hk_scene_update (player_hooks env) sc)"
proof -
  show "keeps (hk_OnEnter (player_hooks env) this objs)"
    by (simp add: keeps_def player_hooks_def Player_OnEnter_def Player_SendPacket_def Let_def split_beta split: option.split)
  show "keeps (hk_OnExit (player_hooks env) this objs)" by (simp add: keeps_def player_hooks_def Player_OnExit_def split: option.split)
  show "keeps (hk_OnFixedUpdate (player_hooks env) this objs)"
    using keeps_fold [of _ "component_update env objs"]
    by (simp add: keeps_def player_hooks_def Player_OnFixedUpdate_def FixedUpdateComponents_def split: option.split)
qed (simp_all add: player_hooks_def)

lemmas keeps_hooks_fields [simp] = keeps_hooks [THEN keepsD(1)] keeps_hooks [THEN keepsD(2)]

section \<open>Objects of users are not deleted\<close>

text \<open>\<open>A\<close> are the objects that must stay: the manager and the players of the connected users. A job is harmless for them in
  the queue of \<open>b\<close> when it does not destroy one of them, and a job that destroys stands in the queue of what it destroys.\<close>

fun harmless :: "addr set \<Rightarrow> addr \<Rightarrow> pworld job \<Rightarrow> bool" where
  "harmless A b (JUser this f) \<longleftrightarrow> (\<forall>objs u. snd (f objs u) = []) \<and> (\<forall>objs. keeps (\<lambda>u. fst (f objs u)))"
| "harmless A b (JDestroy this) \<longleftrightarrow> this = b \<and> this \<notin> A"
| "harmless A b (JPostTo sn j) \<longleftrightarrow> False"
| "harmless A b (JMoveOut this ns) \<longleftrightarrow> True"
| "harmless A b (JEnter this ns) \<longleftrightarrow> True"
| "harmless A b (JExit this) \<longleftrightarrow> True"
| "harmless A b (JRegister sn this) \<longleftrightarrow> True"
| "harmless A b (JUnregister sn) \<longleftrightarrow> True"

definition runs_on :: "addr option \<Rightarrow> ('u, 'h) logic \<Rightarrow> bool" where
  "runs_on t w \<longleftrightarrow> (\<exists>q. t = Some q \<and> q \<in> dom (lw_threads w))"

definition jobs_ok :: "addr set \<Rightarrow> (pworld, unit) logic \<Rightarrow> bool" where
  "jobs_ok A w \<longleftrightarrow> (\<forall>b jo. lw_jobs w b = Some jo \<longrightarrow>
     runs_on (jo_thread jo) w \<and> (\<forall>j \<in> set (jo_jobQueue jo). harmless A b j) \<and> (b \<in> A \<longrightarrow> \<not> jo_markedForDelete jo))"

definition world_ok :: "addr set \<Rightarrow> (pworld, unit) logic \<Rightarrow> bool" where
  "world_ok A w \<longleftrightarrow> jobs_ok A w \<and> A \<subseteq> dom (lw_jobs w) \<and> dom (lw_jobs w) - {lw_mgr w} \<subseteq> dom (lw_gobjs w) \<and>
     (\<forall>s sc. lw_scenes w s = Some sc \<longrightarrow> runs_on (gs_thread sc) w)"

text \<open>What a step of the logic leaves as it is.\<close>

definition calm :: "(pworld, unit) logic \<Rightarrow> (pworld, unit) logic \<Rightarrow> bool" where
  "calm w w' \<longleftrightarrow> lw_mgr w' = lw_mgr w \<and> dom (lw_scenes w') = dom (lw_scenes w) \<and> dom (lw_threads w') = dom (lw_threads w) \<and>
     pw_users (lw_app w') = pw_users (lw_app w) \<and> pw_players (lw_app w') = pw_players (lw_app w)"

definition safe_step :: "addr set \<Rightarrow> (pworld, unit) logic \<Rightarrow> (pworld, unit) logic \<Rightarrow> bool" where
  "safe_step A w w' \<longleftrightarrow> world_ok A w' \<and> calm w w'"

lemma deref_eq_Inr: "deref m a = Inr x \<longleftrightarrow> m a = Some x"
  by (simp add: deref_def split: option.split)

lemma safe_trans: "safe_step A w w1 \<Longrightarrow> safe_step A w1 w2 \<Longrightarrow> safe_step A w w2"
  by (simp add: safe_step_def calm_def)

lemma safe_refl: "world_ok A w \<Longrightarrow> safe_step A w w"
  by (simp add: safe_step_def calm_def)

lemma runs_on_dom: "dom (lw_threads w') = dom (lw_threads w) \<Longrightarrow> runs_on t w' = runs_on t w"
  by (simp add: runs_on_def)

text \<open>One job object may be replaced by one that satisfies the same.\<close>

lemma set_job_safe:
  assumes "world_ok A w" "lw_jobs w b \<noteq> None" "runs_on (jo_thread jo) w" "\<forall>j \<in> set (jo_jobQueue jo). harmless A b j"
    "b \<in> A \<Longrightarrow> \<not> jo_markedForDelete jo"
  shows "safe_step A w (set_job b jo w)"
  using assms by (auto simp: safe_step_def calm_def world_ok_def jobs_ok_def runs_on_def)

lemma queue_object_safe:
  assumes "world_ok A w" "queue_object q b w = Inr w'"
  shows "safe_step A w w'"
proof -
  obtain th where th: "lw_threads w q = Some th" "w' = w\<lparr>lw_threads := (lw_threads w)(q \<mapsto> th\<lparr>jt_queue := jt_queue th @ [b]\<rparr>)\<rparr>"
    using assms(2) by (cases "lw_threads w q") (auto simp: queue_object_def)
  then have d: "dom (lw_threads w') = dom (lw_threads w)" by auto
  show ?thesis using assms(1) th(2) d runs_on_dom [OF d] by (simp add: safe_step_def calm_def world_ok_def jobs_ok_def)
qed

lemma queue_object_ok: "q \<in> dom (lw_threads w) \<Longrightarrow> \<exists>w'. queue_object q b w = Inr w'"
  by (auto simp: queue_object_def)

lemma post_safe:
  assumes "world_ok A w" "harmless A b j" "lw_jobs w b \<noteq> None"
  shows "\<exists>w'. post_to_object b j w = Inr w' \<and> safe_step A w w'"
proof -
  obtain jo where jo: "lw_jobs w b = Some jo" using assms(3) by auto
  then have ok: "runs_on (jo_thread jo) w" "\<forall>j \<in> set (jo_jobQueue jo). harmless A b j" "b \<in> A \<Longrightarrow> \<not> jo_markedForDelete jo"
    using assms(1) by (auto simp: world_ok_def jobs_ok_def)
  then obtain q where q: "jo_thread jo = Some q" "q \<in> dom (lw_threads w)" by (auto simp: runs_on_def)
  have s: "safe_step A w (set_job b (jo\<lparr>jo_jobQueue := jo_jobQueue jo @ [j], jo_processing := p\<rparr>) w)" for p
    by (rule set_job_safe) (use assms ok in auto)
  have id: "w\<lparr>lw_jobs := (lw_jobs w)(b \<mapsto> jo)\<rparr> = w" using jo by (simp add: fun_upd_idem)
  show ?thesis
  proof (cases "jo_markedForDelete jo \<or> jo_processing jo")
    case True
    then show ?thesis using jo s [of "jo_processing jo"] safe_refl [OF assms(1)] id
      by (auto simp: post_to_object_def PostJob_def Let_def set_job_def)
  next
    case False
    let ?w1 = "set_job b (jo\<lparr>jo_jobQueue := jo_jobQueue jo @ [j], jo_processing := True\<rparr>) w"
    obtain w' where w': "queue_object q b ?w1 = Inr w'" using queue_object_ok [of q ?w1 b] q(2) by auto
    have "world_ok A ?w1" using s [of True] by (simp add: safe_step_def)
    then have "safe_step A ?w1 w'" by (rule queue_object_safe [OF _ w'])
    then show ?thesis using False jo q w' safe_trans [OF s [of True]]
      by (auto simp: post_to_object_def PostJob_def Let_def set_job_def)
  qed
qed

lemma frame_safe:
  assumes "world_ok A w" "lw_jobs w' = lw_jobs w" "lw_threads w' = lw_threads w" "lw_mgr w' = lw_mgr w"
    "dom (lw_gobjs w) \<subseteq> dom (lw_gobjs w')" "dom (lw_scenes w') = dom (lw_scenes w)"
    "\<And>s sc. lw_scenes w' s = Some sc \<Longrightarrow> runs_on (gs_thread sc) w"
    "pw_users (lw_app w') = pw_users (lw_app w)" "pw_players (lw_app w') = pw_players (lw_app w)"
  shows "safe_step A w w'"
proof -
  have "dom (lw_jobs w) - {lw_mgr w} \<subseteq> dom (lw_gobjs w')" using assms(1,5) unfolding world_ok_def by (meson order_trans)
  then show ?thesis using assms by (simp add: safe_step_def calm_def world_ok_def jobs_ok_def runs_on_def)
qed

lemma scene_runs: "world_ok A w \<Longrightarrow> lw_scenes w s = Some sc \<Longrightarrow> runs_on (gs_thread sc) w"
  by (simp add: world_ok_def)

lemma app_safe: "world_ok A w \<Longrightarrow> keeps f \<Longrightarrow> safe_step A w (app f w)"
  by (rule frame_safe) (auto simp: app_def keepsD scene_runs)

lemma Scene_Enter_safe:
  assumes "world_ok A w" "lw_mgr w \<in> A" "Scene_Enter (player_hooks env) s x w = Inr w'"
  shows "safe_step A w w'"
proof -
  obtain sc where sc: "lw_scenes w s = Some sc" using assms(3) by (cases "lw_scenes w s") (auto simp: Scene_Enter_def)
  obtain g where g: "lw_gobjs w x = Some g" using assms(3) sc by (cases "lw_gobjs w x") (auto simp: Scene_Enter_def Let_def)
  let ?w1 = "w\<lparr>lw_scenes := (lw_scenes w)(s \<mapsto> sc\<lparr>gs_objects := gs_objects sc @ [x]\<rparr>), lw_gobjs := (lw_gobjs w)(x \<mapsto> g\<lparr>go_scene := Some s\<rparr>)\<rparr>"
  let ?w2 = "app (hk_OnEnter (player_hooks env) x (scene_objects ?w1 x)) ?w1"
  have s2: "safe_step A w ?w2"
    by (rule frame_safe [OF assms(1)]) (use sc scene_runs [OF assms(1)] in \<open>auto simp: app_def split: if_splits\<close>)
  then have "lw_jobs ?w2 (lw_mgr ?w2) \<noteq> None" and ok: "world_ok A ?w2" using assms(1,2) by (auto simp: safe_step_def world_ok_def)
  then obtain w2 where "post_to_object (lw_mgr ?w2) (JRegister (go_sn g) x) ?w2 = Inr w2" "safe_step A ?w2 w2"
    using post_safe [OF ok, of "lw_mgr ?w2" "JRegister (go_sn g) x"] by auto
  then show ?thesis using assms(3) sc g s2 safe_trans [OF s2] by (auto simp: Scene_Enter_def Register_def Let_def)
qed

lemma leave_scene_safe:
  assumes "world_ok A w" "leave_scene (player_hooks env) x w = Inr w'"
  shows "safe_step A w w'"
proof -
  obtain g where g: "lw_gobjs w x = Some g" using assms(2) by (cases "lw_gobjs w x") (auto simp: leave_scene_def)
  show ?thesis
  proof (cases "go_scene g")
    case None
    then show ?thesis using assms g safe_refl by (auto simp: leave_scene_def)
  next
    case (Some s)
    then obtain sc where sc: "lw_scenes w s = Some sc"
      using assms(2) g by (cases "lw_scenes w s") (auto simp: leave_scene_def Scene_Exit_def Let_def)
    show ?thesis
      by (rule frame_safe [OF assms(1)])
        (use assms(2) g sc Some scene_runs [OF assms(1)] in \<open>auto simp: leave_scene_def Scene_Exit_def Let_def app_def split: if_splits\<close>)
  qed
qed

lemma move_out_safe:
  assumes "world_ok A w" "run_job (player_hooks env) (JMoveOut x ns) w = Inr w'"
  shows "safe_step A w w'"
proof -
  obtain g where g: "lw_gobjs w x = Some g" using assms(2) by (cases "lw_gobjs w x") auto
  show ?thesis
  proof (cases "go_scene g = Some ns")
    case True
    then show ?thesis using assms g safe_refl by auto
  next
    case False
    then obtain w1 sc jo where l: "leave_scene (player_hooks env) x w = Inr w1" "lw_scenes w1 ns = Some sc" "lw_jobs w1 x = Some jo"
        and t: "(case SetJobThread (gs_thread sc) jo of Inl _ \<Rightarrow> Inl Terminate | Inr jo' \<Rightarrow> Inr (w1\<lparr>lw_jobs := (lw_jobs w1)(x \<mapsto> jo')\<rparr>)) = Inr w'"
      using assms(2) g by (auto simp: rbind_eq_Inr deref_eq_Inr)
    then obtain jo' where l4: "SetJobThread (gs_thread sc) jo = Inr jo'" "w' = set_job x jo' w1"
      by (cases "SetJobThread (gs_thread sc) jo") (auto simp: set_job_def)
    have s1: "safe_step A w w1" using leave_scene_safe [OF assms(1) l(1)] .
    then have ok: "world_ok A w1" by (simp add: safe_step_def)
    have j: "jo' = jo\<lparr>jo_thread := gs_thread sc\<rparr>" using l4(1) by (auto simp: SetJobThread_def split: if_splits)
    have "safe_step A w1 (set_job x jo' w1)"
      by (rule set_job_safe [OF ok]) (use ok l(3) scene_runs [OF ok l(2)] in \<open>auto simp: j world_ok_def jobs_ok_def\<close>)
    then show ?thesis using safe_trans [OF s1] l4(2) by simp
  qed
qed

lemma destroy_safe:
  assumes "world_ok A w" "lw_mgr w \<in> A" "x \<notin> A" "run_job (player_hooks env) (JDestroy x) w = Inr w'"
  shows "safe_step A w w'"
proof -
  obtain w1 g where l: "leave_scene (player_hooks env) x w = Inr w1" "lw_gobjs w1 x = Some g"
    using assms(4) by (auto simp: rbind_eq_Inr deref_def split: option.splits)
  have s1: "safe_step A w w1" using leave_scene_safe [OF assms(1) l(1)] .
  then have ok1: "world_ok A w1" by (simp add: safe_step_def)
  have e: "snd (snd (Event_Invoke (hk_handler (player_hooks env)) ids (ev, u))) = u" for ids ev u
  proof -
    have "snd (invoke_loop (\<lambda>_ st. st) H ids st) = st" for H and st :: "unit Event \<times> pworld"
      by (induction ids) (simp_all add: split_beta split: option.split)
    then show ?thesis by (simp add: Event_Invoke_def player_hooks_def)
  qed
  obtain ev where w2: "rbind (Unregister (go_sn g) (w1\<lparr>lw_gobjs := (lw_gobjs w1)(x \<mapsto> g\<lparr>go_OnBeforeDestroy := ev\<rparr>)\<rparr>)) (\<lambda>w3.
      rbind (deref (lw_jobs w3) x) (\<lambda>jo. Inr (w3\<lparr>lw_jobs := (lw_jobs w3)(x \<mapsto> MarkForDelete jo)\<rparr>))) = Inr w'"
    using assms(4) l e by (auto simp: split_beta Let_def)
  let ?w2 = "w1\<lparr>lw_gobjs := (lw_gobjs w1)(x \<mapsto> g\<lparr>go_OnBeforeDestroy := ev\<rparr>)\<rparr>"
  have s2: "safe_step A w1 ?w2" by (rule frame_safe [OF ok1]) (auto simp: scene_runs [OF ok1])
  then have ok2: "world_ok A ?w2" and "lw_jobs ?w2 (lw_mgr ?w2) \<noteq> None"
    using s1 assms(2) by (auto simp: safe_step_def world_ok_def calm_def)
  then obtain w3 where w3: "Unregister (go_sn g) ?w2 = Inr w3" "safe_step A ?w2 w3"
    using post_safe [OF ok2, of "lw_mgr ?w2" "JUnregister (go_sn g)"] by (auto simp: Unregister_def)
  then have ok3: "world_ok A w3" by (simp add: safe_step_def)
  obtain jo where jo: "lw_jobs w3 x = Some jo" "w' = set_job x (MarkForDelete jo) w3"
    using w2 w3 by (auto simp: rbind_eq_Inr deref_def set_job_def split: option.splits)
  have "safe_step A w3 w'" unfolding jo(2)
    by (rule set_job_safe [OF ok3]) (use ok3 jo(1) assms(3) in \<open>auto simp: MarkForDelete_def world_ok_def jobs_ok_def\<close>)
  then show ?thesis using safe_trans s1 s2 w3(2) by blast
qed

lemma run_job_safe:
  assumes "world_ok A w" "lw_mgr w \<in> A" "harmless A b j" "run_job (player_hooks env) j w = Inr w'"
  shows "safe_step A w w'"
proof (cases j)
  case (JUser this f)
  have "w' = w\<lparr>lw_app := fst (f (scene_objects w this) (lw_app w))\<rparr>" using assms(3,4) JUser by (simp add: split_beta)
  then show ?thesis using assms(1,3) JUser keepsD
    by (intro frame_safe [OF assms(1)]) (auto simp: scene_runs [OF assms(1)] keeps_def)
next
  case (JMoveOut x ns)
  then show ?thesis using move_out_safe assms by blast
next
  case (JDestroy x)
  then show ?thesis using destroy_safe [OF assms(1,2), of x env w'] assms(3,4) by auto
next
  case (JEnter x s)
  then show ?thesis using Scene_Enter_safe assms by simp
next
  case (JExit x)
  then show ?thesis using leave_scene_safe assms by simp
next
  case (JRegister sn x)
  then show ?thesis using assms by (intro frame_safe [OF assms(1)]) (auto simp: scene_runs [OF assms(1)])
next
  case (JUnregister sn)
  then show ?thesis using assms by (intro frame_safe [OF assms(1)]) (auto simp: scene_runs [OF assms(1)])
qed (use assms in simp)

lemma requeue_safe:
  assumes "world_ok A w" "requeue_object b jo w = Inr w'"
  shows "safe_step A w w'"
  using assms queue_object_safe by (cases "jo_thread jo") (auto simp: requeue_object_def)

lemma job_facts:
  assumes "world_ok A w" "lw_jobs w b = Some jo"
  shows "runs_on (jo_thread jo) w" "j \<in> set (jo_jobQueue jo) \<Longrightarrow> harmless A b j" "b \<in> A \<Longrightarrow> \<not> jo_markedForDelete jo"
  using assms by (auto simp: world_ok_def jobs_ok_def)

lemma flush_end_safe:
  assumes "world_ok A w" "lw_jobs w b = Some jo" "flush_end b jo w = Inr w'"
  shows "safe_step A w w'"
proof -
  note f = job_facts [OF assms(1,2)]
  have s: "safe_step A w (set_job b (jo\<lparr>jo_processing := p\<rparr>) w)" for p
    by (rule set_job_safe [OF assms(1)]) (use assms(2) f in auto)
  show ?thesis
  proof (cases "jo_jobQueue jo = []")
    case True
    then show ?thesis using assms(3) s [of False] by (simp add: flush_end_def Let_def)
  next
    case False
    have ok: "world_ok A (set_job b (jo\<lparr>jo_processing := True\<rparr>) w)" using s [of True] by (simp add: safe_step_def)
    show ?thesis using False assms(3) safe_trans [OF s [of True] requeue_safe [OF ok]] by (auto simp: flush_end_def Let_def)
  qed
qed

lemma flush_loop_safe:
  "world_ok A w \<Longrightarrow> lw_mgr w \<in> A \<Longrightarrow> flush_loop (player_hooks env) n b old w = Some (Inr w') \<Longrightarrow> safe_step A w w'"
proof (induction n arbitrary: w)
  case (Suc n)
  obtain jo where jo: "lw_jobs w b = Some jo" using Suc.prems(3) by (cases "lw_jobs w b") auto
  show ?case
  proof (cases "jo_jobQueue jo")
    case Nil
    then show ?thesis using flush_end_safe [OF Suc.prems(1) jo] Suc.prems(3) jo by simp
  next
    case (Cons j js)
    note f = job_facts [OF Suc.prems(1) jo]
    let ?w = "set_job b (jo\<lparr>jo_jobQueue := js\<rparr>) w"
    have s: "safe_step A w ?w" by (rule set_job_safe [OF Suc.prems(1)]) (use jo f Cons in auto)
    obtain w1 where w1: "run_job (player_hooks env) j ?w = Inr w1"
      using Suc.prems(3) jo Cons by (cases "run_job (player_hooks env) j ?w") auto
    have "safe_step A ?w w1"
      by (rule run_job_safe [OF _ _ _ w1, where b = b]) (use s Suc.prems(2) f(2) [of j] Cons in \<open>auto simp: safe_step_def\<close>)
    then have s1: "safe_step A w w1" using safe_trans [OF s] by blast
    then have ok1: "world_ok A w1" "lw_mgr w1 \<in> A" using Suc.prems(2) by (simp_all add: safe_step_def calm_def)
    obtain jo1 where jo1: "lw_jobs w1 b = Some jo1" using Suc.prems(3) jo Cons w1 by (cases "lw_jobs w1 b") auto
    have r: "(if jo_markedForDelete jo1 then Some (Inr w1) else if jo_thread jo1 \<noteq> old then Some (requeue_object b jo1 w1)
        else flush_loop (player_hooks env) n b old w1) = Some (Inr w')" using Suc.prems(3) jo Cons w1 jo1 by simp
    have "safe_step A w1 w'"
      using r Suc.IH [OF ok1] requeue_safe [OF ok1(1)] safe_refl [OF ok1(1)] by (auto split: if_splits)
    then show ?thesis using safe_trans [OF s1] by blast
  qed
qed simp

lemma delete_safe:
  assumes "world_ok A w" "lw_jobs w b = Some jo" "jo_markedForDelete jo"
  shows "safe_step A w (delete_object b w)"
proof -
  have "b \<notin> A" using job_facts(3) assms by blast
  then show ?thesis using assms(1)
    by (auto simp: safe_step_def calm_def world_ok_def jobs_ok_def delete_object_def runs_on_def split: if_splits)
qed

lemma Flush_safe:
  assumes "world_ok A w" "lw_mgr w \<in> A" "Flush (player_hooks env) n b w = Some (Inr w')"
  shows "safe_step A w w'"
proof -
  obtain jo where jo: "lw_jobs w b = Some jo" using assms(3) by (cases "lw_jobs w b") (auto simp: Flush_def)
  then show ?thesis using assms flush_loop_safe safe_refl by (auto simp: Flush_def split: if_splits)
qed

lemma ProcessJobObjects_safe:
  "world_ok A w \<Longrightarrow> lw_mgr w \<in> A \<Longrightarrow> ProcessJobObjects (player_hooks env) n t w = Some (Inr w') \<Longrightarrow> safe_step A w w'"
proof (induction n arbitrary: w)
  case (Suc n)
  obtain th where th: "lw_threads w t = Some th" using Suc.prems(3) by (cases "lw_threads w t") auto
  show ?case
  proof (cases "jt_queue th")
    case Nil
    then show ?thesis using Suc.prems th safe_refl by auto
  next
    case (Cons b rest)
    let ?w = "w\<lparr>lw_threads := (lw_threads w)(t \<mapsto> th\<lparr>jt_queue := rest\<rparr>)\<rparr>"
    have d: "dom (lw_threads ?w) = dom (lw_threads w)" using th by auto
    have s: "safe_step A w ?w" using Suc.prems(1) d runs_on_dom [OF d]
      by (simp add: safe_step_def calm_def world_ok_def jobs_ok_def)
    then have ok: "world_ok A ?w" "lw_mgr ?w \<in> A" using Suc.prems(2) by (simp_all add: safe_step_def)
    obtain w1 where w1: "Flush (player_hooks env) n b ?w = Some (Inr w1)"
      using Suc.prems(3) th Cons by (auto simp: xbind_def split: option.splits sum.splits)
    have s1: "safe_step A w w1" using safe_trans [OF s Flush_safe [OF ok w1]] .
    then have ok1: "world_ok A w1" "lw_mgr w1 \<in> A" using Suc.prems(2) by (simp_all add: safe_step_def calm_def)
    obtain jo where jo: "lw_jobs w1 b = Some jo" using Suc.prems(3) th Cons w1 by (cases "lw_jobs w1 b") auto
    show ?thesis
    proof (cases "jo_markedForDelete jo")
      case True
      note s2 = delete_safe [OF ok1(1) jo True]
      then have ok2: "world_ok A (delete_object b w1)" "lw_mgr (delete_object b w1) \<in> A"
        using ok1(2) by (simp_all add: safe_step_def delete_object_def)
      show ?thesis using Suc.IH [OF ok2] Suc.prems(3) th Cons w1 jo True safe_trans [OF safe_trans [OF s1 s2]] by auto
    next
      case False
      then show ?thesis using Suc.IH [OF ok1] Suc.prems(3) th Cons w1 jo safe_trans [OF s1] by auto
    qed
  qed
qed simp

lemma update_objects_safe:
  "world_ok A w \<Longrightarrow> (\<And>obj objs. keeps (f obj objs)) \<Longrightarrow> update_objects f xs w = Inr w' \<Longrightarrow> safe_step A w w'"
proof (induction xs arbitrary: w)
  case (Cons x xs)
  let ?w = "app (f x (scene_objects w x)) w"
  have s: "safe_step A w ?w" by (rule app_safe [OF Cons.prems(1) Cons.prems(2)])
  then have "world_ok A ?w" by (simp add: safe_step_def)
  moreover have "update_objects f xs ?w = Inr w'" using Cons.prems(3) by (auto simp: rbind_eq_Inr)
  ultimately show ?case using Cons.IH [OF _ Cons.prems(2)] safe_trans [OF s] by blast
qed (simp add: safe_refl)

lemma scene_update_safe:
  assumes "world_ok A w" "rbind (deref (lw_scenes (app h w)) s) (\<lambda>sc. update_objects f (gs_objects sc) (app h w)) = Inr w'"
    "keeps h" "\<And>obj objs. keeps (f obj objs)"
  shows "safe_step A w w'"
proof -
  have s: "safe_step A w (app h w)" by (rule app_safe [OF assms(1,3)])
  then have "world_ok A (app h w)" by (simp add: safe_step_def)
  moreover obtain sc :: GameScene where "update_objects f (gs_objects sc) (app h w) = Inr w'" using assms(2) unfolding rbind_eq_Inr by blast
  ultimately have "safe_step A (app h w) w'" using update_objects_safe [where f = f and w' = w'] assms(4) by blast
  then show ?thesis by (rule safe_trans [OF s])
qed

lemma Scene_updates_safe:
  "world_ok A w \<Longrightarrow> Scene_FixedUpdate (player_hooks env) s w = Inr w' \<Longrightarrow> safe_step A w w'"
  "world_ok A w \<Longrightarrow> Scene_Update (player_hooks env) s w = Inr w' \<Longrightarrow> safe_step A w w'"
  unfolding Scene_FixedUpdate_def Scene_Update_def Let_def by (erule (1) scene_update_safe; simp)+

lemma scenes_do_safe:
  "world_ok A w \<Longrightarrow> (\<And>s w w'. world_ok A w \<Longrightarrow> f s w = Inr w' \<Longrightarrow> safe_step A w w') \<Longrightarrow> scenes_do f ss w = Inr w' \<Longrightarrow> safe_step A w w'"
proof (induction ss arbitrary: w)
  case (Cons s ss)
  then obtain w1 where w1: "f s w = Inr w1" "scenes_do f ss w1 = Inr w'" by (auto simp: rbind_eq_Inr)
  have s1: "safe_step A w w1" by (rule Cons.prems(2) [OF Cons.prems(1) w1(1)])
  then have "world_ok A w1" by (simp add: safe_step_def)
  then have "safe_step A w1 w'" by (rule Cons.IH [OF _ _ w1(2)]) (rule Cons.prems(2))
  then show ?case by (rule safe_trans [OF s1])
qed (simp add: safe_refl)

lemma fixed_loop_safe:
  "world_ok A w \<Longrightarrow> fixed_loop fl (player_hooks env) n ss gt w = Some (Inr (gt', w')) \<Longrightarrow> safe_step A w w'"
proof (induction n arbitrary: w gt)
  case (Suc n)
  show ?case
  proof (cases "fl_ge fl (gt_fixedTimeAccum gt) (gt_fixedTimeStep gt)")
    case True
    then obtain w1 where w1: "scenes_do (Scene_FixedUpdate (player_hooks env)) ss w = Inr w1"
      using Suc.prems(2) by (cases "scenes_do (Scene_FixedUpdate (player_hooks env)) ss w") auto
    have s1: "safe_step A w w1" by (rule scenes_do_safe [OF Suc.prems(1) Scene_updates_safe(1) w1])
    then have "world_ok A w1" by (simp add: safe_step_def)
    then show ?thesis using Suc.IH Suc.prems(2) True w1 safe_trans [OF s1] by auto
  qed (use Suc.prems safe_refl in auto)
qed simp

lemma xbind_eq_Inr: "xbind m k = Some (Inr y) \<longleftrightarrow> (\<exists>x. m = Some (Inr x) \<and> k x = Some (Inr y))"
  by (auto simp: xbind_def split: option.splits sum.splits)

lemma game_frame_safe:
  assumes "world_ok A w" "lw_mgr w \<in> A" "game_frame fl (player_hooks env) n t dt (gt, w) = Some (Inr (gt', w'))"
  shows "safe_step A w w'"
proof -
  obtain w1 ss gt1 gt2 w2 where f: "ProcessJobObjects (player_hooks env) n t w = Some (Inr w1)"
      "fixed_loop fl (player_hooks env) n ss gt1 w1 = Some (Inr (gt2, w2))"
      "scenes_do (Scene_Update (player_hooks env)) ss w2 = Inr w'"
    using assms(3) by (auto simp: game_frame_def Let_def xbind_eq_Inr split: prod.splits)
  have s1: "safe_step A w w1" by (rule ProcessJobObjects_safe [OF assms(1,2) f(1)])
  then have "world_ok A w1" by (simp add: safe_step_def)
  then have s2: "safe_step A w1 w2" by (rule fixed_loop_safe [OF _ f(2)])
  then have "world_ok A w2" by (simp add: safe_step_def)
  then have "safe_step A w2 w'" by (rule scenes_do_safe [OF _ Scene_updates_safe(2) f(3)])
  then show ?thesis using safe_trans s1 s2 by blast
qed

section \<open>The server as a state machine\<close>

text \<open>A state is the set of connected users with the server and the game logic. A new connection brings a user at an unused
  address; a request of a connected user is handled; a connection ends; a game thread runs a frame or a job thread a round. The
  object a request may create gets an address without a job object.\<close>

definition new_user :: "addr \<Rightarrow> pworld \<Rightarrow> pworld" where
  "new_user user w = w\<lparr>pw_users := (pw_users w)(user \<mapsto> User_ctor)\<rparr>"

abbreviation users_of :: "game \<Rightarrow> addr \<rightharpoonup> User" where
  "users_of g \<equiv> pw_users (lw_app (snd g))"

inductive server_step :: "game_env \<Rightarrow> addr set \<times> game \<Rightarrow> addr set \<times> game \<Rightarrow> bool" for env where
  connect: "user \<notin> dom (users_of g) \<Longrightarrow> server_step env (C, g) (insert user C, OnSessionConnect (on_app (new_user user) g))"
| request: "user \<in> C \<Longrightarrow> lw_jobs (snd g) x = None \<Longrightarrow> handle_request env x cptr req user g = Inr g' \<Longrightarrow> server_step env (C, g) (C, g')"
| disconnect: "user \<in> C \<Longrightarrow> OnUserDisconnect user g = Inr g' \<Longrightarrow> server_step env (C, g) (C - {user}, g')"
| frame: "game_frame (fl :: u32 float_ops) (player_hooks env) n t dt (gt, snd g) = Some (Inr (gt', lw')) \<Longrightarrow>
    server_step env (C, g) (C, (fst g, lw'))"
| round: "ProcessJobObjects (player_hooks env) n t (snd g) = Some (Inr lw') \<Longrightarrow> server_step env (C, g) (C, (fst g, lw'))"

inductive_cases server_stepE: "server_step env s s'"

section \<open>The invariant\<close>

definition players_of :: "addr set \<Rightarrow> game \<Rightarrow> addr set" where
  "players_of C g = {a. \<exists>u \<in> C. us_player (the_user g u) = Some a}"

abbreviation kept :: "addr set \<Rightarrow> game \<Rightarrow> addr set" where
  "kept C g \<equiv> insert (lw_mgr (snd g)) (players_of C g)"

text \<open>Each player belongs to the one user that has it, with the number the user logged in with.\<close>

definition players_exact :: "addr set \<Rightarrow> game \<Rightarrow> bool" where
  "players_exact C g \<longleftrightarrow> (\<forall>u \<in> C. \<forall>a. us_player (the_user g u) = Some a \<longrightarrow> us_player_id (the_user g u) \<noteq> 0 \<and>
     (\<exists>p. pw_players (lw_app (snd g)) a = Some p \<and> pl_owner p = Some u \<and> pl_player_id p = us_player_id (the_user g u)))"

definition ids_distinct :: "game \<Rightarrow> bool" where
  "ids_distinct g \<longleftrightarrow> (\<forall>u v. us_player_id (the_user g u) = us_player_id (the_user g v) \<longrightarrow> us_player_id (the_user g u) \<noteq> 0 \<longrightarrow> u = v)"

definition ids_inv :: "nat \<Rightarrow> game \<Rightarrow> bool" where
  "ids_inv n g \<longleftrightarrow> ids_distinct g \<and> 1 \<le> unat (gv_nextPlayerId (fst g)) \<and> unat (gv_nextPlayerId (fst g)) \<le> n + 1 \<and>
     (\<forall>u. us_player_id (the_user g u) < gv_nextPlayerId (fst g))"

definition sessions_inv :: "addr set \<Rightarrow> game \<Rightarrow> bool" where
  "sessions_inv C g \<longleftrightarrow> finite C \<and> C \<subseteq> dom (users_of g) \<and> gv_currentSessions (fst g) = of_nat (card C) \<and>
     gv_totalConnected (fst g) - gv_totalDisconnected (fst g) = of_nat (card C)"

definition scene_inv :: "game \<Rightarrow> bool" where
  "scene_inv g \<longleftrightarrow> (\<exists>s. gv_scene (fst g) = Some s \<and> s \<in> dom (lw_scenes (snd g))) \<and> (\<forall>u. us_last_scene_id (the_user g u) = 0)"

definition server_inv :: "nat \<Rightarrow> addr set \<Rightarrow> game \<Rightarrow> bool" where
  "server_inv n C g \<longleftrightarrow> world_ok (kept C g) (snd g) \<and> lw_mgr (snd g) \<notin> players_of C g \<and> players_exact C g \<and> ids_inv n g \<and>
     sessions_inv C g \<and> scene_inv g"

lemmas inv_defs = players_of_def players_exact_def ids_distinct_def ids_inv_def sessions_inv_def scene_inv_def

text \<open>A safe step of the logic keeps everything.\<close>

lemma logic_step_inv:
  assumes "server_inv n C g" "safe_step (kept C g) (snd g) lw'"
  shows "server_inv n C (fst g, lw')"
proof -
  have c: "calm (snd g) lw'" "world_ok (kept C g) lw'" using assms(2) by (simp_all add: safe_step_def)
  then have u: "the_user (fst g, lw') = the_user g" by (simp add: calm_def the_user_def user_at_def fun_eq_iff)
  then have p: "players_of C (fst g, lw') = players_of C g" by (simp add: players_of_def)
  show ?thesis using assms(1) c u p unfolding server_inv_def inv_defs calm_def by simp
qed

lemma inv_mono: "server_inv n C g \<Longrightarrow> server_inv (Suc n) C g"
  unfolding server_inv_def ids_inv_def by simp

lemma on_app_simps [simp]:
  "fst (on_app f g) = fst g" "lw_jobs (snd (on_app f g)) = lw_jobs (snd g)" "lw_mgr (snd (on_app f g)) = lw_mgr (snd g)"
  "lw_gobjs (snd (on_app f g)) = lw_gobjs (snd g)" "lw_scenes (snd (on_app f g)) = lw_scenes (snd g)"
  "lw_threads (snd (on_app f g)) = lw_threads (snd g)" "lw_app (snd (on_app f g)) = f (lw_app (snd g))"
  by (simp_all add: on_app_def app_def)

text \<open>Sending changes nothing the invariant is about.\<close>

lemma send_inv:
  assumes "server_inv n C g"
  shows "server_inv n C (on_app (send_to r packet) g)"
proof -
  have ok: "world_ok (kept C g) (snd g)" using assms by (simp add: server_inv_def)
  have "safe_step (kept C g) (snd g) (snd (on_app (send_to r packet) g))"
    by (rule frame_safe [OF ok]) (auto simp: scene_runs [OF ok])
  from logic_step_inv [OF assms this] show ?thesis by (simp add: on_app_def)
qed

lemma world_ok_same:
  assumes "lw_jobs w' = lw_jobs w" "lw_threads w' = lw_threads w" "lw_mgr w' = lw_mgr w" "lw_gobjs w' = lw_gobjs w" "lw_scenes w' = lw_scenes w"
  shows "world_ok A w' = world_ok A w"
  using assms by (simp add: world_ok_def jobs_ok_def runs_on_def)

lemma world_ok_app [simp]: "world_ok A (snd (on_app f g)) = world_ok A (snd g)"
  by (rule world_ok_same) simp_all

lemma the_user_upd [simp]: "the_user (on_app (upd_user user f) g) = (the_user g)(user := f (the_user g user))"
  by (simp add: the_user_def upd_user_def user_at_def fun_eq_iff)

lemma the_user_fst [simp]: "the_user (srv, snd g) = the_user g"
  by (simp add: the_user_def fun_eq_iff)

lemma upd_user_views [simp]:
  "pw_players (upd_user user f w) = pw_players w" "dom (pw_users (upd_user user f w)) = insert user (dom (pw_users w))"
  by (auto simp: upd_user_def)

text \<open>A user may change as long as its player stays.\<close>

lemma user_change_inv:
  assumes "server_inv n C g" "user \<in> C" "\<And>u. us_player (f u) = us_player u" "\<And>u. us_player_id (f u) = us_player_id u"
    "us_last_scene_id (f (the_user g user)) = 0"
  shows "server_inv n C (on_app (upd_user user f) g)"
proof -
  let ?g = "on_app (upd_user user f) g"
  have u: "us_player (the_user ?g u) = us_player (the_user g u)" "us_player_id (the_user ?g u) = us_player_id (the_user g u)" for u
    using assms(3,4) by simp_all
  have p: "players_of C ?g = players_of C g" by (simp only: players_of_def u)
  have "players_exact C ?g = players_exact C g" by (simp only: players_exact_def u on_app_simps upd_user_views)
  moreover have "ids_inv n ?g = ids_inv n g" by (simp only: ids_inv_def ids_distinct_def u on_app_simps)
  moreover have "sessions_inv C g \<Longrightarrow> sessions_inv C ?g" using assms(2) by (simp add: sessions_inv_def insert_absorb subset_insertI2)
  moreover have "scene_inv g \<Longrightarrow> scene_inv ?g" using assms(5) by (simp add: scene_inv_def)
  ultimately show ?thesis using assms(1) p by (simp add: server_inv_def)
qed

lemma HandleLoginRequest_inv:
  assumes "server_inv n C g" "user \<in> C" "n + 2 < 2 ^ 32"
  shows "server_inv (Suc n) C (HandleLoginRequest user g)"
proof (cases "us_player_id (the_user g user) = 0")
  case False
  then show ?thesis using send_inv [OF inv_mono [OF assms(1)]] by (simp add: HandleLoginRequest_def User_GetPlayerId_def SendError_def)
next
  case True
  let ?i = "gv_nextPlayerId (fst g)"
  let ?srv = "(fst g)\<lparr>gv_nextPlayerId := ?i + 1\<rparr>"
  let ?g1 = "on_app (upd_user user (\<lambda>u. u\<lparr>us_player_id := ?i, us_last_scene_id := 0, us_spawn := (0, 0, 0)\<rparr>)) (?srv, snd g)"
  have i: "unat ?i + 1 < 2 ^ 32" "0 < unat ?i" "?i \<noteq> 0" using assms(1,3) by (auto simp: server_inv_def ids_inv_def)
  then have nx: "unat (?i + 1) = unat ?i + 1" by (subst unat_add_lem [THEN iffD1]) simp_all
  have small: "us_player_id (the_user g u) < ?i" for u using assms(1) by (simp add: server_inv_def ids_inv_def)
  have less: "w < ?i + 1 \<longleftrightarrow> w \<le> ?i" for w using nx by (auto simp: word_less_nat_alt word_le_nat_alt)
  have none: "us_player (the_user g user) = None"
    using assms(1,2) True by (cases "us_player (the_user g user)") (auto simp: server_inv_def players_exact_def)
  have p: "players_of C ?g1 = players_of C g" by (auto simp: players_of_def)
  have "ids_inv (Suc n) ?g1"
    using assms(1) i nx small less order.strict_implies_order [OF small] small [THEN less_imp_neq]
    unfolding server_inv_def ids_inv_def ids_distinct_def by (auto simp: less) (metis less_irrefl small)+
  then have "server_inv (Suc n) C ?g1"
    using assms(1,2) p none unfolding server_inv_def players_exact_def sessions_inv_def scene_inv_def by (auto simp: insert_absorb)
  from send_inv [OF this] show ?thesis using True
    by (simp add: HandleLoginRequest_def User_GetPlayerId_def GeneratePlayerId_def GetDefaultSceneId_def Let_def
        User_SetSpawnPos_def User_SetLastSceneId_def User_SetPlayerId_def)
qed

lemma MoveToScene_safe:
  assumes "world_ok A w" "x \<in> A"
  shows "\<exists>w'. MoveToScene x (Some s) w = Inr w' \<and> safe_step A w w'"
proof -
  have x: "lw_jobs w x \<noteq> None" using assms by (auto simp: world_ok_def)
  obtain w1 where w1: "post_to_object x (JMoveOut x s) w = Inr w1" "safe_step A w w1"
    using post_safe [OF assms(1) _ x, of "JMoveOut x s"] by auto
  then have ok1: "world_ok A w1" by (simp add: safe_step_def)
  then have "lw_jobs w1 x \<noteq> None" using assms(2) by (auto simp: world_ok_def)
  then obtain w2 where "post_to_object x (JEnter x s) w1 = Inr w2" "safe_step A w1 w2"
    using post_safe [OF ok1, of x "JEnter x s"] by auto
  then show ?thesis using w1 safe_trans by (auto simp: MoveToScene_def)
qed

lemma player_kept: "user \<in> C \<Longrightarrow> us_player (the_user g user) = Some a \<Longrightarrow> a \<in> players_of C g"
  by (auto simp: players_of_def)

lemma HandleSceneChangeRequest_inv:
  assumes "server_inv n C g" "user \<in> C"
  shows "\<exists>g'. HandleSceneChangeRequest scene_id user g = Inr g' \<and> server_inv n C g'"
proof (cases "us_player (the_user g user)")
  case None
  then show ?thesis using send_inv [OF assms(1)] by (simp add: HandleSceneChangeRequest_def User_GetPlayer_def SendError_def)
next
  case (Some a)
  show ?thesis
  proof (cases "scene_id = 0")
    case False
    then show ?thesis using Some send_inv [OF assms(1)]
      by (simp add: HandleSceneChangeRequest_def User_GetPlayer_def SendError_def GetSceneById_def)
  next
    case True
    obtain s where s: "gv_scene (fst g) = Some s" using assms(1) by (auto simp: server_inv_def scene_inv_def)
    let ?g1 = "on_app (send_to (Some user) (GC_SCENE_CHANGE_RES 0 (0, 0, 0)))
      (on_app (upd_user user (\<lambda>u. User_SetSpawnPos 0 0 0 (User_SetLastSceneId 0 u))) g)"
    have inv: "server_inv n C ?g1"
      by (rule send_inv, rule user_change_inv [OF assms]) (simp_all add: User_SetSpawnPos_def User_SetLastSceneId_def)
    have "the_user ?g1 user = User_SetSpawnPos 0 0 0 (User_SetLastSceneId 0 (the_user g user))"
      by (simp add: the_user_def user_at_def upd_user_def)
    then have "a \<in> kept C ?g1" using player_kept [OF assms(2), of ?g1 a] Some by (simp add: User_SetSpawnPos_def User_SetLastSceneId_def)
    then obtain lw where "MoveToScene a (Some s) (snd ?g1) = Inr lw" "safe_step (kept C ?g1) (snd ?g1) lw"
      using MoveToScene_safe [of "kept C ?g1" "snd ?g1" a s] inv by (auto simp: server_inv_def)
    then show ?thesis using logic_step_inv [OF inv] Some s True
      by (simp add: HandleSceneChangeRequest_def User_GetPlayer_def GetSceneById_def Let_def)
  qed
qed

lemma HandleMoveRequest_inv:
  assumes "server_inv n C g" "user \<in> C"
  shows "\<exists>g'. HandleMoveRequest env pos user g = Inr g' \<and> server_inv n C g'"
proof (cases "us_player (the_user g user)")
  case None
  then show ?thesis using send_inv [OF assms(1)] by (simp add: HandleMoveRequest_def User_GetPlayer_def SendError_def)
next
  case (Some a)
  let ?j = "JUser a (\<lambda>objs w. (HandleSetDestPos env a pos objs w, []))"
  have ok: "world_ok (kept C g) (snd g)" using assms(1) by (simp add: server_inv_def)
  moreover have "lw_jobs (snd g) a \<noteq> None" using ok player_kept [OF assms(2) Some] by (auto simp: world_ok_def)
  ultimately obtain lw where "post_to_object a ?j (snd g) = Inr lw" "safe_step (kept C g) (snd g) lw"
    using post_safe [of "kept C g" "snd g" a ?j] by auto
  then show ?thesis using logic_step_inv [OF assms(1)] Some
    by (simp add: HandleMoveRequest_def User_GetPlayer_def PostSetDestPosJob_def)
qed

lemma world_ok_fewer: "world_ok A w \<Longrightarrow> B \<subseteq> A \<Longrightarrow> world_ok B w"
proof -
  assume a: "world_ok A w" "B \<subseteq> A"
  have "harmless A b j \<Longrightarrow> harmless B b j" for b j using a(2) by (cases j) auto
  then show ?thesis using a unfolding world_ok_def jobs_ok_def by (meson order_trans subsetD)
qed

lemma clear_player_inv:
  assumes "server_inv n C g" "user \<notin> C"
  shows "server_inv n C (on_app (upd_user user User_ClearPlayer) g)"
proof -
  let ?g = "on_app (upd_user user User_ClearPlayer) g"
  have u: "us_player_id (the_user ?g u) = us_player_id (the_user g u)" "us_last_scene_id (the_user ?g u) = us_last_scene_id (the_user g u)" for u
    by (simp_all add: User_ClearPlayer_def)
  have v: "us_player (the_user ?g u) = us_player (the_user g u)" if "u \<in> C" for u using that assms(2) by auto
  have p: "players_of C ?g = players_of C g" using v by (auto simp del: the_user_upd simp: players_of_def)
  have "players_exact C ?g = players_exact C g"
    using v by (simp del: the_user_upd add: players_exact_def u cong: ball_cong)
  moreover have "ids_inv n ?g = ids_inv n g" by (simp only: ids_inv_def ids_distinct_def u on_app_simps)
  moreover have "sessions_inv C g \<Longrightarrow> sessions_inv C ?g" by (auto simp: sessions_inv_def)
  moreover have "scene_inv ?g = scene_inv g" by (simp only: scene_inv_def u on_app_simps)
  ultimately show ?thesis using assms(1) p by (simp add: server_inv_def)
qed

lemma owner_unique:
  assumes "server_inv n C g" "user \<in> C" "us_player (the_user g user) = Some a" "u \<in> C" "us_player (the_user g u) = Some a"
  shows "u = user"
proof -
  have "players_exact C g" using assms(1) by (simp add: server_inv_def)
  then obtain p q where "pw_players (lw_app (snd g)) a = Some p" "pl_owner p = Some user" "pw_players (lw_app (snd g)) a = Some q" "pl_owner q = Some u"
    unfolding players_exact_def using assms(2-5) by metis
  then show ?thesis by simp
qed

text \<open>The job that destroys the player of a user is harmless for everyone else's.\<close>

lemma OnUserDisconnect_inv:
  assumes "server_inv n C g" "user \<in> C"
  shows "\<exists>g'. OnUserDisconnect user g = Inr g' \<and> server_inv n (C - {user}) g'"
proof -
  let ?srv = "(fst g)\<lparr>gv_currentSessions := gv_currentSessions (fst g) - 1, gv_totalDisconnected := gv_totalDisconnected (fst g) + 1\<rparr>"
  let ?g1 = "(?srv, snd g)" and ?C = "C - {user}"
  have fin: "finite C" using assms(1) by (simp add: server_inv_def sessions_inv_def)
  have c: "(of_nat (card ?C) :: u32) = of_nat (card C) - 1"
    using fin assms(2) card_Suc_Diff1 [OF fin assms(2)] by (metis add_diff_cancel_left' of_nat_Suc)
  have sub: "players_of ?C g \<subseteq> players_of C g" by (auto simp: players_of_def)
  have ok: "world_ok (kept ?C g) (snd g)" using assms(1) world_ok_fewer [of "kept C g" "snd g" "kept ?C g"] sub by (auto simp: server_inv_def)
  have sess: "sessions_inv ?C ?g1" using assms(1) c by (auto simp: server_inv_def sessions_inv_def algebra_simps)
  have inv1: "server_inv n ?C ?g1" using assms(1) ok sub sess
    unfolding server_inv_def players_of_def players_exact_def ids_inv_def ids_distinct_def scene_inv_def by auto
  show ?thesis
  proof (cases "us_player (the_user g user)")
    case None
    then show ?thesis using inv1 by (simp add: OnUserDisconnect_def User_GetPlayer_def Let_def)
  next
    case (Some a)
    have "a \<noteq> lw_mgr (snd g)" using assms(1) player_kept [OF assms(2) Some] by (auto simp: server_inv_def)
    moreover have "a \<notin> players_of ?C g" using owner_unique [OF assms(1,2) Some] by (auto simp: players_of_def)
    ultimately have "harmless (kept ?C g) a (JDestroy a)" by simp
    moreover have "lw_jobs (snd g) a \<noteq> None" using assms player_kept [OF assms(2) Some] by (auto simp: server_inv_def world_ok_def)
    ultimately obtain lw where lw: "Object_Destroy a (snd g) = Inr lw" "safe_step (kept ?C g) (snd g) lw"
      using post_safe [OF ok, of a "JDestroy a"] by (auto simp: Object_Destroy_def)
    have "safe_step (kept ?C ?g1) (snd ?g1) lw" using lw(2) by (simp add: players_of_def)
    from logic_step_inv [OF inv1 this] have inv2: "server_inv n ?C (?srv, lw)" by simp
    have "server_inv n ?C (on_app (upd_user user User_ClearPlayer) (?srv, lw))" by (rule clear_player_inv [OF inv2]) simp
    then show ?thesis using Some lw(1) by (simp add: OnUserDisconnect_def User_GetPlayer_def Let_def)
  qed
qed

text \<open>An object at an address without a job object may be added to those that must stay.\<close>

lemma created_ok:
  assumes "world_ok A w" "lw_jobs w x = None" "runs_on (Some q) w"
  shows "world_ok (insert x A) (w\<lparr>lw_nextSN := k, lw_jobs := (lw_jobs w)(x \<mapsto> JobObject_default\<lparr>jo_thread := Some q\<rparr>),
    lw_gobjs := (lw_gobjs w)(x \<mapsto> go)\<rparr>)"
proof -
  have "harmless A b j \<Longrightarrow> b \<noteq> x \<Longrightarrow> harmless (insert x A) b j" for b j by (cases j) auto
  then show ?thesis using assms unfolding world_ok_def jobs_ok_def runs_on_def
    by (auto simp: JobObject_default_def)
qed

lemma Create_Player_safe:
  assumes "world_ok A w" "lw_jobs w x = None" "lw_scenes w s \<noteq> None"
  obtains lw' p where "Create_Player env x cptr s user pid w = Inr lw'" "world_ok (insert x A) lw'"
    "lw_mgr lw' = lw_mgr w" "dom (lw_scenes lw') = dom (lw_scenes w)"
    "pw_users (lw_app lw') = pw_users (lw_app w)" "pw_players (lw_app lw') = (pw_players (lw_app w))(x \<mapsto> p)"
    "pl_owner p = Some user" "pl_player_id p = pid"
proof -
  obtain sc where sc: "lw_scenes w s = Some sc" using assms(3) by auto
  obtain q where q: "gs_thread sc = Some q" "runs_on (Some q) w" using scene_runs [OF assms(1) sc] by (auto simp: runs_on_def)
  let ?w1 = "w\<lparr>lw_nextSN := lw_nextSN w + 1, lw_jobs := (lw_jobs w)(x \<mapsto> JobObject_default\<lparr>jo_thread := Some q\<rparr>),
    lw_gobjs := (lw_gobjs w)(x \<mapsto> \<lparr>go_scene = Some s, go_sn = lw_nextSN w, go_OnBeforeDestroy = Event_ctor\<rparr>)\<rparr>"
  have ok1: "world_ok (insert x A) ?w1" by (rule created_ok [OF assms(1,2) q(2)])
  obtain w2 where w2: "post_to_object x (JEnter x s) ?w1 = Inr w2" "safe_step (insert x A) ?w1 w2"
    using post_safe [OF ok1, of x "JEnter x s"] by auto
  have m: "Manager_Create x s w = Inr (Inr w2)"
    using sc q w2 by (simp add: Manager_Create_def GameObject_ctor_def JobObject_ctor_def GenerateSN_def Let_def)
  let ?w3 = "app (Player_ctor env x (Some user) pid cptr) w2"
  obtain p where p: "pw_players (lw_app ?w3) = (pw_players (lw_app w2))(x \<mapsto> p)" "pl_owner p = Some user" "pl_player_id p = pid"
      "pw_users (lw_app ?w3) = pw_users (lw_app w2)"
    by (simp add: app_def Player_ctor_def Let_def split_beta)
  have "world_ok (insert x A) ?w3" using w2(2) world_ok_same [of ?w3 w2] by (simp add: safe_step_def)
  then show thesis using w2(2) m p by (intro that [of ?w3 p]) (simp_all add: Create_Player_def safe_step_def calm_def)
qed

lemma insert_player:
  assumes "user \<in> C" "us_player (the_user g user) = None" "the_user g' = (the_user g)(user := (the_user g user)\<lparr>us_player := Some x\<rparr>)"
  shows "players_of C g' = insert x (players_of C g)"
proof -
  have u: "us_player (the_user g' u) = (if u = user then Some x else us_player (the_user g u))" for u by (simp add: assms(3))
  show ?thesis unfolding players_of_def u using assms(1,2) by (auto split: if_splits) (metis option.distinct(1))
qed

lemma HandleSceneReadyRequest_inv:
  assumes "server_inv n C g" "user \<in> C" "lw_jobs (snd g) x = None"
  shows "\<exists>g'. HandleSceneReadyRequest env x cptr user g = Inr g' \<and> server_inv n C g'"
proof -
  have ok: "world_ok (kept C g) (snd g)" using assms(1) by (simp add: server_inv_def)
  consider (out) "us_player_id (the_user g user) = 0" | (present) a where "us_player_id (the_user g user) \<noteq> 0" "us_player (the_user g user) = Some a"
    | (fresh) "us_player_id (the_user g user) \<noteq> 0" "us_player (the_user g user) = None"
    by fastforce
  then show ?thesis
  proof cases
    case out
    then show ?thesis using send_inv [OF assms(1)]
      by (simp add: HandleSceneReadyRequest_def User_GetPlayerId_def SendError_def Let_def)
  next
    case (present a)
    have "a \<in> dom (lw_gobjs (snd g))" using assms(1) player_kept [OF assms(2) present(2)] by (auto simp: server_inv_def world_ok_def)
    then obtain go where "lw_gobjs (snd g) a = Some go" by blast
    then show ?thesis using present assms(1)
      by (simp add: HandleSceneReadyRequest_def User_GetPlayerId_def User_GetPlayer_def Let_def)
  next
    case fresh
    obtain s where s: "gv_scene (fst g) = Some s" "lw_scenes (snd g) s \<noteq> None" "us_last_scene_id (the_user g user) = 0"
      using assms(1) by (auto simp: server_inv_def scene_inv_def)
    obtain lw p where c: "Create_Player env x cptr s user (us_player_id (the_user g user)) (snd g) = Inr lw" "world_ok (insert x (kept C g)) lw"
      and same: "lw_mgr lw = lw_mgr (snd g)" "dom (lw_scenes lw) = dom (lw_scenes (snd g))" "pw_users (lw_app lw) = pw_users (lw_app (snd g))"
      and pl: "pw_players (lw_app lw) = (pw_players (lw_app (snd g)))(x \<mapsto> p)" "pl_owner p = Some user" "pl_player_id p = us_player_id (the_user g user)"
      by (rule Create_Player_safe [OF ok assms(3) s(2)])
    let ?g = "on_app (upd_user user (User_SetPlayer (Some x))) (fst g, lw)"
    have the: "the_user ?g = (the_user g)(user := (the_user g user)\<lparr>us_player := Some x\<rparr>)"
      using same(3) by (simp add: the_user_def user_at_def upd_user_def User_SetPlayer_def fun_eq_iff)
    have new: "x \<notin> kept C g" using ok assms(3) by (auto simp: world_ok_def)
    have p: "players_of C ?g = insert x (players_of C g)" by (rule insert_player [OF assms(2) fresh(2) the])
    have u: "us_player (the_user ?g u) = (if u = user then Some x else us_player (the_user g u))"
        "us_player_id (the_user ?g u) = us_player_id (the_user g u)" "us_last_scene_id (the_user ?g u) = us_last_scene_id (the_user g u)" for u
      unfolding the by simp_all
    have "a \<noteq> x" if "u \<in> C" "us_player (the_user g u) = Some a" for u a using new player_kept [OF that] by auto
    then have "players_exact C ?g" using assms(1) fresh(1) pl unfolding server_inv_def players_exact_def u
      by (simp del: the_user_upd split: if_splits)
    moreover have "sessions_inv C ?g" using assms(1,2) same by (simp del: the_user_upd add: server_inv_def sessions_inv_def insert_absorb subset_insertI2)
    moreover have "scene_inv ?g" using assms(1) same(2) unfolding server_inv_def scene_inv_def u by simp
    moreover have "ids_inv n ?g" using assms(1) unfolding server_inv_def ids_inv_def ids_distinct_def u by simp
    moreover have "world_ok (kept C ?g) (snd ?g)" using c(2) same(1) p by (simp add: insert_commute)
    moreover have "lw_mgr (snd ?g) \<notin> players_of C ?g" using p new same(1) assms(1) by (auto simp: server_inv_def)
    ultimately have "server_inv n C ?g" by (simp add: server_inv_def)
    then show ?thesis using fresh s c(1)
      by (simp add: HandleSceneReadyRequest_def User_GetPlayerId_def User_GetPlayer_def User_GetLastSceneId_def GetSceneById_def Let_def)
  qed
qed

lemma OnSessionConnect_inv:
  assumes "server_inv n C g" "user \<notin> dom (users_of g)"
  shows "server_inv n (insert user C) (OnSessionConnect (on_app (new_user user) g))"
proof -
  let ?g = "OnSessionConnect (on_app (new_user user) g)"
  have the: "the_user ?g = the_user g" and d: "dom (users_of ?g) = insert user (dom (users_of g))"
    using assms(2) by (auto simp: the_user_def user_at_def new_user_def OnSessionConnect_def fun_eq_iff split: option.split)
  have sn: "snd ?g = snd (on_app (new_user user) g)" by (simp add: OnSessionConnect_def)
  have none: "us_player (the_user g user) = None" using assms(2) by (simp add: the_user_def user_at_def User_ctor_def domIff)
  have p: "players_of (insert user C) ?g = players_of C g" using none by (auto simp: players_of_def the)
  have "user \<notin> C" "finite C" using assms by (auto simp: server_inv_def sessions_inv_def)
  then have "sessions_inv (insert user C) ?g" using assms(1) d
    by (auto simp: server_inv_def sessions_inv_def) (auto simp: OnSessionConnect_def algebra_simps)
  moreover have "players_exact (insert user C) ?g" using assms(1) none
    by (simp add: server_inv_def players_exact_def the sn) (simp add: new_user_def)
  moreover have "ids_inv n ?g" "scene_inv ?g" using assms(1)
    by (simp_all add: server_inv_def ids_inv_def ids_distinct_def scene_inv_def the sn) (simp_all add: OnSessionConnect_def)
  ultimately show ?thesis using assms(1) p unfolding server_inv_def sn by simp
qed

lemma handle_request_inv:
  assumes "server_inv n C g" "user \<in> C" "lw_jobs (snd g) x = None" "n + 2 < 2 ^ 32"
  shows "\<exists>g'. handle_request env x cptr req user g = Inr g' \<and> server_inv (Suc n) C g'"
proof (cases req)
  case CG_LOGIN_REQ
  then show ?thesis using HandleLoginRequest_inv [OF assms(1,2,4)] by simp
next
  case CG_SCENE_READY_REQ
  then show ?thesis using HandleSceneReadyRequest_inv [OF assms(1-3), of env cptr] inv_mono by auto
next
  case (CG_SCENE_CHANGE_REQ scene_id)
  then show ?thesis using HandleSceneChangeRequest_inv [OF assms(1,2), of scene_id] inv_mono by auto
next
  case (CG_MOVE_REQ cur_pos move_pos)
  then show ?thesis using HandleMoveRequest_inv [OF assms(1,2), of env move_pos] inv_mono by auto
qed

lemma server_step_inv:
  assumes "server_step env (C, g) (C', g')" "server_inv n C g" "n + 2 < 2 ^ 32"
  shows "server_inv (Suc n) C' g'"
proof -
  have ok: "world_ok (kept C g) (snd g)" "lw_mgr (snd g) \<in> kept C g" using assms(2) by (simp_all add: server_inv_def)
  show ?thesis
    using assms(1)
  proof cases
    case (connect user)
    then show ?thesis using OnSessionConnect_inv [OF assms(2)] inv_mono by blast
  next
    case (request user x cptr req)
    then show ?thesis using handle_request_inv [OF assms(2) _ _ assms(3), of user x env cptr req] by auto
  next
    case (disconnect user)
    then show ?thesis using OnUserDisconnect_inv [OF assms(2), of user] inv_mono by auto
  next
    case (frame fl m t dt gt gt' lw')
    then show ?thesis using logic_step_inv [OF assms(2) game_frame_safe [OF ok frame(3)]] inv_mono by blast
  next
    case (round m t lw')
    then show ?thesis using logic_step_inv [OF assms(2) ProcessJobObjects_safe [OF ok round(3)]] inv_mono by blast
  qed
qed

text \<open>Before the server starts: the manager is initialised with a thread that exists, and there is nothing else.\<close>

definition booted :: "(pworld, unit) logic \<Rightarrow> bool" where
  "booted lw \<longleftrightarrow> (\<exists>q. lw_jobs lw = [lw_mgr lw \<mapsto> idle_job q] \<and> q \<in> dom (lw_threads lw)) \<and> lw_scenes lw = Map.empty \<and>
     pw_users (lw_app lw) = Map.empty"

lemma start_inv:
  assumes "booted lw" "t \<in> dom (lw_threads lw)"
  shows "\<exists>g. OnServerStart s (Some t) (GameServer_ctor, lw) = Inr g \<and> server_inv 0 {} g"
proof -
  obtain th where th: "lw_threads lw t = Some th" using assms(2) by auto
  obtain q where q: "lw_jobs lw = [lw_mgr lw \<mapsto> idle_job q]" "q \<in> dom (lw_threads lw)" using assms(1) by (auto simp: booted_def)
  let ?g = "(GameServer_ctor\<lparr>gv_scene := Some s\<rparr>, lw\<lparr>lw_scenes := (lw_scenes lw)(s \<mapsto> \<lparr>gs_objects = [], gs_thread = Some t\<rparr>),
    lw_threads := (lw_threads lw)(t \<mapsto> AddScene s th)\<rparr>)"
  have u: "the_user ?g user = User_ctor" for user using assms(1) by (simp add: booted_def the_user_def user_at_def)
  have "world_ok {lw_mgr lw} (snd ?g)" using q assms(1)
    by (auto simp: world_ok_def jobs_ok_def runs_on_def idle_job_def booted_def split: if_splits)
  then have "server_inv 0 {} ?g" unfolding server_inv_def inv_defs u by (simp add: User_ctor_def GameServer_ctor_def)
  then show ?thesis using th by (simp add: OnServerStart_def GameScene_ctor_def Let_def)
qed

lemma run_inv:
  assumes "server_inv 0 {} g0" "(server_step env ^^ n) ({}, g0) (C, g)" "n + 1 < 2 ^ 32"
  shows "server_inv n C g"
  using assms(2,3)
proof (induction n arbitrary: C g)
  case 0
  then show ?case using assms(1) by simp
next
  case (Suc n)
  then obtain C1 g1 where "(server_step env ^^ n) ({}, g0) (C1, g1)" "server_step env (C1, g1) (C, g)" by auto
  then show ?case using Suc server_step_inv [of env C1 g1 C g n] by simp
qed

section \<open>Replies\<close>

lemma post_app: "post_to_object b j w = Inr w' \<Longrightarrow> lw_app w' = lw_app w"
  by (auto simp: post_to_object_def queue_object_def rbind_eq_Inr Let_def split: option.splits)

lemma MoveToScene_app: "MoveToScene x (Some s) w = Inr w' \<Longrightarrow> lw_app w' = lw_app w"
  by (auto simp: MoveToScene_def rbind_eq_Inr dest!: post_app)

lemma Create_Player_sent:
  assumes "Create_Player env x cptr s user pid w = Inr w'"
  shows "pw_sent (lw_app w') = pw_sent (lw_app w) \<and> pw_users (lw_app w') = pw_users (lw_app w)"
proof -
  obtain sc where sc: "lw_scenes w s = Some sc"
    using assms by (cases "lw_scenes w s") (auto simp: Create_Player_def Manager_Create_def GameObject_ctor_def)
  obtain q where q: "gs_thread sc = Some q"
    using assms sc by (cases "gs_thread sc") (auto simp: Create_Player_def Manager_Create_def GameObject_ctor_def JobObject_ctor_def)
  let ?w1 = "w\<lparr>lw_nextSN := lw_nextSN w + 1, lw_jobs := (lw_jobs w)(x \<mapsto> JobObject_default\<lparr>jo_thread := Some q\<rparr>),
    lw_gobjs := (lw_gobjs w)(x \<mapsto> \<lparr>go_scene = Some s, go_sn = lw_nextSN w, go_OnBeforeDestroy = Event_ctor\<rparr>)\<rparr>"
  obtain w2 where w2: "post_to_object x (JEnter x s) ?w1 = Inr w2" "w' = app (Player_ctor env x (Some user) pid cptr) w2"
    using assms sc q
    by (cases "post_to_object x (JEnter x s) ?w1")
      (auto simp: Create_Player_def Manager_Create_def GameObject_ctor_def JobObject_ctor_def GenerateSN_def Let_def)
  then show ?thesis using post_app [OF w2(1)] by (simp add: app_def Player_ctor_def Let_def split_beta)
qed

text \<open>What the protocol answers, by the state of the user and the next player number.\<close>

fun reply :: "u32 \<Rightarrow> User \<Rightarrow> request \<Rightarrow> game_packet list" where
  "reply next u CG_LOGIN_REQ =
     (if us_player_id u = 0 then [GC_LOGIN_RES next 0 (0, 0, 0)] else [GC_ERROR_NOTIFY ALREADY_LOGGED_IN ''Already logged in''])"
| "reply next u CG_SCENE_READY_REQ = (if us_player_id u = 0 then [GC_ERROR_NOTIFY NOT_LOGGED_IN ''Not logged in''] else [])"
| "reply next u (CG_SCENE_CHANGE_REQ scene_id) =
     (if us_player u = None then [GC_ERROR_NOTIFY PLAYER_NOT_FOUND ''Player not found'']
      else if scene_id = 0 then [GC_SCENE_CHANGE_RES 0 (0, 0, 0)]
      else [GC_ERROR_NOTIFY SCENE_NOT_FOUND (''Scene not found: '' @ to_string scene_id)])"
| "reply next u (CG_MOVE_REQ cur_pos move_pos) = (if us_player u = None then [GC_ERROR_NOTIFY PLAYER_NOT_FOUND ''Player not found''] else [])"

lemma on_app_send [simp]: "the_user (on_app (send_to r packet) g) = the_user g"
  by (simp add: the_user_def user_at_def fun_eq_iff)

lemma sent_simps [simp]:
  "pw_sent (send_to (Some user) packet w) = pw_sent w @ [(user, packet)]"
  "pw_sent (upd_user user f w) = pw_sent w"
  by (simp_all add: send_to_def upd_user_def)

lemma same_app_user: "pw_users (lw_app lw') = users_of g \<Longrightarrow> the_user (srv, lw') = the_user g"
  by (simp add: the_user_def user_at_def fun_eq_iff)

definition answers :: "addr \<Rightarrow> game_packet list \<Rightarrow> game \<Rightarrow> game \<Rightarrow> bool" where
  "answers user ps g g' \<longleftrightarrow> pw_sent (lw_app (snd g')) = pw_sent (lw_app (snd g)) @ map (Pair user) ps \<and> (\<forall>v. v \<noteq> user \<longrightarrow> the_user g' v = the_user g v)"

lemma request_reply:
  assumes "scene_inv g" "handle_request env x cptr req user g = Inr g'"
  shows "answers user (reply (gv_nextPlayerId (fst g)) (the_user g user) req) g g'"
proof (cases req)
  case CG_LOGIN_REQ
  then show ?thesis using assms(2)
    by (auto simp: answers_def HandleLoginRequest_def User_GetPlayerId_def GeneratePlayerId_def GetDefaultSceneId_def SendError_def Let_def)
next
  case CG_SCENE_READY_REQ
  obtain s where s: "gv_scene (fst g) = Some s" "us_last_scene_id (the_user g user) = 0" using assms(1) by (auto simp: scene_inv_def)
  show ?thesis using assms(2) CG_SCENE_READY_REQ s
    by (auto simp: answers_def HandleSceneReadyRequest_def User_GetPlayerId_def User_GetPlayer_def User_GetLastSceneId_def GetSceneById_def
        SendError_def Let_def rbind_eq_Inr same_app_user split: option.splits if_splits dest!: Create_Player_sent)
next
  case (CG_SCENE_CHANGE_REQ scene_id)
  obtain s where s: "gv_scene (fst g) = Some s" using assms(1) by (auto simp: scene_inv_def)
  show ?thesis using assms(2) CG_SCENE_CHANGE_REQ s
    by (auto simp: answers_def HandleSceneChangeRequest_def User_GetPlayer_def GetSceneById_def SendError_def scene_missing_def Let_def rbind_eq_Inr
        same_app_user split: option.splits if_splits dest!: MoveToScene_app)
      (simp add: the_user_def user_at_def upd_user_def)
next
  case (CG_MOVE_REQ cur_pos move_pos)
  then show ?thesis using assms(2)
    by (auto simp: answers_def HandleMoveRequest_def User_GetPlayer_def SendError_def PostSetDestPosJob_def rbind_eq_Inr same_app_user
        split: option.splits dest!: post_app)
qed

section \<open>Properties\<close>

definition server_run :: "game_env \<Rightarrow> nat \<Rightarrow> addr set \<Rightarrow> game \<Rightarrow> bool" where
  "server_run env n C g \<longleftrightarrow> (\<exists>lw t s g0. booted lw \<and> t \<in> dom (lw_threads lw) \<and> OnServerStart s (Some t) (GameServer_ctor, lw) = Inr g0 \<and>
     (server_step env ^^ n) ({}, g0) (C, g))"

lemma server_run_inv: "server_run env n C g \<Longrightarrow> n + 1 < 2 ^ 32 \<Longrightarrow> server_inv n C g"
  unfolding server_run_def by (metis run_inv start_inv sum.inject(2))

text \<open>C9: No handler of the game server faults, and its books are right. After any sequence of connections, requests,
  disconnects, frames and rounds of job threads (fewer than \<open>2^32 - 2\<close>, so that player numbers do not wrap), in any order: every request of a
  connected user and every disconnect is handled without touching a deleted object or a null thread; a user's
  player exists, is owned by that user and carries the number of its login; no two users have the same number; and the
  session counters agree with the number of connected users.\<close>

theorem server_never_faults:
  assumes "server_run env n C g" "n + 2 < 2 ^ 32" "user \<in> C" "lw_jobs (snd g) x = None"
  shows "(\<exists>g'. handle_request env x cptr req user g = Inr g') \<and> (\<exists>g'. OnUserDisconnect user g = Inr g') \<and>
    players_exact C g \<and> ids_distinct g \<and>
    gv_currentSessions (fst g) = of_nat (card C) \<and> gv_totalConnected (fst g) - gv_totalDisconnected (fst g) = of_nat (card C)"
proof -
  have inv: "server_inv n C g" using server_run_inv assms(1,2) by simp
  show ?thesis using handle_request_inv [OF inv assms(3,4,2), of env cptr req] OnUserDisconnect_inv [OF inv assms(3)] inv
    by (auto simp: server_inv_def ids_inv_def sessions_inv_def)
qed


text \<open>An example: user 7 connects to a server with scene 50 on thread 100 and logs in.\<close>

definition boot :: "(pworld, unit) logic" where
  "boot = \<lparr>lw_jobs = [9 \<mapsto> idle_job 102], lw_gobjs = Map.empty, lw_scenes = Map.empty, lw_threads = [100 \<mapsto> demo_thread, 102 \<mapsto> demo_thread],
     lw_mgr = 9, lw_objects = Map.empty, lw_nextSN = 1,
     lw_app = \<lparr>pw_users = Map.empty, pw_players = Map.empty, pw_moves = Map.empty, pw_owners = Map.empty, pw_sent = []\<rparr>\<rparr>"

definition served :: game where
  "served = HandleLoginRequest 7 (OnSessionConnect (on_app (new_user 7) (GameServer_ctor\<lparr>gv_scene := Some 50\<rparr>,
     boot\<lparr>lw_scenes := [50 \<mapsto> \<lparr>gs_objects = [], gs_thread = Some 100\<rparr>], lw_threads := (lw_threads boot)(100 \<mapsto> AddScene 50 demo_thread)\<rparr>)))"

lemma boot_booted: "booted boot" "100 \<in> dom (lw_threads boot)"
  by (auto simp: booted_def boot_def intro!: exI [of _ 102])

lemma served_run: "server_run plain_env 2 {7} served"
proof -
  let ?g0 = "(GameServer_ctor\<lparr>gv_scene := Some 50\<rparr>,
     boot\<lparr>lw_scenes := [50 \<mapsto> \<lparr>gs_objects = [], gs_thread = Some 100\<rparr>], lw_threads := (lw_threads boot)(100 \<mapsto> AddScene 50 demo_thread)\<rparr>)"
  let ?g1 = "OnSessionConnect (on_app (new_user 7) ?g0)"
  have s: "OnServerStart 50 (Some 100) (GameServer_ctor, boot) = Inr ?g0"
    by (simp add: OnServerStart_def GameScene_ctor_def boot_def)
  have "server_step plain_env ({}, ?g0) ({7}, ?g1)" by (rule connect) (simp add: boot_def)
  moreover have "server_step plain_env ({7}, ?g1) ({7}, served)"
    by (rule request [where user = 7 and req = CG_LOGIN_REQ and x = 1]) (simp_all add: served_def OnSessionConnect_def boot_def)
  ultimately have "(server_step plain_env ^^ 2) ({}, ?g0) ({7}, served)" unfolding numeral_2_eq_2 by auto
  then show ?thesis using boot_booted s unfolding server_run_def by blast
qed

lemma served_facts: "lw_jobs (snd served) 1 = None" "us_player_id (the_user served 7) = 1" "gv_nextPlayerId (fst served) = 2"
    "pw_sent (lw_app (snd served)) = [(7, GC_LOGIN_RES 1 0 (0, 0, 0))]" "us_player (the_user served 7) = None"
  by (simp_all add: served_def HandleLoginRequest_def OnSessionConnect_def boot_def the_user_def user_at_def new_user_def on_app_def app_def
      User_GetPlayerId_def User_ctor_def GeneratePlayerId_def GameServer_ctor_def send_to_def upd_user_def GetDefaultSceneId_def
      User_SetSpawnPos_def User_SetLastSceneId_def User_SetPlayerId_def Let_def)

theorem server_never_faults_witness:
  "(\<exists>g'. handle_request plain_env 1 2 CG_SCENE_READY_REQ 7 served = Inr g') \<and> (\<exists>g'. OnUserDisconnect 7 served = Inr g') \<and>
   gv_currentSessions (fst served) = 1"
  using server_never_faults [OF served_run _ _ served_facts(1), of 7 2 CG_SCENE_READY_REQ] by simp


section \<open>A player leaves\<close>

text \<open>User \<open>user\<close> has the player \<open>a\<close>, which waits in the scene \<open>s\<close> of a thread \<open>t\<close> with nothing to do; the manager runs on another thread.\<close>

definition settled :: "game \<Rightarrow> addr \<Rightarrow> addr \<Rightarrow> unit GameObject \<Rightarrow> addr \<Rightarrow> addr \<Rightarrow> GameScene \<Rightarrow> bool" where
  "settled g user a go t s sc \<longleftrightarrow> us_player (the_user g user) = Some a \<and> lw_jobs (snd g) a = Some (idle_job t) \<and> lw_gobjs (snd g) a = Some go \<and>
     go_scene go = Some s \<and> lw_scenes (snd g) s = Some sc \<and> (\<exists>th. lw_threads (snd g) t = Some th \<and> jt_queue th = []) \<and>
     lw_mgr (snd g) \<noteq> a \<and> manager_ok (snd g) \<and> jo_thread (the (lw_jobs (snd g) (lw_mgr (snd g)))) \<noteq> Some t"

lemma destroyed_player: "destroyed_app (player_hooks env) a objs go u = Player_OnExit a objs u"
proof -
  have "snd (invoke_loop (\<lambda>_ st. st) H ids st) = st" for H ids and st :: "unit Event \<times> pworld"
    by (induction ids) (simp_all add: split_beta split: option.split)
  then show ?thesis by (simp add: destroyed_app_def Event_Invoke_def player_hooks_def)
qed

lemma Object_Destroy_app: "Object_Destroy a (app f w) = rbind (Object_Destroy a w) (\<lambda>w1. Inr (app f w1))"
  by (auto simp: Object_Destroy_def post_to_object_def queue_object_def rbind_def deref_def Let_def app_def split: option.split sum.split prod.split)

lemma upd_user_audience [simp]: "audience (upd_user user f w) objs = audience w objs"
proof -
  have "owner_of (upd_user user f w) = owner_of w" by (simp add: owner_of_def fun_eq_iff)
  then show ?thesis by (simp add: audience_def)
qed

text \<open>Disconnecting and the next round of the thread, as one.\<close>

lemma disconnect_round:
  assumes "settled g user a go t s sc"
  shows "\<exists>g1 w2. OnUserDisconnect user g = Inr g1 \<and> ProcessJobObjects (player_hooks env) (Suc (Suc n)) t (snd g1) = Some (Inr w2) \<and>
    lw_jobs w2 a = None \<and> lw_gobjs w2 a = None \<and>
    lw_scenes w2 = (lw_scenes (snd g))(s \<mapsto> sc\<lparr>gs_objects := remove1 a (gs_objects sc)\<rparr>) \<and>
    mgr_jobs w2 = mgr_jobs (snd g) @ [JUnregister (go_sn go)] \<and>
    lw_app w2 = Player_OnExit a (gs_objects sc) (upd_user user User_ClearPlayer (lw_app (snd g)))"
proof -
  let ?w = "app (upd_user user User_ClearPlayer) (snd g)"
  obtain th where f: "us_player (the_user g user) = Some a" "lw_jobs (snd g) a = Some (idle_job t)" "lw_gobjs (snd g) a = Some go"
      "go_scene go = Some s" "lw_scenes (snd g) s = Some sc" "lw_threads (snd g) t = Some th" "jt_queue th = []" "lw_mgr (snd g) \<noteq> a"
      "manager_ok (snd g)" "jo_thread (the (lw_jobs (snd g) (lw_mgr (snd g)))) \<noteq> Some t"
    using assms by (auto simp: settled_def)
  have ok: "manager_ok ?w" and same: "mgr_jobs ?w = mgr_jobs (snd g)" using f(9) by (simp_all add: manager_ok_def mgr_jobs_def)
  obtain w1 w2 where d: "Object_Destroy a ?w = Inr w1" "ProcessJobObjects (player_hooks env) (Suc (Suc n)) t w1 = Some (Inr w2)"
      "lw_jobs w2 a = None" "lw_gobjs w2 a = None" "lw_scenes w2 = (lw_scenes ?w)(s \<mapsto> sc\<lparr>gs_objects := remove1 a (gs_objects sc)\<rparr>)"
      "mgr_jobs w2 = mgr_jobs ?w @ [JUnregister (go_sn go)]" "lw_app w2 = destroyed_app (player_hooks env) a (gs_objects sc) go (lw_app ?w)"
    using destroy_effect [of ?w a t go s sc th "player_hooks env" n] f ok by auto
  then obtain w0 where w0: "Object_Destroy a (snd g) = Inr w0" "w1 = app (upd_user user User_ClearPlayer) w0"
    unfolding Object_Destroy_app by (auto simp: rbind_eq_Inr)
  then obtain srv where "OnUserDisconnect user g = Inr (srv, w1)"
    using f(1) by (simp add: OnUserDisconnect_def User_GetPlayer_def on_app_def Let_def)
  then show ?thesis using d(2-7) same
    by (intro exI [of _ "(srv, w1)"] exI [of _ w2]) (simp add: destroyed_player app_def del: ProcessJobObjects.simps)
qed


text \<open>C37: A client can make the server use a deleted object. A request to change to the scene the player is already in is
  granted; the next round of the scene's thread enters the player a second time; after a disconnect and one more
  round one entry is left in the scene, and the next update of the scene accesses freed memory.\<close>

theorem scene_change_to_same_scene_dangles:
  assumes "settled g user a go t s sc" "gv_scene (fst g) = Some s" "a \<in> set (gs_objects sc)"
  shows "\<exists>g1 w2 g3 w4. HandleSceneChangeRequest 0 user g = Inr g1 \<and>
    ProcessJobObjects (player_hooks env) (Suc (Suc (Suc (Suc n)))) t (snd g1) = Some (Inr w2) \<and>
    OnUserDisconnect user (fst g1, w2) = Inr g3 \<and> ProcessJobObjects (player_hooks env) (Suc (Suc n)) t (snd g3) = Some (Inr w4) \<and>
    Scene_Update (player_hooks env) s w4 = Inl UseAfterFree"
proof -
  let ?g = "on_app (send_to (Some user) (GC_SCENE_CHANGE_RES 0 (0, 0, 0))) (on_app (upd_user user (\<lambda>u. User_SetSpawnPos 0 0 0 (User_SetLastSceneId 0 u))) g)"
  let ?sc = "sc\<lparr>gs_objects := gs_objects sc @ [a]\<rparr>"
  obtain th where f: "us_player (the_user g user) = Some a" "lw_jobs (snd g) a = Some (idle_job t)" "lw_gobjs (snd g) a = Some go"
      "go_scene go = Some s" "lw_scenes (snd g) s = Some sc" "lw_threads (snd g) t = Some th" "jt_queue th = []" "lw_mgr (snd g) \<noteq> a"
      "manager_ok (snd g)" "jo_thread (the (lw_jobs (snd g) (lw_mgr (snd g)))) \<noteq> Some t"
    using assms(1) by (auto simp: settled_def)
  have ok: "manager_ok (snd ?g)" using f(9) by (simp add: manager_ok_def)
  obtain w1 w2 where m: "MoveToScene a (Some s) (snd ?g) = Inr w1" "ProcessJobObjects (player_hooks env) (Suc (Suc (Suc (Suc n)))) t w1 = Some (Inr w2)"
      and r: "lw_jobs w2 a = Some (idle_job t)" "lw_gobjs w2 a = Some go" "lw_scenes w2 s = Some ?sc" "lw_threads w2 t = Some th" "lw_mgr w2 = lw_mgr (snd ?g)"
      "manager_ok w2" "jo_thread (the (lw_jobs w2 (lw_mgr (snd ?g)))) \<noteq> Some t" "lw_app w2 = hk_OnEnter (player_hooks env) a (gs_objects sc @ [a]) (lw_app (snd ?g))"
    using same_scene_move_enters_again [of "snd ?g" a t go s sc th "player_hooks env" n] f ok by auto
  have "the_user (fst g, w2) = the_user ?g" using r(8) by (intro same_app_user) simp
  then have u: "us_player (the_user (fst g, w2) user) = Some a" using f(1) by (simp add: User_SetSpawnPos_def User_SetLastSceneId_def)
  have st: "settled (fst g, w2) user a go t s ?sc" using u r f(4,7,8) by (simp add: settled_def)
  obtain g3 w4 where d: "OnUserDisconnect user (fst g, w2) = Inr g3" "ProcessJobObjects (player_hooks env) (Suc (Suc n)) t (snd g3) = Some (Inr w4)"
      "lw_gobjs w4 a = None" "lw_scenes w4 = (lw_scenes w2)(s \<mapsto> ?sc\<lparr>gs_objects := remove1 a (gs_objects ?sc)\<rparr>)"
    using disconnect_round [OF st, of env n] by auto
  have "a \<in> set (remove1 a (gs_objects sc @ [a]))" using assms(3) by (simp add: remove1_append)
  from update_dangling [OF this, of "app (hk_scene_update (player_hooks env) s) w4"]
  have "Scene_Update (player_hooks env) s w4 = Inl UseAfterFree" using d(3,4) by (simp add: Scene_Update_def Let_def)
  moreover have "HandleSceneChangeRequest 0 user g = Inr (fst g, w1)"
    using f(1) assms(2) m(1) by (simp add: HandleSceneChangeRequest_def User_GetPlayer_def GetSceneById_def Let_def)
  ultimately show ?thesis using m(2) d(1,2) by (intro exI [of _ "(fst g, w1)"] exI [of _ w2] exI [of _ g3] exI [of _ w4]) simp
qed

text \<open>An example: the players 1 and 2 of users 7 and 8 in scene 50.\<close>

definition in_game :: game where
  "in_game = (GameServer_ctor\<lparr>gv_scene := Some 50\<rparr>,
     \<lparr>lw_jobs = [1 \<mapsto> idle_job 100, 2 \<mapsto> idle_job 100, 9 \<mapsto> idle_job 102],
      lw_gobjs = [1 \<mapsto> \<lparr>go_scene = Some 50, go_sn = 1, go_OnBeforeDestroy = Event_ctor\<rparr>, 2 \<mapsto> \<lparr>go_scene = Some 50, go_sn = 2, go_OnBeforeDestroy = Event_ctor\<rparr>],
      lw_scenes = [50 \<mapsto> \<lparr>gs_objects = [2, 1], gs_thread = Some 100\<rparr>], lw_threads = [100 \<mapsto> demo_thread, 102 \<mapsto> demo_thread],
      lw_mgr = 9, lw_objects = Map.empty, lw_nextSN = 3,
      lw_app = two_players\<lparr>pw_users := [7 \<mapsto> User_ctor\<lparr>us_player := Some 1, us_player_id := 100\<rparr>, 8 \<mapsto> User_ctor\<lparr>us_player := Some 2, us_player_id := 200\<rparr>]\<rparr>\<rparr>)"

abbreviation first_object :: "unit GameObject" where
  "first_object \<equiv> \<lparr>go_scene = Some 50, go_sn = 1, go_OnBeforeDestroy = Event_ctor\<rparr>"

lemma in_game_settled: "settled in_game 7 1 first_object 100 50 \<lparr>gs_objects = [2, 1], gs_thread = Some 100\<rparr>"
  by (simp add: settled_def in_game_def the_user_def user_at_def demo_thread_def manager_ok_def idle_job_def)

lemma in_game_facts: "pw_players (lw_app (snd in_game)) 1 = Some entering" "audience (lw_app (snd in_game)) [2] = [8]"
    "pw_sent (lw_app (snd in_game)) = []" "gv_scene (fst in_game) = Some 50" "pl_player_id entering = 100" "mgr_jobs (snd in_game) = []"
  using two_players_facts by (simp_all add: in_game_def audience_def owner_of_def player_ok_def List.map_filter_def mgr_jobs_def idle_job_def)


theorem scene_change_to_same_scene_dangles_witness:
  "\<exists>g1 w2 g3 w4. HandleSceneChangeRequest 0 7 in_game = Inr g1 \<and> ProcessJobObjects (player_hooks plain_env) 4 100 (snd g1) = Some (Inr w2) \<and>
    OnUserDisconnect 7 (fst g1, w2) = Inr g3 \<and> ProcessJobObjects (player_hooks plain_env) 2 100 (snd g3) = Some (Inr w4) \<and>
    Scene_Update (player_hooks plain_env) 50 w4 = Inl UseAfterFree"
proof -
  have "(1 :: addr) \<in> set (gs_objects \<lparr>gs_objects = [2, 1], gs_thread = Some (100 :: addr)\<rparr>)" by simp
  moreover have "Suc (Suc (Suc (Suc 0))) = 4" by simp
  ultimately show ?thesis using scene_change_to_same_scene_dangles [OF in_game_settled in_game_facts(4), of plain_env 0]
    unfolding numeral_2_eq_2 by metis
qed

end
