(* ===== verification/OnceInit.thy ===== *)
theory OnceInit
  imports Prelude
begin

text \<open>
  One-time initialisation with a reference count (\<^verbatim>\<open>JunCommon/synchronization/OnceInitializer.h\<close>), used
  for Winsock (\<^verbatim>\<open>JunCore/network/WSAInitializer.h\<close>). \<open>Initialize\<close> and \<open>Cleanup\<close> are step relations, one step
  per atomic access, for any number of threads. What \<open>init_func\<close> does (return true, return false or
  throw) is open; \<open>os_live\<close> records whether the resource it sets up is there. How a waiting thread passes
  its time (the wait policies) does not change the state.

  Shown: over any interleaving of calls of \<open>Initialize\<close> the function runs at most once, in one thread, all
  calls agree with its result and the reference count is the number of successful calls; and
  that a call of \<open>Initialize\<close> during the last \<open>Cleanup\<close> can succeed and find the resource gone.
\<close>

section \<open>Steps\<close>

datatype init_state = NOT_INITIALIZED | INITIALIZING | INITIALIZED | FAILED

datatype init_result = ROk | RNo | RThrow

text \<open>Where a thread stands: before the load, before the exchange, inside \<open>init_func\<close>, before storing its
  outcome, before giving the reference back, in the waiting loop, returned; then the three places of
  \<open>Cleanup\<close>.\<close>

datatype once_pc = OIdle | OLoad | OCas | OInit | OStore init_result | ODrop init_result | OWait | ORet init_result
  | CSub | CRun | CReset

record once =
  os_state :: init_state
  os_refs :: int
  os_pc :: "nat \<Rightarrow> once_pc"
  os_inits :: nat
  os_live :: bool

definition once_init :: once where
  "once_init = \<lparr>os_state = NOT_INITIALIZED, os_refs = 0, os_pc = (\<lambda>_. OIdle), os_inits = 0, os_live = False\<rparr>"

definition ogo :: "nat \<Rightarrow> once_pc \<Rightarrow> once \<Rightarrow> once" where
  "ogo t pc s = s\<lparr>os_pc := (os_pc s)(t := pc)\<rparr>"

inductive Initialize_step :: "once \<Rightarrow> once \<Rightarrow> bool" where
  enter: "os_pc s t = OIdle \<Longrightarrow> Initialize_step s (ogo t OLoad (s\<lparr>os_refs := os_refs s + 1\<rparr>))"
| load_done: "os_pc s t = OLoad \<Longrightarrow> os_state s = INITIALIZED \<Longrightarrow> Initialize_step s (ogo t (ORet ROk) s)"
| load_failed: "os_pc s t = OLoad \<Longrightarrow> os_state s = FAILED \<Longrightarrow> Initialize_step s (ogo t (ODrop RNo) s)"
| load_other: "os_pc s t = OLoad \<Longrightarrow> os_state s \<noteq> INITIALIZED \<Longrightarrow> os_state s \<noteq> FAILED \<Longrightarrow> Initialize_step s (ogo t OCas s)"
| cas_win: "os_pc s t = OCas \<Longrightarrow> os_state s = NOT_INITIALIZED \<Longrightarrow>
    Initialize_step s (ogo t OInit (s\<lparr>os_state := INITIALIZING\<rparr>))"
| cas_lose: "os_pc s t = OCas \<Longrightarrow> os_state s \<noteq> NOT_INITIALIZED \<Longrightarrow> Initialize_step s (ogo t OWait s)"
| run: "os_pc s t = OInit \<Longrightarrow>
    Initialize_step s (ogo t (OStore r) (s\<lparr>os_inits := os_inits s + 1, os_live := (r = ROk)\<rparr>))"
| store_ok: "os_pc s t = OStore ROk \<Longrightarrow> Initialize_step s (ogo t (ORet ROk) (s\<lparr>os_state := INITIALIZED\<rparr>))"
| store_failed: "os_pc s t = OStore r \<Longrightarrow> r \<noteq> ROk \<Longrightarrow> Initialize_step s (ogo t (ODrop r) (s\<lparr>os_state := FAILED\<rparr>))"
| drop_ref: "os_pc s t = ODrop r \<Longrightarrow> Initialize_step s (ogo t (ORet r) (s\<lparr>os_refs := os_refs s - 1\<rparr>))"
| wait_done: "os_pc s t = OWait \<Longrightarrow> os_state s = INITIALIZED \<Longrightarrow> Initialize_step s (ogo t (ORet ROk) s)"
| wait_failed: "os_pc s t = OWait \<Longrightarrow> os_state s = FAILED \<Longrightarrow> Initialize_step s (ogo t (ODrop RNo) s)"
| wait_on: "os_pc s t = OWait \<Longrightarrow> os_state s \<noteq> INITIALIZED \<Longrightarrow> os_state s \<noteq> FAILED \<Longrightarrow> Initialize_step s s"

text \<open>\<open>Cleanup\<close>, by a thread whose \<open>Initialize\<close> succeeded; exceptions of \<open>cleanup_func\<close> are ignored.\<close>

inductive Cleanup_step :: "once \<Rightarrow> once \<Rightarrow> bool" where
  start: "os_pc s t = ORet ROk \<Longrightarrow> Cleanup_step s (ogo t CSub s)"
| last: "os_pc s t = CSub \<Longrightarrow> os_refs s = 1 \<Longrightarrow> Cleanup_step s (ogo t CRun (s\<lparr>os_refs := os_refs s - 1\<rparr>))"
| not_last: "os_pc s t = CSub \<Longrightarrow> os_refs s \<noteq> 1 \<Longrightarrow> Cleanup_step s (ogo t OIdle (s\<lparr>os_refs := os_refs s - 1\<rparr>))"
| cleanup: "os_pc s t = CRun \<Longrightarrow> Cleanup_step s (ogo t CReset (s\<lparr>os_live := False\<rparr>))"
| reset: "os_pc s t = CReset \<Longrightarrow> Cleanup_step s (ogo t OIdle (s\<lparr>os_state := NOT_INITIALIZED\<rparr>))"

inductive once_step :: "once \<Rightarrow> once \<Rightarrow> bool" where
  initialising: "Initialize_step s s' \<Longrightarrow> once_step s s'"
| cleaning: "Cleanup_step s s' \<Longrightarrow> once_step s s'"

inductive_cases Initialize_stepE: "Initialize_step s s'"

text \<open>The accessors, and the reset meant for tests.\<close>

definition IsInitialized :: "once \<Rightarrow> bool" where
  "IsInitialized s \<longleftrightarrow> os_state s = INITIALIZED"

definition GetState :: "once \<Rightarrow> init_state" where
  "GetState s = os_state s"

definition GetReferenceCount :: "once \<Rightarrow> int" where
  "GetReferenceCount s = os_refs s"

definition ForceReset :: "once \<Rightarrow> once" where
  "ForceReset s = s\<lparr>os_state := NOT_INITIALIZED, os_refs := 0\<rparr>"

section \<open>The invariant of initialisation\<close>

text \<open>The thread that runs \<open>init_func\<close> or is about to store its outcome.\<close>

fun running_init :: "once_pc \<Rightarrow> bool" where
  "running_init OInit = True" | "running_init (OStore _) = True" | "running_init _ = False"

fun outcome :: "once_pc \<Rightarrow> init_result option" where
  "outcome (ODrop r) = Some r" | "outcome (ORet r) = Some r" | "outcome _ = None"

fun cleaning_pc :: "once_pc \<Rightarrow> bool" where
  "cleaning_pc CSub = True" | "cleaning_pc CRun = True" | "cleaning_pc CReset = True" | "cleaning_pc _ = False"

fun counted :: "once_pc \<Rightarrow> bool" where
  "counted OIdle = False" | "counted (ORet r) = (r = ROk)" | "counted _ = True"

definition holders :: "once \<Rightarrow> nat set" where
  "holders s = {t. counted (os_pc s t)}"

definition refs_inv :: "once \<Rightarrow> bool" where
  "refs_inv s \<longleftrightarrow> finite (holders s) \<and> os_refs s = int (card (holders s))"

text \<open>What each state of the initialiser says about the threads.\<close>

definition state_inv :: "once \<Rightarrow> bool" where
  "state_inv s \<longleftrightarrow> (\<forall>t. \<not> cleaning_pc (os_pc s t)) \<and> (\<forall>t. os_pc s t \<noteq> ODrop ROk) \<and>
     (case os_state s of
        NOT_INITIALIZED \<Rightarrow> os_inits s = 0 \<and> (\<forall>t. \<not> running_init (os_pc s t) \<and> outcome (os_pc s t) = None)
      | INITIALIZING \<Rightarrow> (\<exists>t. (os_pc s t = OInit \<and> os_inits s = 0 \<or>
            (\<exists>r. os_pc s t = OStore r \<and> os_inits s = 1 \<and> os_live s = (r = ROk))) \<and>
          (\<forall>u. running_init (os_pc s u) \<longrightarrow> u = t)) \<and> (\<forall>t. outcome (os_pc s t) = None)
      | INITIALIZED \<Rightarrow> os_inits s = 1 \<and> os_live s \<and>
          (\<forall>t. \<not> running_init (os_pc s t) \<and> outcome (os_pc s t) \<in> {None, Some ROk})
      | FAILED \<Rightarrow> os_inits s = 1 \<and> (\<forall>t. \<not> running_init (os_pc s t) \<and> outcome (os_pc s t) \<noteq> Some ROk))"

lemma ogo_fields [simp]:
  "os_pc (ogo t pc s) = (os_pc s)(t := pc)" "os_state (ogo t pc s) = os_state s" "os_refs (ogo t pc s) = os_refs s"
  "os_inits (ogo t pc s) = os_inits s" "os_live (ogo t pc s) = os_live s"
  by (simp_all add: ogo_def)

lemma holders_ogo:
  assumes "finite (holders s)"
  shows "finite (holders (ogo t pc s))"
    "int (card (holders (ogo t pc s))) =
       int (card (holders s)) + (if counted pc then 1 else 0) - (if counted (os_pc s t) then 1 else 0)"
  using card_upd [of counted "os_pc s" t pc] assms by (simp_all add: holders_def)

lemma holders_frame [simp]:
  "holders (os_refs_update f s) = holders s" "holders (os_state_update g s) = holders s"
  "holders (os_inits_update h s) = holders s" "holders (os_live_update k s) = holders s"
  by (simp_all add: holders_def)

lemma Initialize_refs: "Initialize_step s s' \<Longrightarrow> state_inv s \<Longrightarrow> refs_inv s \<Longrightarrow> refs_inv s'"
  by (erule Initialize_stepE) (auto simp: refs_inv_def holders_ogo state_inv_def)

lemma running_state: "state_inv s \<Longrightarrow> running_init (os_pc s t) \<Longrightarrow> os_state s = INITIALIZING"
  by (cases "os_state s") (simp_all add: state_inv_def)

lemma running_alone:
  assumes "state_inv s" "running_init (os_pc s t)"
  shows "\<forall>u. running_init (os_pc s u) \<longrightarrow> u = t" "os_pc s t = OInit \<Longrightarrow> os_inits s = 0"
    "os_pc s t = OStore r \<Longrightarrow> os_inits s = 1 \<and> os_live s = (r = ROk)" "outcome (os_pc s u) = None"
proof -
  have i: "os_state s = INITIALIZING" using running_state [OF assms] .
  obtain v where v: "os_pc s v = OInit \<and> os_inits s = 0 \<or> (\<exists>r. os_pc s v = OStore r \<and> os_inits s = 1 \<and> os_live s = (r = ROk))"
      "\<forall>u. running_init (os_pc s u) \<longrightarrow> u = v"
    using assms(1) i by (auto simp: state_inv_def)
  then have "v = t" using assms(2) by blast
  with v show "\<forall>u. running_init (os_pc s u) \<longrightarrow> u = t" "os_pc s t = OInit \<Longrightarrow> os_inits s = 0"
    "os_pc s t = OStore r \<Longrightarrow> os_inits s = 1 \<and> os_live s = (r = ROk)" by auto
  show "outcome (os_pc s u) = None" using assms(1) i by (simp add: state_inv_def)
qed

lemma state_inv_clean: "state_inv s \<Longrightarrow> \<not> cleaning_pc (os_pc s t)" "state_inv s \<Longrightarrow> os_pc s t \<noteq> ODrop ROk"
  by (simp_all add: state_inv_def)

lemma outcome_state:
  assumes "state_inv s" "outcome (os_pc s t) = Some r"
  shows "r = ROk \<and> os_state s = INITIALIZED \<or> r \<noteq> ROk \<and> os_state s = FAILED"
proof (cases "os_state s")
  case INITIALIZED
  then have "outcome (os_pc s t) \<in> {None, Some ROk}" using assms(1) by (simp add: state_inv_def)
  then show ?thesis using assms(2) INITIALIZED by simp
next
  case FAILED
  then have "outcome (os_pc s t) \<noteq> Some ROk" using assms(1) by (simp add: state_inv_def)
  then show ?thesis using assms(2) FAILED by simp
qed (use assms in \<open>simp_all add: state_inv_def\<close>)

lemma state_inv_refs [simp]: "state_inv (os_refs_update f s) = state_inv s"
  by (simp add: state_inv_def split: init_state.splits)

text \<open>A step of a thread that does not run \<open>init_func\<close>, to a place that agrees with the state.\<close>

lemma state_inv_ogo:
  assumes "state_inv s" "\<not> running_init (os_pc s t)" "\<not> running_init pc" "\<not> cleaning_pc pc" "pc \<noteq> ODrop ROk"
    "outcome pc = None \<or> os_state s = INITIALIZED \<and> outcome pc = Some ROk \<or> os_state s = FAILED \<and> outcome pc \<noteq> Some ROk"
  shows "state_inv (ogo t pc s)"
proof (cases "os_state s")
  case INITIALIZING
  then obtain v where v: "os_pc s v = OInit \<and> os_inits s = 0 \<or> (\<exists>r. os_pc s v = OStore r \<and> os_inits s = 1 \<and> os_live s = (r = ROk))"
      "\<forall>u. running_init (os_pc s u) \<longrightarrow> u = v" "\<forall>u. outcome (os_pc s u) = None"
    using assms(1) by (auto simp: state_inv_def)
  then have "v \<noteq> t" using assms(2) by auto
  with v assms INITIALIZING show ?thesis
    by (simp add: state_inv_def) (intro exI [of _ v], simp)
qed (use assms in \<open>auto simp: state_inv_def\<close>)

lemma Initialize_state:
  assumes "Initialize_step s s'" "state_inv s"
  shows "state_inv s'"
  using assms(1)
proof cases
  case (cas_win t)
  then show ?thesis using assms(2) by (auto simp: state_inv_def)
next
  case (run t r)
  then have r: "running_init (os_pc s t)" by simp
  note a = running_state [OF assms(2) r] running_alone [OF assms(2) r]
  show ?thesis using run(1) a(1,2,5) a(3) [OF run(2)] state_inv_clean [OF assms(2)]
    by (auto simp: state_inv_def)
next
  case (store_ok t)
  then have r: "running_init (os_pc s t)" by simp
  note a = running_alone [OF assms(2) r]
  show ?thesis using store_ok(1) a(1,4) a(3) [OF store_ok(2)] state_inv_clean [OF assms(2)]
    by (auto simp: state_inv_def)
next
  case (store_failed t r)
  then have r: "running_init (os_pc s t)" by simp
  note a = running_alone [OF assms(2) r]
  show ?thesis using store_failed(1,3) a(1,4) a(3) [OF store_failed(2)] state_inv_clean [OF assms(2)]
    by (auto simp: state_inv_def)
next
  case (drop_ref t r)
  moreover have "os_state s = FAILED \<and> r \<noteq> ROk"
    using outcome_state [OF assms(2), of t r] state_inv_clean(2) [OF assms(2), of t] drop_ref by auto
  ultimately show ?thesis using assms(2) by (simp add: state_inv_ogo)
qed (use assms(2) in \<open>simp_all add: state_inv_ogo\<close>)

lemma Initialize_run_inv: "Initialize_step\<^sup>*\<^sup>* once_init s \<Longrightarrow> state_inv s \<and> refs_inv s"
proof (induction rule: rtranclp_induct)
  case base
  show ?case by (simp add: state_inv_def refs_inv_def holders_def once_init_def)
next
  case (step s s')
  then show ?case using Initialize_state Initialize_refs by blast
qed

section \<open>Properties\<close>

text \<open>C27: Over any interleaving of calls of \<open>Initialize\<close> from any number of threads, the initialisation
  function runs at most once, in at most one thread at a time; every call that has returned true sees
  the resource set up and every other call that has returned sees the initialisation failed, so no two
  calls disagree; and once no call is under way the reference count is the number of calls that returned true.\<close>

theorem initialize_once:
  assumes "Initialize_step\<^sup>*\<^sup>* once_init s"
  shows "os_inits s \<le> 1 \<and>
    (\<forall>t u. running_init (os_pc s t) \<and> running_init (os_pc s u) \<longrightarrow> t = u) \<and>
    (\<forall>t r. os_pc s t = ORet r \<longrightarrow> (if r = ROk then IsInitialized s \<and> os_live s else os_state s = FAILED)) \<and>
    ((\<forall>t. os_pc s t = OIdle \<or> (\<exists>r. os_pc s t = ORet r)) \<longrightarrow> os_refs s = int (card {t. os_pc s t = ORet ROk}))"
proof -
  have inv: "state_inv s" and refs: "refs_inv s" using Initialize_run_inv [OF assms] by simp_all
  have "os_inits s \<le> 1" using inv by (auto simp: state_inv_def split: init_state.splits)
  moreover have "t = u" if "running_init (os_pc s t)" "running_init (os_pc s u)" for t u
    using running_alone(1) [OF inv that(1)] that(2) by blast
  moreover have "if r = ROk then IsInitialized s \<and> os_live s else os_state s = FAILED" if "os_pc s t = ORet r" for t r
    using outcome_state [OF inv, of t r] that inv by (auto simp: IsInitialized_def state_inv_def)
  moreover have "os_refs s = int (card {t. os_pc s t = ORet ROk})" if "\<forall>t. os_pc s t = OIdle \<or> (\<exists>r. os_pc s t = ORet r)"
  proof -
    have "counted (os_pc s t) \<longleftrightarrow> os_pc s t = ORet ROk" for t using that [rule_format, of t] by auto
    then show ?thesis using refs by (simp add: refs_inv_def holders_def)
  qed
  ultimately show ?thesis by blast
qed

text \<open>One thread initialises and a second waits for it.\<close>

definition one_done :: once where
  "one_done = \<lparr>os_state = INITIALIZED, os_refs = 1, os_pc = (\<lambda>_. OIdle)(0 := ORet ROk), os_inits = 1, os_live = True\<rparr>"

lemma one_done_run: "Initialize_step\<^sup>*\<^sup>* once_init one_done"
proof -
  let ?s1 = "ogo 0 OLoad (once_init\<lparr>os_refs := 1\<rparr>)"
  let ?s2 = "ogo 0 OCas ?s1" let ?s3 = "ogo 0 OInit (?s2\<lparr>os_state := INITIALIZING\<rparr>)"
  let ?s4 = "ogo 0 (OStore ROk) (?s3\<lparr>os_inits := 1, os_live := True\<rparr>)"
  have "Initialize_step once_init ?s1" using enter [of once_init 0] by (simp add: once_init_def)
  moreover have "Initialize_step ?s1 ?s2" by (rule load_other) (simp_all add: once_init_def)
  moreover have "Initialize_step ?s2 ?s3" by (rule cas_win) (simp_all add: once_init_def)
  moreover have "Initialize_step ?s3 ?s4" using run [of ?s3 0 ROk] by (simp add: once_init_def)
  moreover have "Initialize_step ?s4 one_done"
    using store_ok [of ?s4 0] by (simp add: once_init_def one_done_def ogo_def)
  ultimately show ?thesis by (meson converse_rtranclp_into_rtranclp r_into_rtranclp)
qed

theorem initialize_once_witness:
  "IsInitialized one_done \<and> os_live one_done \<and> os_refs one_done = int (card {t. os_pc one_done t = ORet ROk})"
proof -
  have "os_pc one_done t = OIdle \<or> (\<exists>r. os_pc one_done t = ORet r)" for t by (simp add: one_done_def)
  moreover have "os_pc one_done 0 = ORet ROk" by (simp add: one_done_def)
  ultimately show ?thesis using initialize_once [OF one_done_run] by (metis (full_types))
qed

text \<open>A thread whose \<open>Initialize\<close> overlaps the last \<open>Cleanup\<close> can be told that the resource is there
  and lose it: the cleaning thread drops the last reference, the other takes a new one and finds the
  state still initialised, and then the clean-up runs.\<close>

lemma cleanup_race:
  "\<exists>s t. once_step\<^sup>*\<^sup>* once_init s \<and> os_pc s t = ORet ROk \<and> os_refs s = 1 \<and> \<not> os_live s"
proof -
  have m: "Initialize_step\<^sup>*\<^sup>* x y \<Longrightarrow> once_step\<^sup>*\<^sup>* x y" for x y
    by (metis (full_types) initialising mono_rtranclp)
  let ?s1 = "ogo 0 CSub one_done" let ?s2 = "ogo 0 CRun (?s1\<lparr>os_refs := 0\<rparr>)"
  let ?s3 = "ogo 1 OLoad (?s2\<lparr>os_refs := 1\<rparr>)" let ?s4 = "ogo 1 (ORet ROk) ?s3"
  let ?s5 = "ogo 0 CReset (?s4\<lparr>os_live := False\<rparr>)"
  have "once_step one_done ?s1" by (rule cleaning, rule start) (simp add: one_done_def)
  moreover have "once_step ?s1 ?s2" using last [of ?s1 0] by (intro cleaning) (simp add: one_done_def)
  moreover have "once_step ?s2 ?s3" using enter [of ?s2 1] by (intro initialising) (simp add: one_done_def)
  moreover have "once_step ?s3 ?s4" by (rule initialising, rule load_done) (simp_all add: one_done_def)
  moreover have "once_step ?s4 ?s5" by (rule cleaning, rule cleanup) simp
  ultimately have "once_step\<^sup>*\<^sup>* once_init ?s5"
    using m [OF one_done_run] by (meson rtranclp.rtrancl_into_rtrancl)
  then show ?thesis by (intro exI [of _ ?s5] exI [of _ 1]) simp
qed

end
