(* ===== verification/RecursiveLock.thy ===== *)
theory RecursiveLock
  imports Prelude
begin

text \<open>
  The recursive lock (\<^verbatim>\<open>JunCommon/synchronization/RecursiveLock.*\<close>): a slim reader-writer lock with the number of the thread
  that holds it and a depth. Every access to a shared member is a step of its own; any number of threads take
  steps in any order. Threads have numbers other than \<open>-1\<close>, unlock only what they locked, and nest fewer than \<open>2^31\<close> locks.
  The reader-writer lock is its documented behaviour: an exclusive owner or any number of shared ones.

  Shown: two threads never hold the lock exclusively at once, nor one exclusively and another shared; a thread that holds the lock
  takes it again without waiting; and when nobody holds it or waits, it is as it was built.
\<close>

section \<open>State and steps\<close>

record RecursiveLock =
  rl_exclusive :: bool
  rl_shared :: nat
  rl_thread_id :: u32
  rl_lockCount :: c_int

definition RecursiveLock_ctor :: RecursiveLock where
  "RecursiveLock_ctor = \<lparr>rl_exclusive = False, rl_shared = 0, rl_thread_id = -1, rl_lockCount = 0\<rparr>"

text \<open>Where a thread stands in \<open>Lock\<close> and \<open>Unlock\<close>.\<close>

datatype lock_pc = LOut | LTest | LWait | LCount | LOwner | UTest | UOwner | UCount | URelease

text \<open>\<open>rs_depth\<close> counts the locks a thread has taken and not yet given back.\<close>

record lock_sys =
  rs_lock :: RecursiveLock
  rs_pc :: "u32 \<Rightarrow> lock_pc"
  rs_depth :: "u32 \<Rightarrow> nat"

definition lgo :: "u32 \<Rightarrow> lock_pc \<Rightarrow> (RecursiveLock \<Rightarrow> RecursiveLock) \<Rightarrow> lock_sys \<Rightarrow> lock_sys" where
  "lgo t pc f s = s\<lparr>rs_lock := f (rs_lock s), rs_pc := (rs_pc s)(t := pc)\<rparr>"

definition depth_to :: "u32 \<Rightarrow> nat \<Rightarrow> lock_sys \<Rightarrow> lock_sys" where
  "depth_to t n s = s\<lparr>rs_depth := (rs_depth s)(t := n)\<rparr>"

definition lock_init :: lock_sys where
  "lock_init = \<lparr>rs_lock = RecursiveLock_ctor, rs_pc = (\<lambda>_. LOut), rs_depth = (\<lambda>_. 0)\<rparr>"

inductive Lock_step :: "u32 \<Rightarrow> lock_sys \<Rightarrow> lock_sys \<Rightarrow> bool" where
  call: "rs_pc s t = LOut \<Longrightarrow> rs_depth s t + 1 < 2 ^ 31 \<Longrightarrow> Lock_step t s (lgo t LTest id s)"
| again: "rs_pc s t = LTest \<Longrightarrow> rl_thread_id (rs_lock s) = t \<Longrightarrow>
    Lock_step t s (depth_to t (rs_depth s t + 1) (lgo t LOut (\<lambda>l. l\<lparr>rl_lockCount := rl_lockCount l + 1\<rparr>) s))"
| wait: "rs_pc s t = LTest \<Longrightarrow> rl_thread_id (rs_lock s) \<noteq> t \<Longrightarrow> Lock_step t s (lgo t LWait id s)"
| acquire: "rs_pc s t = LWait \<Longrightarrow> \<not> rl_exclusive (rs_lock s) \<Longrightarrow> rl_shared (rs_lock s) = 0 \<Longrightarrow>
    Lock_step t s (lgo t LCount (\<lambda>l. l\<lparr>rl_exclusive := True\<rparr>) s)"
| lcount: "rs_pc s t = LCount \<Longrightarrow> Lock_step t s (lgo t LOwner (\<lambda>l. l\<lparr>rl_lockCount := rl_lockCount l + 1\<rparr>) s)"
| lowner: "rs_pc s t = LOwner \<Longrightarrow> Lock_step t s (depth_to t 1 (lgo t LOut (\<lambda>l. l\<lparr>rl_thread_id := t\<rparr>) s))"

inductive Unlock_step :: "u32 \<Rightarrow> lock_sys \<Rightarrow> lock_sys \<Rightarrow> bool" where
  ucall: "rs_pc s t = LOut \<Longrightarrow> 0 < rs_depth s t \<Longrightarrow> Unlock_step t s (lgo t UTest id s)"
| nested: "rs_pc s t = UTest \<Longrightarrow> 1 <s rl_lockCount (rs_lock s) \<Longrightarrow>
    Unlock_step t s (depth_to t (rs_depth s t - 1) (lgo t LOut (\<lambda>l. l\<lparr>rl_lockCount := rl_lockCount l - 1\<rparr>) s))"
| last: "rs_pc s t = UTest \<Longrightarrow> \<not> 1 <s rl_lockCount (rs_lock s) \<Longrightarrow>
    Unlock_step t s (depth_to t (rs_depth s t - 1) (lgo t UOwner id s))"
| uowner: "rs_pc s t = UOwner \<Longrightarrow> Unlock_step t s (lgo t UCount (\<lambda>l. l\<lparr>rl_thread_id := -1\<rparr>) s)"
| ucount: "rs_pc s t = UCount \<Longrightarrow> Unlock_step t s (lgo t URelease (\<lambda>l. l\<lparr>rl_lockCount := rl_lockCount l - 1\<rparr>) s)"
| release: "rs_pc s t = URelease \<Longrightarrow> Unlock_step t s (lgo t LOut (\<lambda>l. l\<lparr>rl_exclusive := False\<rparr>) s)"

inductive Shared_step :: "lock_sys \<Rightarrow> lock_sys \<Rightarrow> bool" where
  SharedLock: "\<not> rl_exclusive (rs_lock s) \<Longrightarrow> Shared_step s (s\<lparr>rs_lock := (rs_lock s)\<lparr>rl_shared := rl_shared (rs_lock s) + 1\<rparr>\<rparr>)"
| ReleaseSharedLock: "0 < rl_shared (rs_lock s) \<Longrightarrow> Shared_step s (s\<lparr>rs_lock := (rs_lock s)\<lparr>rl_shared := rl_shared (rs_lock s) - 1\<rparr>\<rparr>)"

inductive lock_step :: "lock_sys \<Rightarrow> lock_sys \<Rightarrow> bool" where
  locking: "t \<noteq> -1 \<Longrightarrow> Lock_step t s s' \<Longrightarrow> lock_step s s'"
| unlocking: "t \<noteq> -1 \<Longrightarrow> Unlock_step t s s' \<Longrightarrow> lock_step s s'"
| sharing: "Shared_step s s' \<Longrightarrow> lock_step s s'"

inductive_cases Lock_stepE: "Lock_step t s s'"
inductive_cases Unlock_stepE: "Unlock_step t s s'"
inductive_cases Shared_stepE: "Shared_step s s'"

section \<open>The invariant\<close>

text \<open>\<open>h\<close> is the thread that has the exclusive lock. Between the steps of \<open>Lock\<close> and \<open>Unlock\<close> the count differs from the
  depth by one, and the thread number is that of the owner only while it is settled.\<close>

definition has_lock :: "lock_pc \<Rightarrow> nat \<Rightarrow> bool" where
  "has_lock pc d \<longleftrightarrow> 0 < d \<or> pc \<in> {LCount, LOwner, UOwner, UCount, URelease}"

definition extra :: "lock_pc \<Rightarrow> nat" where
  "extra pc = (if pc \<in> {LOwner, UOwner, UCount} then 1 else 0)"

definition named :: "lock_pc \<Rightarrow> bool" where
  "named pc \<longleftrightarrow> pc \<notin> {LCount, LOwner, UCount, URelease}"

definition pc_ok :: "lock_pc \<Rightarrow> nat \<Rightarrow> bool" where
  "pc_ok pc d \<longleftrightarrow> d < 2 ^ 31 \<and> (pc \<in> {LWait, LCount, LOwner, UOwner, UCount, URelease} \<longrightarrow> d = 0) \<and> (pc = UTest \<longrightarrow> 0 < d) \<and>
     (pc = LTest \<longrightarrow> d + 1 < 2 ^ 31)"

definition lock_inv :: "u32 option \<Rightarrow> lock_sys \<Rightarrow> bool" where
  "lock_inv h s \<longleftrightarrow> h \<noteq> Some (-1) \<and> (\<forall>t. has_lock (rs_pc s t) (rs_depth s t) \<longleftrightarrow> h = Some t) \<and> (\<forall>t. pc_ok (rs_pc s t) (rs_depth s t)) \<and>
     (rl_exclusive (rs_lock s) \<longleftrightarrow> h \<noteq> None) \<and> (rl_exclusive (rs_lock s) \<longrightarrow> rl_shared (rs_lock s) = 0) \<and>
     rl_thread_id (rs_lock s) = (case h of None \<Rightarrow> -1 | Some t \<Rightarrow> if named (rs_pc s t) then t else -1) \<and>
     rl_lockCount (rs_lock s) = (case h of None \<Rightarrow> 0 | Some t \<Rightarrow> of_nat (rs_depth s t + extra (rs_pc s t)))"

lemma count_test: "n < 2 ^ 31 \<Longrightarrow> 1 <s (of_nat n :: c_int) \<longleftrightarrow> 1 < n"
proof -
  assume n: "n < 2 ^ 31"
  have "sint (of_nat n :: c_int) = int n" using n by (rule sint_of_nat_c_int)
  then show ?thesis by (simp add: word_sless_alt)
qed

lemma Lock_step_inv:
  assumes "Lock_step t s s'" "t \<noteq> -1" "lock_inv h s"
  shows "\<exists>h'. lock_inv h' s'"
proof -
  have ht: "has_lock (rs_pc s u) (rs_depth s u) \<longleftrightarrow> h = Some u" "pc_ok (rs_pc s u) (rs_depth s u)" for u using assms(3) by (auto simp: lock_inv_def)
  show ?thesis using assms(1)
  proof cases
    case call
    then show ?thesis using assms(3) ht [of t]
      by (intro exI [of _ h]) (auto simp: lock_inv_def lgo_def has_lock_def pc_ok_def named_def extra_def split: option.splits)
  next
    case again
    then have "h = Some t" using assms(2,3) by (auto simp: lock_inv_def split: option.splits if_splits)
    then show ?thesis using again assms(3) ht [of t]
      by (intro exI [of _ h]) (auto simp: lock_inv_def lgo_def depth_to_def has_lock_def pc_ok_def named_def extra_def)
  next
    case wait
    then have "h \<noteq> Some t" using assms(3) by (auto simp: lock_inv_def named_def)
    then show ?thesis using wait assms(3) ht [of t]
      by (intro exI [of _ h]) (auto simp: lock_inv_def lgo_def has_lock_def pc_ok_def named_def extra_def split: option.splits)
  next
    case acquire
    then have "h = None" using assms(3) by (auto simp: lock_inv_def)
    then show ?thesis using acquire assms(2,3) ht [of t]
      by (intro exI [of _ "Some t"]) (auto simp: lock_inv_def lgo_def has_lock_def pc_ok_def named_def extra_def)
  next
    case lcount
    then have "h = Some t" using ht [of t] by (auto simp: has_lock_def)
    then show ?thesis using lcount assms(3) ht [of t]
      by (intro exI [of _ h]) (auto simp: lock_inv_def lgo_def has_lock_def pc_ok_def named_def extra_def)
  next
    case lowner
    then have "h = Some t" using ht [of t] by (auto simp: has_lock_def)
    then show ?thesis using lowner assms(3) ht [of t]
      by (intro exI [of _ h]) (auto simp: lock_inv_def lgo_def depth_to_def has_lock_def pc_ok_def named_def extra_def)
  qed
qed

text \<open>A step of the owner that keeps the lock.\<close>

lemma owner_moves:
  assumes "lock_inv (Some t) s" "rs_pc s' = (rs_pc s)(t := pc)" "rs_depth s' = (rs_depth s)(t := d)" "has_lock pc d" "pc_ok pc d"
    "rl_exclusive (rs_lock s') = rl_exclusive (rs_lock s)" "rl_shared (rs_lock s') = rl_shared (rs_lock s)"
    "rl_thread_id (rs_lock s') = (if named pc then t else -1)" "rl_lockCount (rs_lock s') = of_nat (d + extra pc)"
  shows "\<exists>h. lock_inv h s'"
proof -
  have "has_lock (rs_pc s' u) (rs_depth s' u) \<longleftrightarrow> Some t = Some u" "pc_ok (rs_pc s' u) (rs_depth s' u)" for u
    using assms(1-5) by (cases "u = t"; simp add: lock_inv_def)+
  then have "lock_inv (Some t) s'" using assms(1-3,6-9) by (simp add: lock_inv_def)
  then show ?thesis by blast
qed

lemma Unlock_owner:
  assumes "Unlock_step t s s'" "lock_inv h s"
  shows "h = Some t"
proof -
  have ht: "has_lock (rs_pc s t) (rs_depth s t) \<longleftrightarrow> h = Some t" "pc_ok (rs_pc s t) (rs_depth s t)" using assms(2) by (auto simp: lock_inv_def)
  show ?thesis using assms(1)
    by (rule Unlock_stepE) (use ht in \<open>simp_all add: has_lock_def pc_ok_def\<close>)
qed

lemma Unlock_step_inv:
  assumes "Unlock_step t s s'" "lock_inv h s"
  shows "\<exists>h'. lock_inv h' s'"
proof -
  have own: "lock_inv (Some t) s" using Unlock_owner [OF assms] assms(2) by simp
  then have ok: "pc_ok (rs_pc s t) (rs_depth s t)" "\<not> has_lock (rs_pc s u) (rs_depth s u) \<or> u = t" "pc_ok (rs_pc s u) (rs_depth s u)" for u
    by (auto simp: lock_inv_def)
  have c: "rl_lockCount (rs_lock s) = of_nat (rs_depth s t + extra (rs_pc s t))" "rl_thread_id (rs_lock s) = (if named (rs_pc s t) then t else -1)"
    using own by (simp_all add: lock_inv_def)
  show ?thesis using assms(1)
  proof cases
    case ucall
    then show ?thesis using ok(1) c
      by (intro owner_moves [OF own, where pc = UTest and d = "rs_depth s t"]) (simp_all add: lgo_def has_lock_def pc_ok_def named_def extra_def)
  next
    case nested
    then have "1 < rs_depth s t" using c(1) ok(1) count_test [of "rs_depth s t"] by (simp add: extra_def pc_ok_def)
    then obtain d where d: "rs_depth s t = Suc d" "0 < d" by (cases "rs_depth s t") auto
    show ?thesis using nested d ok(1) c
      by (intro owner_moves [OF own, where pc = LOut and d = d]) (simp_all add: lgo_def depth_to_def has_lock_def pc_ok_def named_def extra_def)
  next
    case last
    then have d: "rs_depth s t = 1" using c(1) ok(1) count_test [of "rs_depth s t"] by (simp add: extra_def pc_ok_def)
    show ?thesis using last d ok(1) c
      by (intro owner_moves [OF own, where pc = UOwner and d = 0]) (simp_all add: lgo_def depth_to_def has_lock_def pc_ok_def named_def extra_def)
  next
    case uowner
    then show ?thesis using ok(1) c
      by (intro owner_moves [OF own, where pc = UCount and d = 0]) (simp_all add: lgo_def has_lock_def pc_ok_def named_def extra_def fun_upd_idem)
  next
    case ucount
    then show ?thesis using ok(1) c
      by (intro owner_moves [OF own, where pc = URelease and d = 0]) (simp_all add: lgo_def has_lock_def pc_ok_def named_def extra_def fun_upd_idem)
  next
    case release
    have d: "rs_depth s t = 0" using ok(1) release by (simp add: pc_ok_def)
    have mine: "\<not> has_lock LOut 0" "pc_ok LOut 0" by (simp_all add: has_lock_def pc_ok_def)
    have "\<not> has_lock (rs_pc s' u) (rs_depth s' u)" "pc_ok (rs_pc s' u) (rs_depth s' u)" for u
      using release ok(2,3) [of u] d mine by (cases "u = t"; simp add: lgo_def)+
    moreover have "rl_lockCount (rs_lock s) = 0" "rl_thread_id (rs_lock s) = -1" using c d release by (simp_all add: extra_def named_def)
    ultimately show ?thesis using release by (intro exI [of _ None]) (simp add: lock_inv_def lgo_def)
  qed
qed

lemma lock_step_inv:
  assumes "lock_step s s'" "lock_inv h s"
  shows "\<exists>h'. lock_inv h' s'"
  using assms(1)
proof cases
  case sharing
  then show ?thesis using assms(2) by (cases rule: Shared_step.cases) (auto simp: lock_inv_def split: option.splits intro!: exI [of _ h])
qed (use Lock_step_inv Unlock_step_inv assms(2) in blast)+

lemma lock_reachable_inv: "lock_step\<^sup>*\<^sup>* lock_init s \<Longrightarrow> \<exists>h. lock_inv h s"
proof (induction rule: rtranclp_induct)
  case base
  have "lock_inv None lock_init" by (simp add: lock_inv_def lock_init_def RecursiveLock_ctor_def has_lock_def pc_ok_def)
  then show ?case by blast
qed (use lock_step_inv in blast)

section \<open>Properties\<close>

text \<open>C34: The lock excludes and re-enters. In every state that threads reach by locking, unlocking and sharing, in any interleaving: a
  thread inside the lock is the only one, and nobody shares it; a thread inside the lock that calls \<open>Lock\<close> does not
  wait; and when no thread is inside the lock or on its way in or out, the lock is free, names no thread and counts 0.\<close>

theorem lock_excludes:
  assumes "lock_step\<^sup>*\<^sup>* lock_init s"
  shows "(0 < rs_depth s t \<longrightarrow> 0 < rs_depth s u \<longrightarrow> u = t) \<and> (0 < rs_depth s t \<longrightarrow> rl_shared (rs_lock s) = 0) \<and>
    (0 < rs_depth s t \<longrightarrow> rs_pc s t = LTest \<longrightarrow> \<not> Lock_step t s (lgo t LWait id s) \<and> (\<exists>s'. Lock_step t s s' \<and> rs_depth s' t = rs_depth s t + 1)) \<and>
    ((\<forall>v. rs_pc s v = LOut \<and> rs_depth s v = 0) \<longrightarrow> rs_lock s = RecursiveLock_ctor\<lparr>rl_shared := rl_shared (rs_lock s)\<rparr>)"
proof -
  obtain h where inv: "lock_inv h s" using lock_reachable_inv assms by blast
  have h: "0 < rs_depth s v \<Longrightarrow> h = Some v" for v using inv by (auto simp: lock_inv_def has_lock_def)
  have re: "\<not> Lock_step t s (lgo t LWait id s) \<and> (\<exists>s'. Lock_step t s s' \<and> rs_depth s' t = rs_depth s t + 1)" if pc: "0 < rs_depth s t" "rs_pc s t = LTest"
  proof -
    have id: "rl_thread_id (rs_lock s) = t" using inv h [OF pc(1)] pc(2) by (simp add: lock_inv_def named_def)
    have "\<not> Lock_step t s (lgo t LWait id s)"
      using pc(2) id by (auto elim!: Lock_stepE simp: lgo_def depth_to_def dest!: arg_cong [where f = "\<lambda>s. rs_pc s t"])
    then show ?thesis using Lock_step.again [OF pc(2) id] by (auto simp: depth_to_def)
  qed
  have "rs_lock s = RecursiveLock_ctor\<lparr>rl_shared := rl_shared (rs_lock s)\<rparr>" if "\<forall>v. rs_pc s v = LOut \<and> rs_depth s v = 0"
  proof -
    have "h = None" using inv that by (cases h) (auto simp: lock_inv_def has_lock_def)
    then show ?thesis using inv by (cases "rs_lock s") (simp add: lock_inv_def RecursiveLock_ctor_def)
  qed
  then show ?thesis using h re inv by (auto simp: lock_inv_def)
qed

text \<open>An example: thread 1 takes the lock.\<close>

definition locked_once :: lock_sys where
  "locked_once = depth_to 1 1 (lgo 1 LOut (\<lambda>l. l\<lparr>rl_thread_id := 1\<rparr>) (lgo 1 LOwner (\<lambda>l. l\<lparr>rl_lockCount := rl_lockCount l + 1\<rparr>)
    (lgo 1 LCount (\<lambda>l. l\<lparr>rl_exclusive := True\<rparr>) (lgo 1 LWait id (lgo 1 LTest id lock_init)))))"

lemma one_locked: "lock_step\<^sup>*\<^sup>* lock_init locked_once"
proof -
  let ?s1 = "lgo 1 LTest id lock_init" let ?s2 = "lgo 1 LWait id ?s1" let ?s3 = "lgo 1 LCount (\<lambda>l. l\<lparr>rl_exclusive := True\<rparr>) ?s2"
  let ?s4 = "lgo 1 LOwner (\<lambda>l. l\<lparr>rl_lockCount := rl_lockCount l + 1\<rparr>) ?s3"
  have "lock_step lock_init ?s1" by (rule locking [of 1], simp, rule Lock_step.call) (simp_all add: lock_init_def)
  moreover have "lock_step ?s1 ?s2" by (rule locking [of 1], simp, rule Lock_step.wait) (simp_all add: lock_init_def lgo_def RecursiveLock_ctor_def)
  moreover have "lock_step ?s2 ?s3" by (rule locking [of 1], simp, rule Lock_step.acquire) (simp_all add: lock_init_def lgo_def RecursiveLock_ctor_def)
  moreover have "lock_step ?s3 ?s4" by (rule locking [of 1], simp, rule Lock_step.lcount) (simp add: lgo_def)
  moreover have "lock_step ?s4 (depth_to 1 1 (lgo 1 LOut (\<lambda>l. l\<lparr>rl_thread_id := 1\<rparr>) ?s4))" by (rule locking [of 1], simp, rule Lock_step.lowner) (simp add: lgo_def)
  ultimately show ?thesis unfolding locked_once_def by (meson converse_rtranclp_into_rtranclp rtranclp.rtrancl_refl)
qed

theorem lock_excludes_witness:
  "rs_depth locked_once 1 = 1 \<and> rs_depth locked_once 2 = 0 \<and> rl_shared (rs_lock locked_once) = 0"
  using lock_excludes [OF one_locked, of 1 2] by (simp add: locked_once_def depth_to_def lgo_def lock_init_def)

end
