(* ===== verification/ThreadPool.thy ===== *)
theory ThreadPool
  imports Prelude
begin

text \<open>
  The semaphore-backed job queue, the thread pool on it (\<^verbatim>\<open>JunCommon/queue/JobQueue.h\<close>) and packet jobs
  (\<^verbatim>\<open>JunCommon/queue/PacketJob.h\<close>). A job function acts on an application state and says whether it threw. The
  lock-free queue is its list of jobs. A wait on the semaphore succeeds if it is signalled and times out
  otherwise.

  Shown: for any sequence of submissions and worker rounds, jobs run in the order of submission, each
  once, and a round runs a job whenever one is pending; after \<open>Shutdown\<close> the pending jobs are never run;
  every packet job reaches the handler of its kind with what it was made from.
\<close>

section \<open>The job queue\<close>

record 'u pool_job =
  pj_function :: "('u \<Rightarrow> bool \<times> 'u) option"
  pj_priority :: u32

record 'u JobQueue =
  qu_jobs :: "'u pool_job list"
  qu_semaphore :: nat
  qu_isShutdown :: bool

datatype pool_error = NoSemaphore

definition MAXLONG :: nat where
  "MAXLONG = 2147483647"

text \<open>\<open>created\<close> tells whether the semaphore could be made.\<close>

definition JobQueue_ctor :: "bool \<Rightarrow> pool_error + 'u JobQueue" where
  "JobQueue_ctor created =
     (if \<not> created then Inl NoSemaphore else Inr \<lparr>qu_jobs = [], qu_semaphore = 0, qu_isShutdown = False\<rparr>)"

text \<open>A release beyond the maximum of the semaphore fails and changes nothing.\<close>

definition ReleaseSemaphore :: "'u JobQueue \<Rightarrow> 'u JobQueue" where
  "ReleaseSemaphore q = (if qu_semaphore q < MAXLONG then q\<lparr>qu_semaphore := qu_semaphore q + 1\<rparr> else q)"

definition JobQueue_Enqueue :: "'u pool_job \<Rightarrow> 'u JobQueue \<Rightarrow> 'u JobQueue" where
  "JobQueue_Enqueue job q =
     (if qu_isShutdown q then q else ReleaseSemaphore (q\<lparr>qu_jobs := qu_jobs q @ [job]\<rparr>))"

definition JobQueue_Dequeue :: "'u JobQueue \<Rightarrow> 'u pool_job option \<times> 'u JobQueue" where
  "JobQueue_Dequeue q =
     (if qu_isShutdown q then (None, q)
      else if qu_semaphore q = 0 then (None, q)
      else let q1 = q\<lparr>qu_semaphore := qu_semaphore q - 1\<rparr> in
        if qu_isShutdown q1 then (None, q1)
        else case qu_jobs q1 of [] \<Rightarrow> (None, q1) | job # jobs \<Rightarrow> (Some job, q1\<lparr>qu_jobs := jobs\<rparr>))"

definition GetPendingCount :: "'u JobQueue \<Rightarrow> nat" where
  "GetPendingCount q = length (qu_jobs q)"

definition JobQueue_Shutdown :: "'u JobQueue \<Rightarrow> 'u JobQueue" where
  "JobQueue_Shutdown q = (ReleaseSemaphore ^^ 100) (q\<lparr>qu_isShutdown := True\<rparr>)"

section \<open>The thread pool\<close>

record 'u ThreadPool =
  tp_jobQueue :: "'u JobQueue"
  tp_workers :: nat
  tp_isShutdown :: bool
  tp_processedJobCount :: u32

definition ThreadPool_ctor :: "bool \<Rightarrow> nat \<Rightarrow> pool_error + 'u ThreadPool" where
  "ThreadPool_ctor created threadCount =
     rbind (JobQueue_ctor created) (\<lambda>q.
       Inr \<lparr>tp_jobQueue = q, tp_workers = threadCount, tp_isShutdown = False, tp_processedJobCount = 0\<rparr>)"

definition Submit :: "'u pool_job \<Rightarrow> 'u ThreadPool \<Rightarrow> 'u ThreadPool" where
  "Submit job tp = (if tp_isShutdown tp then tp else tp\<lparr>tp_jobQueue := JobQueue_Enqueue job (tp_jobQueue tp)\<rparr>)"

text \<open>The overload that binds a function to its arguments.\<close>

definition Submit_bind :: "('a \<Rightarrow> 'u \<Rightarrow> bool \<times> 'u) \<Rightarrow> 'a \<Rightarrow> 'u ThreadPool \<Rightarrow> 'u ThreadPool" where
  "Submit_bind func args tp =
     (if tp_isShutdown tp then tp
      else tp\<lparr>tp_jobQueue := JobQueue_Enqueue \<lparr>pj_function = Some (func args), pj_priority = 0\<rparr> (tp_jobQueue tp)\<rparr>)"

definition ThreadPool_Shutdown :: "'u ThreadPool \<Rightarrow> 'u ThreadPool" where
  "ThreadPool_Shutdown tp =
     (if tp_isShutdown tp then tp
      else tp\<lparr>tp_isShutdown := True, tp_jobQueue := JobQueue_Shutdown (tp_jobQueue tp), tp_workers := 0\<rparr>)"

text \<open>What a job does: nothing without a function; an exception keeps its effects and is not counted.\<close>

definition run_pool_job :: "'u pool_job \<Rightarrow> u32 \<times> 'u \<Rightarrow> u32 \<times> 'u" where
  "run_pool_job job = (\<lambda>(n, u). case pj_function job of
     None \<Rightarrow> (n, u)
   | Some f \<Rightarrow> (let (threw, u') = f u in if threw then (n, u') else (n + 1, u')))"

text \<open>One round of the loop of a worker thread.\<close>

definition worker_round :: "'u ThreadPool \<times> 'u \<Rightarrow> 'u ThreadPool \<times> 'u" where
  "worker_round = (\<lambda>(tp, u).
     if tp_isShutdown tp then (tp, u)
     else case JobQueue_Dequeue (tp_jobQueue tp) of
       (None, q) \<Rightarrow> (tp\<lparr>tp_jobQueue := q\<rparr>, u)
     | (Some job, q) \<Rightarrow> (let (n, u') = run_pool_job job (tp_processedJobCount tp, u)
                       in (tp\<lparr>tp_jobQueue := q, tp_processedJobCount := n\<rparr>, u')))"

section \<open>Packet jobs\<close>

datatype PacketJobType = RECV_PACKET | CLIENT_JOIN | CLIENT_LEAVE | CONNECTION_REQUEST | SEND_COMPLETE | CUSTOM

record 'a SessionInfo =
  si_index :: u32
  si_unique :: u32
  si_clientAddr :: 'a

definition SessionInfo_ctor :: "'a \<Rightarrow> u32 \<Rightarrow> u32 \<Rightarrow> 'a SessionInfo" where
  "SessionInfo_ctor no_addr index unique = \<lparr>si_index = index, si_unique = unique, si_clientAddr = no_addr\<rparr>"

text \<open>The union reads the two halves as one number, the index in its low half.\<close>

definition sessionId :: "'a SessionInfo \<Rightarrow> u64" where
  "sessionId si = word_of_int (uint (si_index si) + 2 ^ 32 * uint (si_unique si))"

record 'a PacketJob =
  pk_jobType :: PacketJobType
  pk_sessionInfo :: "'a SessionInfo"
  pk_packet :: "addr option"
  pk_userData :: "addr option"

definition CreateRecvJob :: "'a SessionInfo \<Rightarrow> addr option \<Rightarrow> 'a PacketJob" where
  "CreateRecvJob sessionInfo packet =
     \<lparr>pk_jobType = RECV_PACKET, pk_sessionInfo = sessionInfo, pk_packet = packet, pk_userData = None\<rparr>"

definition CreateJoinJob :: "'a SessionInfo \<Rightarrow> 'a \<Rightarrow> 'a PacketJob" where
  "CreateJoinJob sessionInfo clientAddr =
     \<lparr>pk_jobType = CLIENT_JOIN, pk_sessionInfo = sessionInfo\<lparr>si_clientAddr := clientAddr\<rparr>, pk_packet = None, pk_userData = None\<rparr>"

definition CreateLeaveJob :: "'a SessionInfo \<Rightarrow> 'a PacketJob" where
  "CreateLeaveJob sessionInfo =
     \<lparr>pk_jobType = CLIENT_LEAVE, pk_sessionInfo = sessionInfo, pk_packet = None, pk_userData = None\<rparr>"

definition CreateConnectionRequestJob :: "'a \<Rightarrow> addr option \<Rightarrow> 'a PacketJob" where
  "CreateConnectionRequestJob clientAddr userData =
     \<lparr>pk_jobType = CONNECTION_REQUEST, pk_sessionInfo = SessionInfo_ctor clientAddr 0 0, pk_packet = None, pk_userData = userData\<rparr>"

definition ToJob :: "('a PacketJob \<Rightarrow> 'u \<Rightarrow> bool \<times> 'u) \<Rightarrow> u32 \<Rightarrow> 'a PacketJob \<Rightarrow> 'u pool_job" where
  "ToJob handler priority job = \<lparr>pj_function = Some (handler job), pj_priority = priority\<rparr>"

text \<open>The virtual functions of a packet job handler.\<close>

record ('a, 'u) packet_handler =
  ph_recv :: "'a SessionInfo \<Rightarrow> addr option \<Rightarrow> 'u \<Rightarrow> bool \<times> 'u"
  ph_join :: "'a SessionInfo \<Rightarrow> 'a \<Rightarrow> 'u \<Rightarrow> bool \<times> 'u"
  ph_leave :: "'a SessionInfo \<Rightarrow> 'u \<Rightarrow> bool \<times> 'u"
  ph_request :: "'a \<Rightarrow> addr option \<Rightarrow> 'u \<Rightarrow> bool \<times> 'u"

definition HandlePacketJob :: "('a, 'u) packet_handler \<Rightarrow> 'a PacketJob \<Rightarrow> 'u \<Rightarrow> bool \<times> 'u" where
  "HandlePacketJob ph job u = (case pk_jobType job of
     RECV_PACKET \<Rightarrow> ph_recv ph (pk_sessionInfo job) (pk_packet job) u
   | CLIENT_JOIN \<Rightarrow> ph_join ph (pk_sessionInfo job) (si_clientAddr (pk_sessionInfo job)) u
   | CLIENT_LEAVE \<Rightarrow> ph_leave ph (pk_sessionInfo job) u
   | CONNECTION_REQUEST \<Rightarrow> ph_request ph (si_clientAddr (pk_sessionInfo job)) (pk_userData job) u
   | _ \<Rightarrow> (False, u))"

section \<open>Facts\<close>

datatype 'u pool_event = SubmitJob "'u pool_job" | WorkerRound

fun pool_step :: "'u pool_event \<Rightarrow> 'u ThreadPool \<times> 'u \<Rightarrow> 'u ThreadPool \<times> 'u" where
  "pool_step (SubmitJob job) (tp, u) = (Submit job tp, u)"
| "pool_step WorkerRound (tp, u) = worker_round (tp, u)"

fun submitted :: "'u pool_event list \<Rightarrow> 'u pool_job list" where
  "submitted [] = []"
| "submitted (SubmitJob job # es) = job # submitted es"
| "submitted (WorkerRound # es) = submitted es"

text \<open>How many jobs have been taken when \<open>n\<close> are pending: a round takes one if there is one.\<close>

fun taken :: "nat \<Rightarrow> 'u pool_event list \<Rightarrow> nat" where
  "taken n [] = 0"
| "taken n (SubmitJob job # es) = taken (Suc n) es"
| "taken n (WorkerRound # es) = (if n = 0 then taken 0 es else Suc (taken (n - 1) es))"

definition pool_inv :: "'u ThreadPool \<Rightarrow> bool" where
  "pool_inv tp \<longleftrightarrow> \<not> tp_isShutdown tp \<and> \<not> qu_isShutdown (tp_jobQueue tp) \<and>
     qu_semaphore (tp_jobQueue tp) = length (qu_jobs (tp_jobQueue tp))"

lemma Submit_inv:
  assumes "pool_inv tp" "length (qu_jobs (tp_jobQueue tp)) < MAXLONG"
  shows "pool_inv (Submit job tp)" "qu_jobs (tp_jobQueue (Submit job tp)) = qu_jobs (tp_jobQueue tp) @ [job]"
    "tp_processedJobCount (Submit job tp) = tp_processedJobCount tp"
  using assms by (simp_all add: pool_inv_def Submit_def JobQueue_Enqueue_def ReleaseSemaphore_def)

lemma round_idle:
  assumes "pool_inv tp" "qu_jobs (tp_jobQueue tp) = []"
  shows "worker_round (tp, u) = (tp, u)"
  using assms by (simp add: pool_inv_def worker_round_def JobQueue_Dequeue_def)

lemma round_runs:
  assumes "pool_inv tp" "qu_jobs (tp_jobQueue tp) = job # jobs"
  obtains tp' n u' where "worker_round (tp, u) = (tp', u')" "run_pool_job job (tp_processedJobCount tp, u) = (n, u')"
    "pool_inv tp'" "qu_jobs (tp_jobQueue tp') = jobs" "tp_processedJobCount tp' = n"
proof -
  obtain n u' where r: "run_pool_job job (tp_processedJobCount tp, u) = (n, u')" by (metis prod.exhaust)
  let ?q = "(tp_jobQueue tp)\<lparr>qu_semaphore := length jobs, qu_jobs := jobs\<rparr>"
  have "worker_round (tp, u) = (tp\<lparr>tp_jobQueue := ?q, tp_processedJobCount := n\<rparr>, u')"
    using assms r by (simp add: pool_inv_def worker_round_def JobQueue_Dequeue_def)
  then show thesis by (rule that [OF _ r]) (use assms in \<open>simp_all add: pool_inv_def\<close>)
qed

lemma taken_bound: "taken n es \<le> n + length (submitted es)"
  by (induction n es rule: taken.induct) auto

lemma pool_run:
  assumes "pool_inv tp" "length (qu_jobs (tp_jobQueue tp)) + length (submitted es) \<le> MAXLONG"
    "fold pool_step es (tp, u) = (tp', u')"
  shows "pool_inv tp' \<and>
    qu_jobs (tp_jobQueue tp') = drop (taken (length (qu_jobs (tp_jobQueue tp))) es) (qu_jobs (tp_jobQueue tp) @ submitted es) \<and>
    (tp_processedJobCount tp', u') =
      fold run_pool_job (take (taken (length (qu_jobs (tp_jobQueue tp))) es) (qu_jobs (tp_jobQueue tp) @ submitted es))
        (tp_processedJobCount tp, u)"
  using assms
proof (induction es arbitrary: tp u)
  case (Cons e es)
  show ?case
  proof (cases e)
    case (SubmitJob job)
    note i = Submit_inv [OF Cons.prems(1), of job]
    have "length (qu_jobs (tp_jobQueue tp)) < MAXLONG" using Cons.prems(2) SubmitJob by simp
    with i Cons.IH [of "Submit job tp" u] Cons.prems(2,3) SubmitJob show ?thesis by simp
  next
    case WorkerRound
    show ?thesis
    proof (cases "qu_jobs (tp_jobQueue tp)")
      case Nil
      then show ?thesis
        using Cons.IH [of tp u] Cons.prems round_idle [OF Cons.prems(1) Nil] WorkerRound by simp
    next
      case (Cons job jobs)
      obtain tp1 n u1 where r: "worker_round (tp, u) = (tp1, u1)" "run_pool_job job (tp_processedJobCount tp, u) = (n, u1)"
          "pool_inv tp1" "qu_jobs (tp_jobQueue tp1) = jobs" "tp_processedJobCount tp1 = n"
        by (rule round_runs [OF Cons.prems(1) Cons])
      show ?thesis
        using Cons.IH [OF r(3), of u1] Cons.prems(2,3) WorkerRound r Cons by simp
    qed
  qed
qed simp

lemma ReleaseSemaphore_fields [simp]:
  "qu_jobs ((ReleaseSemaphore ^^ n) q) = qu_jobs q" "qu_isShutdown ((ReleaseSemaphore ^^ n) q) = qu_isShutdown q"
  by (induction n) (simp_all add: ReleaseSemaphore_def)

lemma JobQueue_Shutdown_jobs [simp]: "qu_jobs (JobQueue_Shutdown q) = qu_jobs q"
  unfolding JobQueue_Shutdown_def ReleaseSemaphore_fields by simp

lemma shut_step: "tp_isShutdown tp \<Longrightarrow> pool_step e (tp, u) = (tp, u)"
  by (cases e) (simp_all add: Submit_def worker_round_def)

lemma shut_run: "tp_isShutdown tp \<Longrightarrow> fold pool_step es (tp, u) = (tp, u)"
  by (induction es) (simp_all add: shut_step)

text \<open>Every packet job reaches the handler of its kind.\<close>

lemma packet_job_dispatch:
  "HandlePacketJob ph (CreateRecvJob si packet) u = ph_recv ph si packet u"
  "HandlePacketJob ph (CreateJoinJob si address) u = ph_join ph (si\<lparr>si_clientAddr := address\<rparr>) address u"
  "HandlePacketJob ph (CreateLeaveJob si) u = ph_leave ph si u"
  "HandlePacketJob ph (CreateConnectionRequestJob address userData) u = ph_request ph address userData u"
  by (simp_all add: HandlePacketJob_def CreateRecvJob_def CreateJoinJob_def CreateLeaveJob_def
      CreateConnectionRequestJob_def SessionInfo_ctor_def)

section \<open>Properties\<close>


text \<open>A job that adds and a job that throws.\<close>

definition add_job :: "nat \<Rightarrow> nat pool_job" where
  "add_job k = \<lparr>pj_function = Some (\<lambda>u. (False, 10 * u + k)), pj_priority = 0\<rparr>"

definition throw_job :: "nat pool_job" where
  "throw_job = \<lparr>pj_function = Some (\<lambda>u. (True, 10 * u)), pj_priority = 0\<rparr>"


text \<open>\<open>Shutdown\<close> abandons the jobs still queued: whatever is submitted or done by workers afterwards,
  the queue keeps exactly the jobs it had, none of them runs, and the application state and the counter stay as
  they are.\<close>

lemma shutdown_abandons_jobs:
  "\<exists>tp'. fold pool_step es (ThreadPool_Shutdown tp, u) = (tp', u) \<and>
    qu_jobs (tp_jobQueue tp') = qu_jobs (tp_jobQueue tp) \<and> tp_processedJobCount tp' = tp_processedJobCount tp \<and>
    tp_isShutdown tp'"
proof -
  have "tp_isShutdown (ThreadPool_Shutdown tp)" by (simp add: ThreadPool_Shutdown_def)
  moreover have "qu_jobs (tp_jobQueue (ThreadPool_Shutdown tp)) = qu_jobs (tp_jobQueue tp)"
    "tp_processedJobCount (ThreadPool_Shutdown tp) = tp_processedJobCount tp"
    by (simp_all add: ThreadPool_Shutdown_def)
  ultimately show ?thesis by (intro exI [of _ "ThreadPool_Shutdown tp"]) (simp add: shut_run)
qed

end
