(* ===== verification/IOCPManager.thy ===== *)
theory IOCPManager
  imports Prelude
begin

text \<open>
  The life of the I/O core (\<^verbatim>\<open>JunCore/network/IOCPManager.h\<close>: builder, construction, shutdown; the first lines of
  \<open>RunWorkerThread\<close>) and its byte rates (\<^verbatim>\<open>JunCommon/timer/SlidingWindowCounter.h\<close>). Times are ticks in
  milliseconds passed as arguments, the arithmetic of \<open>double\<close> is an argument.

  Shown: a counter is a window of sixty one-second slots, newest first, that a record shifts by the whole
  seconds since the last shift, and an average sums the slots of its span; and the workers of a
  second manager of a process store their counters outside its vectors.
\<close>

section \<open>The sliding window\<close>

record TimeWindowCounter =
  tw_samples :: "u64 list"
  tw_write_pos :: nat
  tw_last_update_ms :: u64

definition max_samples :: nat where
  "max_samples = 60"

definition TimeWindowCounter_ctor :: "u64 \<Rightarrow> TimeWindowCounter" where
  "TimeWindowCounter_ctor now_ms = \<lparr>tw_samples = replicate max_samples 0, tw_write_pos = 0, tw_last_update_ms = now_ms\<rparr>"

definition get_elapsed_seconds :: "u64 \<Rightarrow> TimeWindowCounter \<Rightarrow> c_int" where
  "get_elapsed_seconds now_ms c = ucast ((now_ms - tw_last_update_ms c) div 1000)"

text \<open>One round of the loop that opens new slots.\<close>

definition next_slot :: "TimeWindowCounter \<Rightarrow> TimeWindowCounter" where
  "next_slot c =
     (let pos = (tw_write_pos c + 1) mod max_samples
      in c\<lparr>tw_write_pos := pos, tw_samples := (tw_samples c)[pos := 0]\<rparr>)"

definition advance_time_window :: "u64 \<Rightarrow> TimeWindowCounter \<Rightarrow> TimeWindowCounter" where
  "advance_time_window now_ms c =
     (let elapsed = get_elapsed_seconds now_ms c in
      if 1 \<le> sint elapsed
      then ((next_slot ^^ min (nat (sint elapsed)) max_samples) c)\<lparr>tw_last_update_ms := now_ms\<rparr>
      else c)"

definition tw_record :: "u64 \<Rightarrow> u64 \<Rightarrow> TimeWindowCounter \<Rightarrow> TimeWindowCounter" where
  "tw_record now_ms value c =
     (let c1 = advance_time_window now_ms c
      in c1\<lparr>tw_samples := (tw_samples c1)[tw_write_pos c1 := tw_samples c1 ! tw_write_pos c1 + value]\<rparr>)"

text \<open>The total and the divisor of \<open>get_average\<close>; without them the result is 0.\<close>

definition get_average :: "u64 \<Rightarrow> c_int \<Rightarrow> TimeWindowCounter \<Rightarrow> (u64 \<times> c_int) option" where
  "get_average now_ms seconds c =
     (if sint seconds \<le> 0 \<or> int max_samples < sint seconds then None
      else
        let time_gap = get_elapsed_seconds now_ms c in
        if sint seconds \<le> sint time_gap then None
        else
          let valid_seconds = sint seconds - sint time_gap
          in Some (sum_list (map (\<lambda>i. tw_samples c ! nat ((int (tw_write_pos c) - int i + int max_samples) mod int max_samples))
                     [0..<nat valid_seconds]), seconds))"

section \<open>The manager\<close>

record IOCPManager =
  im_iocpHandle :: u64
  im_workerThreads :: nat
  im_shutdown :: bool
  im_enableMonitoring :: bool
  im_recvCounters :: "TimeWindowCounter option list"
  im_sendCounters :: "TimeWindowCounter option list"
  im_posted :: nat

record Builder =
  bd_workerCount :: c_int
  bd_enableMonitoring :: bool

datatype iocp_error = CreatePortFailed | BadLength

definition INVALID_HANDLE_VALUE :: u64 where
  "INVALID_HANDLE_VALUE = - 1"

definition IOCP_Create :: Builder where
  "IOCP_Create = \<lparr>bd_workerCount = 5, bd_enableMonitoring = False\<rparr>"

definition WithWorkerCount :: "c_int \<Rightarrow> Builder \<Rightarrow> Builder" where
  "WithWorkerCount count b = b\<lparr>bd_workerCount := count\<rparr>"

definition WithMonitoring :: "bool \<Rightarrow> Builder \<Rightarrow> Builder" where
  "WithMonitoring enable b = b\<lparr>bd_enableMonitoring := enable\<rparr>"

text \<open>\<open>port\<close> is what \<open>CreateIoCompletionPort\<close> returned; a negative count becomes a length that \<open>resize\<close>
  refuses.\<close>

definition IOCPManager_ctor :: "u64 \<Rightarrow> c_int \<Rightarrow> bool \<Rightarrow> iocp_error + IOCPManager" where
  "IOCPManager_ctor port workerCount enableMonitoring =
     (if port = 0 then Inl CreatePortFailed
      else if sint workerCount < 0 then Inl BadLength
      else Inr \<lparr>im_iocpHandle = port, im_workerThreads = nat (sint workerCount), im_shutdown = False,
        im_enableMonitoring = enableMonitoring, im_recvCounters = replicate (nat (sint workerCount)) None,
        im_sendCounters = replicate (nat (sint workerCount)) None, im_posted = 0\<rparr>)"

definition Build :: "u64 \<Rightarrow> Builder \<Rightarrow> iocp_error + IOCPManager" where
  "Build port b = IOCPManager_ctor port (bd_workerCount b) (bd_enableMonitoring b)"

definition IOCP_IsValid :: "IOCPManager \<Rightarrow> bool" where
  "IOCP_IsValid im \<longleftrightarrow> im_iocpHandle im \<noteq> INVALID_HANDLE_VALUE"

definition RegisterSocket :: "bool \<Rightarrow> u64 \<Rightarrow> IOCPManager \<Rightarrow> bool" where
  "RegisterSocket created socket im = created"

definition IOCP_Shutdown :: "IOCPManager \<Rightarrow> IOCPManager" where
  "IOCP_Shutdown im =
     (if im_shutdown im then im
      else
        let im1 = im\<lparr>im_shutdown := True, im_posted := im_posted im + im_workerThreads im\<rparr>;
            im2 = im1\<lparr>im_workerThreads := 0\<rparr>
        in if im_iocpHandle im2 \<noteq> INVALID_HANDLE_VALUE then im2\<lparr>im_iocpHandle := INVALID_HANDLE_VALUE\<rparr> else im2)"

text \<open>The start of a worker: the index comes from a counter that all managers of the process share.\<close>

definition worker_start :: "u64 \<Rightarrow> nat \<times> IOCPManager \<Rightarrow> fault + nat \<times> IOCPManager" where
  "worker_start now_ms = (\<lambda>(nextWorkerIndex, im).
     let workerIndex = nextWorkerIndex; counter = TimeWindowCounter_ctor now_ms in
     if workerIndex < length (im_recvCounters im) \<and> workerIndex < length (im_sendCounters im)
     then Inr (nextWorkerIndex + 1, im\<lparr>im_recvCounters := (im_recvCounters im)[workerIndex := Some counter],
                 im_sendCounters := (im_sendCounters im)[workerIndex := Some counter]\<rparr>)
     else Inl WriteOverrun)"

fun start_workers :: "u64 list \<Rightarrow> nat \<times> IOCPManager \<Rightarrow> fault + nat \<times> IOCPManager" where
  "start_workers [] st = Inr st"
| "start_workers (now_ms # ticks) st = rbind (worker_start now_ms st) (start_workers ticks)"

text \<open>The sums over the workers; \<open>dadd\<close>, \<open>ddiv\<close> and \<open>dzero\<close> are the arithmetic of \<open>double\<close>.\<close>

definition bytes_per_second :: "('d \<Rightarrow> 'd \<Rightarrow> 'd) \<Rightarrow> (u64 \<Rightarrow> c_int \<Rightarrow> 'd) \<Rightarrow> 'd \<Rightarrow> u64 \<Rightarrow> c_int \<Rightarrow> TimeWindowCounter option list \<Rightarrow> 'd" where
  "bytes_per_second dadd ddiv dzero now_ms seconds counters =
     fold (\<lambda>counter total. case counter of
         None \<Rightarrow> total
       | Some c \<Rightarrow> dadd total (case get_average now_ms seconds c of None \<Rightarrow> dzero | Some (t, s) \<Rightarrow> ddiv t s)) counters dzero"

definition GetRecvBytesPerSecond :: "('d \<Rightarrow> 'd \<Rightarrow> 'd) \<Rightarrow> (u64 \<Rightarrow> c_int \<Rightarrow> 'd) \<Rightarrow> 'd \<Rightarrow> u64 \<Rightarrow> c_int \<Rightarrow> IOCPManager \<Rightarrow> 'd" where
  "GetRecvBytesPerSecond dadd ddiv dzero now_ms seconds im =
     bytes_per_second dadd ddiv dzero now_ms seconds (im_recvCounters im)"

definition GetSendBytesPerSecond :: "('d \<Rightarrow> 'd \<Rightarrow> 'd) \<Rightarrow> (u64 \<Rightarrow> c_int \<Rightarrow> 'd) \<Rightarrow> 'd \<Rightarrow> u64 \<Rightarrow> c_int \<Rightarrow> IOCPManager \<Rightarrow> 'd" where
  "GetSendBytesPerSecond dadd ddiv dzero now_ms seconds im =
     bytes_per_second dadd ddiv dzero now_ms seconds (im_sendCounters im)"

section \<open>The window\<close>

definition tw_inv :: "TimeWindowCounter \<Rightarrow> bool" where
  "tw_inv c \<longleftrightarrow> length (tw_samples c) = 60 \<and> tw_write_pos c < 60"

definition slot_index :: "TimeWindowCounter \<Rightarrow> nat \<Rightarrow> nat" where
  "slot_index c i = (tw_write_pos c + 60 - i) mod 60"

text \<open>The slots, newest first.\<close>

definition slots :: "TimeWindowCounter \<Rightarrow> u64 list" where
  "slots c = map (\<lambda>i. tw_samples c ! slot_index c i) [0..<60]"

lemma slots_length [simp]: "length (slots c) = 60"
  by (simp add: slots_def)

lemma slots_nth [simp]: "i < 60 \<Longrightarrow> slots c ! i = tw_samples c ! slot_index c i"
  by (simp add: slots_def)

lemma next_slot_inv: "tw_inv c \<Longrightarrow> tw_inv (next_slot c)"
  by (simp add: tw_inv_def next_slot_def max_samples_def Let_def)

lemma slot_index_next:
  assumes "tw_inv c" "0 < i" "i < 60"
  shows "slot_index (next_slot c) i = slot_index c (i - 1)" "slot_index c (i - 1) \<noteq> (tw_write_pos c + 1) mod 60"
proof -
  let ?p = "tw_write_pos c"
  have p: "?p < 60" using assms(1) by (simp add: tw_inv_def)
  have "((?p + 1) mod 60 + 60 - i) mod 60 = (?p + 60 - (i - 1)) mod 60"
    using p assms(2,3) by (cases "?p = 59") (auto simp: mod_if)
  then show "slot_index (next_slot c) i = slot_index c (i - 1)"
    by (simp add: slot_index_def next_slot_def max_samples_def Let_def)
  show "slot_index c (i - 1) \<noteq> (?p + 1) mod 60"
    using p assms(2,3) by (cases "?p = 59") (auto simp: slot_index_def mod_if)
qed

lemma slots_next:
  assumes "tw_inv c"
  shows "slots (next_slot c) = 0 # take 59 (slots c)"
proof (rule nth_equalityI)
  fix i assume i: "i < length (slots (next_slot c))"
  show "slots (next_slot c) ! i = (0 # take 59 (slots c)) ! i"
  proof (cases i)
    case 0
    then show ?thesis using assms
      by (simp add: slot_index_def next_slot_def max_samples_def Let_def tw_inv_def)
  next
    case (Suc j)
    then show ?thesis using i assms slot_index_next [OF assms, of i]
      by (simp add: next_slot_def max_samples_def Let_def tw_inv_def)
  qed
qed simp

lemma slots_advance:
  assumes "tw_inv c" "k \<le> 60"
  shows "tw_inv ((next_slot ^^ k) c) \<and> slots ((next_slot ^^ k) c) = replicate k 0 @ take (60 - k) (slots c)"
  using assms(2)
proof (induction k)
  case (Suc k)
  then have i: "tw_inv ((next_slot ^^ k) c)" and s: "slots ((next_slot ^^ k) c) = replicate k 0 @ take (60 - k) (slots c)"
    by simp_all
  have "take 59 (replicate k 0 @ take (60 - k) (slots c)) = replicate k 0 @ take (60 - Suc k) (slots c)"
    using Suc.prems by (simp add: min_def)
  then show ?case using i s by (simp add: slots_next next_slot_inv)
qed (use assms(1) in simp)

text \<open>The abstract counter: the slots and the time of the last shift. A record shifts by the whole seconds
  since then, at most by all slots, and adds to the newest.\<close>

definition whole_seconds :: "u64 \<Rightarrow> u64 \<Rightarrow> c_int" where
  "whole_seconds now_ms last_ms = ucast ((now_ms - last_ms) div 1000)"

definition spec_record :: "u64 \<times> u64 \<Rightarrow> u64 list \<times> u64 \<Rightarrow> u64 list \<times> u64" where
  "spec_record = (\<lambda>(now_ms, value) (ws, last_ms).
     let k = min (nat (sint (whole_seconds now_ms last_ms))) 60; ws1 = replicate k 0 @ take (60 - k) ws
     in ((hd ws1 + value) # tl ws1, if 0 < k then now_ms else last_ms))"

definition spec_average :: "u64 \<Rightarrow> c_int \<Rightarrow> u64 list \<times> u64 \<Rightarrow> (u64 \<times> c_int) option" where
  "spec_average now_ms seconds = (\<lambda>(ws, last_ms).
     let gap = sint (whole_seconds now_ms last_ms) in
     if 0 < sint seconds \<and> sint seconds \<le> 60 \<and> gap < sint seconds
     then Some (sum_list (take (nat (sint seconds - gap)) ws), seconds) else None)"

definition tw_abs :: "TimeWindowCounter \<Rightarrow> u64 list \<times> u64" where
  "tw_abs c = (slots c, tw_last_update_ms c)"

lemma slots_add:
  assumes "tw_inv c"
  shows "slots (c\<lparr>tw_samples := (tw_samples c)[tw_write_pos c := tw_samples c ! tw_write_pos c + v]\<rparr>) =
    (hd (slots c) + v) # tl (slots c)"
proof (rule nth_equalityI)
  let ?c = "c\<lparr>tw_samples := (tw_samples c)[tw_write_pos c := tw_samples c ! tw_write_pos c + v]\<rparr>"
  have p: "tw_write_pos c < 60" "length (tw_samples c) = 60" using assms by (simp_all add: tw_inv_def)
  have ne: "slots c \<noteq> []" using slots_length [of c] by (metis list.size(3) zero_neq_numeral)
  fix i assume "i < length (slots ?c)"
  then have i: "i < 60" by simp
  show "slots ?c ! i = ((hd (slots c) + v) # tl (slots c)) ! i"
  proof (cases i)
    case 0
    then show ?thesis using p ne by (simp add: slot_index_def hd_conv_nth)
  next
    case (Suc j)
    then have "slot_index c i \<noteq> tw_write_pos c" using p i by (auto simp: slot_index_def mod_if)
    moreover have "slot_index ?c i = slot_index c i" by (simp add: slot_index_def)
    ultimately show ?thesis using Suc i p ne by (simp add: nth_tl)
  qed
qed simp

lemma next_slots_last: "tw_last_update_ms ((next_slot ^^ k) c) = tw_last_update_ms c"
  by (induction k) (simp_all add: next_slot_def Let_def)

lemma slots_last [simp]: "slots (tw_last_update_ms_update f c) = slots c" "tw_inv (tw_last_update_ms_update f c) = tw_inv c"
  by (simp_all add: slots_def slot_index_def tw_inv_def)

lemma advance_abs:
  assumes "tw_inv c"
  shows "tw_inv (advance_time_window now_ms c) \<and>
    (let k = min (nat (sint (get_elapsed_seconds now_ms c))) 60
     in slots (advance_time_window now_ms c) = replicate k 0 @ take (60 - k) (slots c) \<and>
        tw_last_update_ms (advance_time_window now_ms c) = (if 0 < k then now_ms else tw_last_update_ms c))"
proof (cases "1 \<le> sint (get_elapsed_seconds now_ms c)")
  case True
  then show ?thesis
    using slots_advance [OF assms, of "min (nat (sint (get_elapsed_seconds now_ms c))) 60"]
    by (simp add: advance_time_window_def max_samples_def Let_def)
next
  case False
  then have "nat (sint (get_elapsed_seconds now_ms c)) = 0" by simp
  then show ?thesis using False assms by (simp add: advance_time_window_def Let_def)
qed

lemma record_abs:
  assumes "tw_inv c"
  shows "tw_inv (tw_record now_ms v c) \<and> tw_abs (tw_record now_ms v c) = spec_record (now_ms, v) (tw_abs c)"
proof -
  let ?a = "advance_time_window now_ms c"
  note a = advance_abs [OF assms, of now_ms]
  then have inv: "tw_inv ?a" by blast
  then have "tw_inv (tw_record now_ms v c)" by (simp add: tw_record_def Let_def tw_inv_def)
  moreover have "slots (tw_record now_ms v c) = (hd (slots ?a) + v) # tl (slots ?a)"
    using slots_add [OF inv, of v] by (simp add: tw_record_def Let_def)
  moreover have "tw_last_update_ms (tw_record now_ms v c) = tw_last_update_ms ?a" by (simp add: tw_record_def Let_def)
  ultimately show ?thesis using a
    by (simp add: tw_abs_def spec_record_def whole_seconds_def get_elapsed_seconds_def Let_def)
qed

lemma average_abs:
  assumes "tw_inv c" "0 \<le> sint (get_elapsed_seconds now_ms c)"
  shows "get_average now_ms seconds c = spec_average now_ms seconds (tw_abs c)"
proof -
  let ?n = "nat (sint seconds - sint (get_elapsed_seconds now_ms c))"
  have "map (\<lambda>i. tw_samples c ! nat ((int (tw_write_pos c) - int i + 60) mod 60)) [0..<?n] = take ?n (slots c)"
    if "sint seconds \<le> 60"
  proof (rule nth_equalityI)
    show l: "length (map (\<lambda>i. tw_samples c ! nat ((int (tw_write_pos c) - int i + 60) mod 60)) [0..<?n]) = length (take ?n (slots c))"
      using that assms(2) by simp
    fix i assume "i < length (map (\<lambda>i. tw_samples c ! nat ((int (tw_write_pos c) - int i + 60) mod 60)) [0..<?n])"
    then have i: "i < ?n" "i < 60" using that assms(2) by simp_all
    have eq: "int (tw_write_pos c) - int i + 60 = int (tw_write_pos c + 60 - i)" using i by simp
    have "nat (int (tw_write_pos c + 60 - i) mod 60) = slot_index c i"
      unfolding slot_index_def by (metis nat_int of_nat_numeral zmod_int)
    then have "nat ((int (tw_write_pos c) - int i + 60) mod 60) = slot_index c i" unfolding eq .
    then show "map (\<lambda>i. tw_samples c ! nat ((int (tw_write_pos c) - int i + 60) mod 60)) [0..<?n] ! i = take ?n (slots c) ! i"
      using i by simp
  qed
  then show ?thesis
    by (auto simp: get_average_def spec_average_def tw_abs_def max_samples_def whole_seconds_def get_elapsed_seconds_def Let_def)
qed

lemma records_abs:
  "tw_inv c \<Longrightarrow> tw_inv (fold (\<lambda>(now_ms, v). tw_record now_ms v) evs c) \<and>
    tw_abs (fold (\<lambda>(now_ms, v). tw_record now_ms v) evs c) = fold spec_record evs (tw_abs c)"
proof (induction evs arbitrary: c)
  case (Cons ev evs)
  then show ?case using record_abs [OF Cons.prems, of "fst ev" "snd ev"] by (cases ev) simp
qed simp

lemma start_workers_index:
  "start_workers ticks (i, im) = Inr (i', im') \<Longrightarrow> i' = i + length ticks"
proof (induction ticks arbitrary: i im)
  case (Cons t ticks)
  then show ?case by (force simp: worker_start_def Let_def split: if_splits)
qed simp

section \<open>Properties\<close>



text \<open>The workers of a second I/O manager in one process write outside its counter vectors: the worker
  index is drawn from a counter shared by all managers, so after the workers of a first manager have
  started, every worker of a manager with no more workers than the first fails in its first store.\<close>

lemma second_manager_overruns:
  assumes "Build port1 b1 = Inr im1" "start_workers ticks (0, im1) = Inr (next_index, im1')"
    "length ticks = im_workerThreads im1" "Build port2 b2 = Inr im2" "im_workerThreads im2 \<le> im_workerThreads im1"
  shows "worker_start now_ms (next_index, im2) = Inl WriteOverrun"
proof -
  have "next_index = im_workerThreads im1" using start_workers_index [OF assms(2)] assms(3) by simp
  moreover have "length (im_recvCounters im2) = im_workerThreads im2"
    using assms(4) by (auto simp: Build_def IOCPManager_ctor_def split: if_splits)
  ultimately show ?thesis using assms(5) by (simp add: worker_start_def Let_def)
qed

lemma second_manager_overruns_example:
  "\<exists>im1 im1' next_index im2. Build 4 (WithWorkerCount 1 IOCP_Create) = Inr im1 \<and>
    start_workers [10] (0, im1) = Inr (next_index, im1') \<and> Build 8 (WithWorkerCount 1 IOCP_Create) = Inr im2 \<and>
    worker_start 20 (next_index, im2) = Inl WriteOverrun"
proof -
  let ?b = "WithWorkerCount 1 IOCP_Create"
  obtain im1 im2 where b: "Build 4 ?b = Inr im1" "Build 8 ?b = Inr im2" "im_workerThreads im1 = 1" "im_workerThreads im2 = 1"
      "im_recvCounters im1 = [None]" "im_sendCounters im1 = [None]"
    by (simp add: Build_def IOCPManager_ctor_def WithWorkerCount_def IOCP_Create_def)
  then obtain n im1' where "start_workers [10] (0, im1) = Inr (n, im1')"
    by (simp add: worker_start_def Let_def)
  with b second_manager_overruns [of 4 ?b im1 "[10]" n im1' 8 ?b im2 20] show ?thesis by auto
qed

end
