(* ===== verification/Parser.thy ===== *)
theory Parser
  imports Prelude
begin

text \<open>
  The configuration file parser (\<^verbatim>\<open>JunCommon/algorithm/Parser.h\<close> and \<^verbatim>\<open>.cpp\<close>). The loaded file is the list of
  its characters with the terminating zero the loader appends; \<open>fileCur\<close> is an index and \<open>fileEnd\<close> the length. Reads
  outside are faults. The scan for a word takes fuel; the length of the file is always enough.

  Shown: on a file of words separated by blanks, \<open>GetValue\<close> is a search in the list of words; the search
  always returns; a file that ends in a comment is read beyond its end; a value whose quote is not closed
  too, and a string is stored without regard to the size of the target.
\<close>

section \<open>Operations\<close>

abbreviation NUL :: char where "NUL \<equiv> CHR 0x00"

definition blank :: "char \<Rightarrow> bool" where
  "blank c \<longleftrightarrow> c = CHR '' '' \<or> c = CHR 0x0A \<or> c = CHR 0x09"

definition is_digit :: "char \<Rightarrow> bool" where
  "is_digit c \<longleftrightarrow> \<not> (of_char c < (48 :: nat) \<or> 57 < (of_char c :: nat))"

definition read_at :: "string \<Rightarrow> nat \<Rightarrow> fault + char" where
  "read_at mem i = (if i < length mem then Inr (mem ! i) else Inl ReadOverrun)"

text \<open>The file as \<open>LoadFile\<close> leaves it; \<open>None\<close> when it cannot be opened.\<close>

definition LoadFile :: "string option \<Rightarrow> nat \<times> string option" where
  "LoadFile contents = (case contents of None \<Rightarrow> (0, None) | Some s \<Rightarrow> (length s, Some (s @ [NUL])))"

text \<open>The inner loop over a comment: up to its line end or the last character.\<close>

function skip_comment :: "string \<Rightarrow> nat \<Rightarrow> nat" where
  "skip_comment mem cur =
     (if cur < length mem - 1 then if mem ! cur = CHR 0x0A then cur else skip_comment mem (cur + 1) else cur)"
  by pat_completeness auto
termination by (relation "measure (\<lambda>(mem, cur). length mem - cur)") auto

declare skip_comment.simps [simp del]

lemma skip_comment_ge: "cur \<le> skip_comment mem cur"
proof (induction mem cur rule: skip_comment.induct)
  case (1 mem cur)
  then show ?case by (subst skip_comment.simps) (simp; linarith)
qed

text \<open>Whether a comment starts here; the second character is read only after a slash.\<close>

definition comment_at :: "string \<Rightarrow> nat \<Rightarrow> fault + bool" where
  "comment_at mem cur =
     rbind (read_at mem cur) (\<lambda>c. if c = CHR ''/'' then rbind (read_at mem (cur + 1)) (\<lambda>d. Inr (d = CHR ''/'')) else Inr False)"

function FindChar :: "string \<Rightarrow> nat \<Rightarrow> fault + bool \<times> nat" where
  "FindChar mem cur =
     (if cur < length mem then
        case comment_at mem cur of
          Inl e \<Rightarrow> Inl e
        | Inr comment \<Rightarrow>
            if comment then FindChar mem (skip_comment mem cur + 1)
            else if blank (mem ! cur) then FindChar mem (cur + 1)
            else Inr (True, cur)
      else Inr (False, cur))"
  by pat_completeness auto
termination
proof (relation "measure (\<lambda>(mem, cur). length mem - cur)")
  fix mem :: string and cur :: nat
  assume "cur < length mem"
  moreover have "cur \<le> skip_comment mem cur" by (rule skip_comment_ge)
  ultimately show "((mem, skip_comment mem cur + 1), mem, cur) \<in> measure (\<lambda>(mem, cur). length mem - cur)" by simp
qed auto

function FindSpace :: "string \<Rightarrow> nat \<Rightarrow> fault + bool \<times> nat" where
  "FindSpace mem cur =
     (if cur < length mem then
        case comment_at mem cur of
          Inl e \<Rightarrow> Inl e
        | Inr comment \<Rightarrow>
            if comment then FindSpace mem (skip_comment mem cur + 1)
            else if blank (mem ! cur) then Inr (True, cur)
            else FindSpace mem (cur + 1)
      else Inr (False, cur))"
  by pat_completeness auto
termination
proof (relation "measure (\<lambda>(mem, cur). length mem - cur)")
  fix mem :: string and cur :: nat
  assume "cur < length mem"
  moreover have "cur \<le> skip_comment mem cur" by (rule skip_comment_ge)
  ultimately show "((mem, skip_comment mem cur + 1), mem, cur) \<in> measure (\<lambda>(mem, cur). length mem - cur)" by simp
qed auto

declare FindChar.simps [simp del] FindSpace.simps [simp del]

definition NextChar :: "string \<Rightarrow> nat \<Rightarrow> fault + bool \<times> nat" where
  "NextChar mem cur =
     rbind (FindSpace mem cur) (\<lambda>(found, cur1). if \<not> found then Inr (False, cur1) else FindChar mem cur1)"

text \<open>Equality in the sense of \<open>strncmp\<close> with the length of the word.\<close>

fun strncmp_eq :: "string \<Rightarrow> nat \<Rightarrow> string \<Rightarrow> fault + bool" where
  "strncmp_eq mem cur [] = Inr True"
| "strncmp_eq mem cur (w # ws) =
     rbind (read_at mem cur) (\<lambda>c. if c \<noteq> w then Inr False else if c = NUL then Inr True else strncmp_eq mem (cur + 1) ws)"

fun find_word_loop :: "nat \<Rightarrow> string \<Rightarrow> string \<Rightarrow> nat \<Rightarrow> (fault + bool \<times> nat) option" where
  "find_word_loop 0 mem word cur = None"
| "find_word_loop (Suc n) mem word cur =
     xbind (Some (strncmp_eq mem cur word)) (\<lambda>same.
       xbind (Some (if same then rbind (read_at mem (cur + length word)) (\<lambda>c. Inr (blank c)) else Inr False)) (\<lambda>found.
         if found then Some (Inr (True, cur))
         else xbind (Some (NextChar mem cur)) (\<lambda>(ok, cur1). if \<not> ok then Some (Inr (False, cur1)) else find_word_loop n mem word cur1)))"

definition FindWord :: "string \<Rightarrow> string \<Rightarrow> nat \<Rightarrow> (fault + bool \<times> nat) option" where
  "FindWord mem word cur =
     xbind (Some (FindChar mem cur)) (\<lambda>(ok, cur1).
       if \<not> ok then Some (Inr (False, cur1)) else find_word_loop (length mem) mem word cur1)"

definition digit_value :: "char \<Rightarrow> c_int" where
  "digit_value c = of_nat (of_char c) - of_nat (of_char (CHR ''0''))"

function int_loop :: "string \<Rightarrow> c_int \<Rightarrow> nat \<Rightarrow> fault + c_int" where
  "int_loop mem value cur =
     (if cur < length mem then
        if \<not> is_digit (mem ! cur) then Inr value
        else int_loop mem (value * 10 + digit_value (mem ! cur)) (cur + 1)
      else Inl ReadOverrun)"
  by pat_completeness auto
termination by (relation "measure (\<lambda>(mem, value, cur). length mem - cur)") auto

declare int_loop.simps [simp del]

text \<open>The number, or \<open>None\<close> when the function returns false.\<close>

definition GetValueInt :: "string \<Rightarrow> nat \<Rightarrow> fault + c_int option" where
  "GetValueInt mem cur =
     rbind (read_at mem cur) (\<lambda>c. if \<not> is_digit c then Inr None else rbind (int_loop mem 0 cur) (\<lambda>v. Inr (Some v)))"

text \<open>The characters stored, for a target of \<open>room\<close> characters, the terminating zero included.\<close>

function str_loop :: "nat \<Rightarrow> string \<Rightarrow> string \<Rightarrow> nat \<Rightarrow> fault + string" where
  "str_loop room mem value cur =
     (if cur < length mem then
        if mem ! cur = CHR 0x22 then if length value < room then Inr value else Inl WriteOverrun
        else if length value < room then str_loop room mem (value @ [mem ! cur]) (cur + 1) else Inl WriteOverrun
      else Inl ReadOverrun)"
  by pat_completeness auto
termination by (relation "measure (\<lambda>(room, mem, value, cur). length mem - cur)") auto

declare str_loop.simps [simp del]

definition GetValueStr :: "nat \<Rightarrow> string \<Rightarrow> nat \<Rightarrow> fault + string option" where
  "GetValueStr room mem cur =
     rbind (read_at mem cur) (\<lambda>c. if c \<noteq> CHR 0x22 then Inr None else rbind (str_loop room mem [] (cur + 1)) (\<lambda>v. Inr (Some v)))"

text \<open>Both overloads up to the value: the section, its brace, the key, the equals sign.\<close>

definition find_value :: "string \<Rightarrow> string \<Rightarrow> string \<Rightarrow> (fault + nat option) option" where
  "find_value mem section key =
     xbind (FindWord mem section 0) (\<lambda>(ok, cur).
       if \<not> ok then Some (Inr None)
       else xbind (Some (NextChar mem cur)) (\<lambda>(_, cur).
         xbind (Some (read_at mem cur)) (\<lambda>c.
           if c \<noteq> CHR ''{'' then Some (Inr None)
           else xbind (FindWord mem key cur) (\<lambda>(ok, cur).
             if \<not> ok then Some (Inr None)
             else xbind (Some (NextChar mem cur)) (\<lambda>(_, cur).
               xbind (Some (read_at mem cur)) (\<lambda>c.
                 if c \<noteq> CHR ''='' then Some (Inr None)
                 else xbind (Some (NextChar mem cur)) (\<lambda>(_, cur). Some (Inr (Some cur)))))))))"

definition GetValue_int :: "string \<Rightarrow> string \<Rightarrow> string \<Rightarrow> (fault + c_int option) option" where
  "GetValue_int mem section key =
     xbind (find_value mem section key) (\<lambda>r. case r of None \<Rightarrow> Some (Inr None) | Some cur \<Rightarrow> Some (GetValueInt mem cur))"

definition GetValue_str :: "nat \<Rightarrow> string \<Rightarrow> string \<Rightarrow> string \<Rightarrow> (fault + string option) option" where
  "GetValue_str room mem section key =
     xbind (find_value mem section key) (\<lambda>r. case r of None \<Rightarrow> Some (Inr None) | Some cur \<Rightarrow> Some (GetValueStr room mem cur))"

section \<open>Files of words\<close>

text \<open>A file of words, each followed by one blank.\<close>

definition plain :: "string \<Rightarrow> bool" where
  "plain w \<longleftrightarrow> w \<noteq> [] \<and> (\<forall>c \<in> set w. \<not> blank c \<and> c \<noteq> CHR ''/'' \<and> c \<noteq> NUL)"

fun render :: "(string \<times> char) list \<Rightarrow> string" where
  "render [] = [NUL]"
| "render ((w, b) # ts) = w @ b # render ts"

definition words_ok :: "(string \<times> char) list \<Rightarrow> bool" where
  "words_ok ts \<longleftrightarrow> (\<forall>(w, b) \<in> set ts. plain w \<and> blank b)"

lemma words_ok_simps [simp]: "words_ok []" "words_ok ((w, b) # ts) \<longleftrightarrow> plain w \<and> blank b \<and> words_ok ts"
  by (auto simp: words_ok_def)

lemma blank_facts [simp]: "blank c \<Longrightarrow> c \<noteq> CHR ''/''" "blank c \<Longrightarrow> c \<noteq> NUL" "\<not> blank NUL"
  by (auto simp: blank_def)

lemma render_nonempty [simp]: "render ts \<noteq> []" "0 < length (render ts)"
  by (cases ts; auto)+

lemma render_hd:
  assumes "words_ok ts"
  shows "\<not> blank (render ts ! 0)" "render ts ! 0 \<noteq> CHR ''/''"
proof -
  have "\<not> blank (render ts ! 0) \<and> render ts ! 0 \<noteq> CHR ''/''"
  proof (cases ts)
    case (Cons t us)
    obtain w b where t: "t = (w, b)" by (cases t)
    then obtain c cs where "w = c # cs" using assms Cons by (cases w) (auto simp: plain_def)
    then show ?thesis using assms Cons t by (simp add: plain_def)
  qed simp
  then show "\<not> blank (render ts ! 0)" "render ts ! 0 \<noteq> CHR ''/''" by simp_all
qed

lemma read_append [simp]: "read_at (pre @ c # rest) (length pre) = Inr c"
  by (simp add: read_at_def)

lemma no_comment: "cur < length mem \<Longrightarrow> mem ! cur \<noteq> CHR ''/'' \<Longrightarrow> comment_at mem cur = Inr False"
  by (simp add: comment_at_def read_at_def)

text \<open>\<open>FindSpace\<close> runs over a word to its blank.\<close>

lemma FindSpace_word:
  "(\<forall>c \<in> set w. \<not> blank c \<and> c \<noteq> CHR ''/'' \<and> c \<noteq> NUL) \<Longrightarrow> blank b \<Longrightarrow>
    FindSpace (pre @ w @ b # rest) (length pre) = Inr (True, length pre + length w)"
proof (induction w arbitrary: pre)
  case Nil
  then show ?case by (subst FindSpace.simps) (simp add: no_comment nth_append)
next
  case (Cons c w)
  have "FindSpace (pre @ (c # w) @ b # rest) (length pre) = FindSpace ((pre @ [c]) @ w @ b # rest) (length (pre @ [c]))"
    using Cons.prems by (subst FindSpace.simps) (simp add: no_comment nth_append)
  also have "\<dots> = Inr (True, length (pre @ [c]) + length w)" using Cons by (intro Cons.IH) auto
  finally show ?case by simp
qed

lemma FindChar_here:
  "cur < length mem \<Longrightarrow> \<not> blank (mem ! cur) \<Longrightarrow> mem ! cur \<noteq> CHR ''/'' \<Longrightarrow> FindChar mem cur = Inr (True, cur)"
  by (subst FindChar.simps) (simp add: no_comment)

lemma FindChar_blank:
  assumes "blank (mem ! cur)" "cur + 1 < length mem" "\<not> blank (mem ! (cur + 1))" "mem ! (cur + 1) \<noteq> CHR ''/''"
  shows "FindChar mem cur = Inr (True, cur + 1)"
  using assms by (subst FindChar.simps) (simp add: no_comment FindChar_here)

lemma NextChar_word:
  assumes "words_ok ((w, b) # ts)"
  shows "NextChar (pre @ render ((w, b) # ts)) (length pre) = Inr (True, length (pre @ w @ [b]))"
proof -
  let ?m = "pre @ w @ b # render ts"
  have "FindSpace ?m (length pre) = Inr (True, length pre + length w)"
    using assms FindSpace_word [of w b pre "render ts"] by (simp add: plain_def)
  moreover have "FindChar ?m (length pre + length w) = Inr (True, length pre + length w + 1)"
    using assms render_hd [of ts] by (intro FindChar_blank) (auto simp: nth_append)
  ultimately show ?thesis by (simp add: NextChar_def)
qed

lemma NextChar_end: "NextChar (pre @ [NUL]) (length pre) = Inr (False, length pre + 1)"
proof -
  have "FindSpace (pre @ [NUL]) (length pre + 1) = Inr (False, length pre + 1)" by (subst FindSpace.simps) simp
  then have "FindSpace (pre @ [NUL]) (length pre) = Inr (False, length pre + 1)"
    by (subst FindSpace.simps) (simp add: no_comment nth_append)
  then show ?thesis by (simp add: NextChar_def)
qed

lemma strncmp_word:
  "(\<forall>c \<in> set t. \<not> blank c \<and> c \<noteq> CHR ''/'' \<and> c \<noteq> NUL) \<Longrightarrow> blank b \<Longrightarrow> (\<forall>c \<in> set word. \<not> blank c) \<Longrightarrow>
    strncmp_eq (pre @ t @ b # rest) (length pre) word = Inr (take (length word) t = word)"
proof (induction t arbitrary: pre word)
  case Nil
  then show ?case by (cases word) (auto simp: read_at_def nth_append)
next
  case (Cons c t)
  show ?case
  proof (cases word)
    case (Cons x xs)
    have "strncmp_eq ((pre @ [c]) @ t @ b # rest) (length (pre @ [c])) xs = Inr (take (length xs) t = xs)"
      using Cons.prems Cons by (intro Cons.IH) auto
    then show ?thesis using Cons Cons.prems(1) by (auto simp: read_at_def nth_append)
  qed simp
qed

lemma take_eq_blank:
  assumes "take (length word) t = word" "\<forall>c \<in> set t. \<not> blank c" "blank b"
  shows "(pre @ t @ b # rest) ! (length pre + length word) = b \<and> t = word \<or>
    \<not> blank ((pre @ t @ b # rest) ! (length pre + length word)) \<and> t \<noteq> word"
proof -
  obtain s where t: "t = word @ s" using assms(1) by (metis append_take_drop_id)
  show ?thesis using assms(2,3) by (cases s) (auto simp: t nth_append)
qed

lemma word_found:
  assumes "words_ok ((t, b) # ts)" "plain word"
  shows "strncmp_eq (pre @ render ((t, b) # ts)) (length pre) word = Inr (take (length word) t = word)"
    "take (length word) t = word \<Longrightarrow>
      rbind (read_at (pre @ render ((t, b) # ts)) (length pre + length word)) (\<lambda>c. Inr (blank c)) = Inr (t = word)"
proof -
  have p: "\<forall>c \<in> set t. \<not> blank c \<and> c \<noteq> CHR ''/'' \<and> c \<noteq> NUL" "blank b" "\<forall>c \<in> set word. \<not> blank c"
    using assms by (auto simp: plain_def)
  show "strncmp_eq (pre @ render ((t, b) # ts)) (length pre) word = Inr (take (length word) t = word)"
    using strncmp_word [OF p, of pre "render ts"] by simp
  assume e: "take (length word) t = word"
  then have "length word \<le> length t" by (metis length_take min.cobounded1)
  then have r: "read_at (pre @ render ((t, b) # ts)) (length pre + length word) =
      Inr ((pre @ t @ b # render ts) ! (length pre + length word))"
    by (simp add: read_at_def)
  have "\<forall>c \<in> set t. \<not> blank c" using p(1) by blast
  from take_eq_blank [OF e this p(2), of pre "render ts"] p(2)
  show "rbind (read_at (pre @ render ((t, b) # ts)) (length pre + length word)) (\<lambda>c. Inr (blank c)) = Inr (t = word)"
    unfolding r by auto
qed

abbreviation from_word :: "string \<Rightarrow> (string \<times> char) list \<Rightarrow> (string \<times> char) list" where
  "from_word word \<equiv> dropWhile (\<lambda>t. fst t \<noteq> word)"

text \<open>A search from the start of \<open>ts\<close>, which stands behind \<open>pre\<close>, ends at the first word equal to \<open>word\<close> or behind
  the file.\<close>

definition finds :: "string \<Rightarrow> string \<Rightarrow> (string \<times> char) list \<Rightarrow> (fault + bool \<times> nat) option \<Rightarrow> bool" where
  "finds word pre ts r \<longleftrightarrow>
     (if from_word word ts = [] then r = Some (Inr (False, length (pre @ render ts)))
      else \<exists>pre'. r = Some (Inr (True, length pre')) \<and> pre @ render ts = pre' @ render (from_word word ts))"

lemma finds_here: "finds word pre ((word, b) # ts) (Some (Inr (True, length pre)))"
  by (auto simp: finds_def)

lemma finds_later: "t \<noteq> word \<Longrightarrow> finds word (pre @ t @ [b]) ts r \<Longrightarrow> finds word pre ((t, b) # ts) r"
  by (simp add: finds_def split: if_splits)

lemma find_word_loop_words:
  "words_ok ts \<Longrightarrow> plain word \<Longrightarrow> length ts < n \<Longrightarrow> finds word pre ts (find_word_loop n (pre @ render ts) word (length pre))"
proof (induction ts arbitrary: pre n)
  case Nil
  then obtain m c cs where n: "n = Suc m" "word = c # cs" "c \<noteq> NUL" by (cases n; cases word) (auto simp: plain_def)
  then show ?case using NextChar_end [of pre] by (simp add: finds_def read_at_def nth_append)
next
  case (Cons tb ts)
  obtain t b where tb: "tb = (t, b)" by (cases tb)
  obtain m where n: "n = Suc m" using Cons.prems(3) by (cases n) auto
  have ok: "words_ok ((t, b) # ts)" using Cons.prems(1) tb by simp
  note f = word_found [OF ok Cons.prems(2), of pre]
  show ?case
  proof (cases "t = word")
    case True
    then have "find_word_loop n (pre @ render (tb # ts)) word (length pre) = Some (Inr (True, length pre))"
      using f by (simp add: n tb)
    then show ?thesis using True tb finds_here by simp
  next
    case False
    note next_word = NextChar_word [OF ok, of pre]
    have "find_word_loop n (pre @ render (tb # ts)) word (length pre) =
        find_word_loop m ((pre @ t @ [b]) @ render ts) word (length (pre @ t @ [b]))"
      using f next_word False by (cases "take (length word) t = word") (simp_all add: n tb)
    moreover have "finds word (pre @ t @ [b]) ts (find_word_loop m ((pre @ t @ [b]) @ render ts) word (length (pre @ t @ [b])))"
      using Cons.prems ok n by (intro Cons.IH) simp_all
    ultimately show ?thesis unfolding tb using finds_later [OF False] by metis
  qed
qed

lemma render_length: "words_ok ts \<Longrightarrow> length ts < length (render ts)"
  by (induction ts) (auto simp: plain_def)

lemma FindWord_words:
  assumes "words_ok ts" "plain word"
  shows "finds word pre ts (FindWord (pre @ render ts) word (length pre))"
proof -
  have "FindChar (pre @ render ts) (length pre) = Inr (True, length pre)"
    using render_hd [OF assms(1)] by (intro FindChar_here) (simp_all add: nth_append)
  then have "FindWord (pre @ render ts) word (length pre) =
      find_word_loop (length (pre @ render ts)) (pre @ render ts) word (length pre)"
    by (simp add: FindWord_def)
  moreover have "length ts < length (pre @ render ts)" using render_length [OF assms(1)] by simp
  ultimately show ?thesis using find_word_loop_words [OF assms] by simp
qed

text \<open>The specification: the words behind the first \<open>section\<close>, a word that begins with a brace, the first \<open>key\<close>
  from there on and a word that begins with an equals sign.\<close>

definition first_char :: "(string \<times> char) list \<Rightarrow> char" where
  "first_char us = (case us of [] \<Rightarrow> NUL | (w, b) # vs \<Rightarrow> hd w)"

definition spec_value :: "(string \<times> char) list \<Rightarrow> string \<Rightarrow> string \<Rightarrow> (string \<times> char) list option" where
  "spec_value ts section key = (case from_word section ts of
     [] \<Rightarrow> None
   | _ # us \<Rightarrow>
       if first_char us \<noteq> CHR ''{'' then None
       else case from_word key us of
         [] \<Rightarrow> None
       | _ # vs \<Rightarrow> if first_char vs \<noteq> CHR ''='' then None else Some (tl vs))"

lemma read_first:
  assumes "words_ok us"
  shows "read_at (pre @ render us) (length pre) = Inr (first_char us)"
proof (cases us)
  case (Cons t vs)
  obtain w b where t: "t = (w, b)" by (cases t)
  then obtain c cs where "w = c # cs" using assms Cons by (cases w) (auto simp: plain_def)
  then show ?thesis using Cons t by (simp add: first_char_def)
qed (simp add: first_char_def)

lemma from_word_ok: "words_ok ts \<Longrightarrow> from_word word ts = t # us \<Longrightarrow> words_ok (t # us)"
  unfolding words_ok_def by (metis set_dropWhileD)

lemma from_word_hd: "from_word word ts = t # us \<Longrightarrow> \<exists>b. t = (word, b)"
  by (metis (mono_tags, lifting) dropWhile_eq_Cons_conv prod.collapse)

text \<open>One search and the step to the word behind it.\<close>

lemma search_step:
  assumes "words_ok ts" "plain word" "from_word word ts = t # us"
  obtains p1 pre2 where "FindWord (pre @ render ts) word (length pre) = Some (Inr (True, p1))"
    "NextChar (pre @ render ts) p1 = Inr (True, length pre2)" "pre @ render ts = pre2 @ render us" "words_ok us"
proof -
  obtain b where t: "t = (word, b)" using from_word_hd [OF assms(3)] ..
  have ok: "words_ok ((word, b) # us)" using from_word_ok [OF assms(1,3)] t by simp
  obtain pre1 where p: "FindWord (pre @ render ts) word (length pre) = Some (Inr (True, length pre1))"
      "pre @ render ts = pre1 @ render ((word, b) # us)"
    using FindWord_words [OF assms(1,2), of pre] assms(3) t by (auto simp: finds_def)
  show thesis
    by (rule that [OF p(1), of "pre1 @ word @ [b]"]) (use p(2) NextChar_word [OF ok, of pre1] ok in auto)
qed

lemma search_fails:
  "words_ok ts \<Longrightarrow> plain word \<Longrightarrow> from_word word ts = [] \<Longrightarrow>
    FindWord (pre @ render ts) word (length pre) = Some (Inr (False, length (pre @ render ts)))"
  using FindWord_words [of ts word pre] by (simp add: finds_def)

lemma find_value_words:
  assumes "words_ok ts" "plain section" "plain key"
  shows "case spec_value ts section key of
      None \<Rightarrow> find_value (render ts) section key = Some (Inr None)
    | Some vs \<Rightarrow> words_ok vs \<and> (\<exists>pre. find_value (render ts) section key = Some (Inr (Some (length pre))) \<and> render ts = pre @ render vs)"
proof (cases "from_word section ts")
  case Nil
  then have "spec_value ts section key = None" unfolding spec_value_def by (simp only: list.case)
  then show ?thesis using search_fails [OF assms(1,2) Nil, of "[]"] by (simp add: find_value_def)
next
  case (Cons t us)
  obtain p1 p2 where s: "FindWord (render ts) section 0 = Some (Inr (True, p1))"
      "NextChar (render ts) p1 = Inr (True, length p2)" "render ts = p2 @ render us" "words_ok us"
    using search_step [OF assms(1,2) Cons, of "[]"] by (metis append_Nil list.size(3))
  note c1 = read_first [OF s(4), of p2, folded s(3)]
  show ?thesis
  proof (cases "first_char us = CHR ''{''")
    case False
    then show ?thesis using Cons s(1,2) c1 by (simp add: spec_value_def find_value_def)
  next
    case brace: True
    show ?thesis
    proof (cases "from_word key us")
      case Nil
      then have "spec_value ts section key = None" unfolding spec_value_def Cons by (simp only: list.case) (simp add: brace)
      then show ?thesis using s(1,2) c1 brace search_fails [OF s(4) assms(3) Nil, of p2, folded s(3)]
        by (simp add: find_value_def)
    next
      case key: (Cons t2 vs)
      obtain p3 p4 where k: "FindWord (render ts) key (length p2) = Some (Inr (True, p3))"
          "NextChar (render ts) p3 = Inr (True, length p4)" "render ts = p4 @ render vs" "words_ok vs"
        using search_step [OF s(4) assms(3) key, of p2, folded s(3)] by metis
      note c2 = read_first [OF k(4), of p4, folded k(3)]
      show ?thesis
      proof (cases "first_char vs = CHR ''=''")
        case False
        then show ?thesis using Cons s(1,2) c1 brace key k(1,2) c2 by (simp add: spec_value_def find_value_def)
      next
        case True
        then obtain w b ws where vs: "vs = (w, b) # ws" by (cases vs) (auto simp: first_char_def)
        have "NextChar (render ts) (length p4) = Inr (True, length (p4 @ w @ [b]))"
          using NextChar_word [of w b ws p4] k(3,4) vs by simp
        moreover have "render ts = (p4 @ w @ [b]) @ render ws" "words_ok ws" using k(3,4) vs by simp_all
        moreover have "spec_value ts section key = Some ws" using Cons brace key True vs by (simp add: spec_value_def)
        ultimately show ?thesis using s(1,2) c1 brace k(1,2) c2 True by (auto simp: find_value_def)
      qed
    qed
  qed
qed

definition number :: "c_int \<Rightarrow> string \<Rightarrow> c_int" where
  "number = foldl (\<lambda>v c. v * 10 + digit_value c)"

definition spec_int :: "(string \<times> char) list \<Rightarrow> c_int option" where
  "spec_int vs = (case vs of
     [] \<Rightarrow> None
   | (w, b) # ws \<Rightarrow> if is_digit (hd w) then Some (number 0 (takeWhile is_digit w)) else None)"

lemma blank_no_digit: "blank b \<Longrightarrow> \<not> is_digit b"
  by (auto simp: blank_def is_digit_def)

lemma int_loop_word:
  "\<not> is_digit b \<Longrightarrow> int_loop (pre @ w @ b # rest) v (length pre) = Inr (number v (takeWhile is_digit w))"
proof (induction w arbitrary: pre v)
  case Nil
  then show ?case by (subst int_loop.simps) (simp add: number_def nth_append)
next
  case (Cons c w)
  show ?case
  proof (cases "is_digit c")
    case True
    then have "int_loop (pre @ (c # w) @ b # rest) v (length pre) =
        int_loop ((pre @ [c]) @ w @ b # rest) (v * 10 + digit_value c) (length (pre @ [c]))"
      by (subst int_loop.simps) (simp add: nth_append)
    also have "\<dots> = Inr (number (v * 10 + digit_value c) (takeWhile is_digit w))" by (rule Cons.IH [OF Cons.prems])
    finally show ?thesis using True by (simp add: number_def)
  next
    case False
    then show ?thesis by (subst int_loop.simps) (simp add: number_def nth_append)
  qed
qed

lemma GetValueInt_words:
  assumes "words_ok vs"
  shows "GetValueInt (pre @ render vs) (length pre) = Inr (spec_int vs)"
proof (cases vs)
  case Nil
  then show ?thesis by (simp add: GetValueInt_def spec_int_def is_digit_def)
next
  case (Cons t ws)
  obtain w b where t: "t = (w, b)" by (cases t)
  have b: "\<not> is_digit b" using assms Cons t by (simp add: blank_no_digit)
  have "read_at (pre @ render vs) (length pre) = Inr (hd w)"
    using read_first [OF assms] Cons t by (simp add: first_char_def)
  then show ?thesis using int_loop_word [OF b, of pre w "render ws" 0] Cons t
    by (simp add: GetValueInt_def spec_int_def)
qed

section \<open>The search returns\<close>

lemma FindSpace_result:
  "FindSpace mem cur = Inr (True, c) \<Longrightarrow> cur \<le> c \<and> c < length mem \<and> blank (mem ! c)"
proof (induction mem cur rule: FindSpace.induct)
  case (1 mem cur)
  note ge = skip_comment_ge [of cur mem]
  from "1.prems" show ?case
    by (subst (asm) FindSpace.simps) (use ge "1.IH" in \<open>force split: if_splits sum.splits\<close>)
qed

lemma FindChar_result:
  "FindChar mem cur = Inr (True, c) \<Longrightarrow> cur \<le> c \<and> c < length mem \<and> \<not> blank (mem ! c)"
proof (induction mem cur rule: FindChar.induct)
  case (1 mem cur)
  note ge = skip_comment_ge [of cur mem]
  from "1.prems" show ?case
    by (subst (asm) FindChar.simps) (use ge "1.IH" in \<open>force split: if_splits sum.splits\<close>)
qed

lemma NextChar_advances:
  assumes "NextChar mem cur = Inr (True, c)"
  shows "cur < c \<and> c < length mem"
proof -
  obtain c1 where s: "FindSpace mem cur = Inr (True, c1)" "FindChar mem c1 = Inr (True, c)"
    using assms by (auto simp: NextChar_def rbind_eq_Inr split: if_splits)
  then have "cur \<le> c1" "blank (mem ! c1)" "c1 \<le> c" "\<not> blank (mem ! c)" "c < length mem"
    using FindSpace_result [OF s(1)] FindChar_result [OF s(2)] by simp_all
  then show ?thesis by (metis le_less_trans order_le_less)
qed

lemma find_word_loop_returns: "cur < length mem \<Longrightarrow> length mem \<le> cur + n \<Longrightarrow> find_word_loop n mem word cur \<noteq> None"
proof (induction n arbitrary: cur)
  case (Suc n)
  have "find_word_loop n mem word c \<noteq> None" if "NextChar mem cur = Inr (True, c)" for c
    using NextChar_advances [OF that] Suc.prems by (intro Suc.IH) linarith+
  then show ?case
    by (cases "strncmp_eq mem cur word"; cases "read_at mem (cur + length word)"; cases "NextChar mem cur") auto
qed simp

lemma FindWord_returns: "FindWord mem word cur \<noteq> None"
proof (cases "FindChar mem cur")
  case (Inr r)
  obtain ok c where r: "r = (ok, c)" by (cases r)
  have "find_word_loop (length mem) mem word c \<noteq> None" if ok
    using FindChar_result [of mem cur c] Inr r that by (intro find_word_loop_returns) auto
  then show ?thesis using Inr r by (simp add: FindWord_def)
qed (simp add: FindWord_def)

lemma xbind_returns: "m \<noteq> None \<Longrightarrow> (\<And>x. k x \<noteq> None) \<Longrightarrow> xbind m k \<noteq> None"
  by (cases m) (auto simp: xbind_def split: sum.splits)

lemma xbind_returns2: "m \<noteq> None \<Longrightarrow> (\<And>a b. k a b \<noteq> None) \<Longrightarrow> xbind m (\<lambda>(a, b). k a b) \<noteq> None"
  by (rule xbind_returns) (simp_all add: split_beta)

lemma if_returns: "a \<noteq> None \<Longrightarrow> b \<noteq> None \<Longrightarrow> (if c then a else b) \<noteq> None"
  by simp

lemma Some_returns: "Some x \<noteq> None"
  by simp

lemma find_value_returns: "find_value mem sec key \<noteq> None"
  unfolding find_value_def by (intro xbind_returns2 xbind_returns if_returns FindWord_returns Some_returns)

section \<open>Ends of files\<close>

lemma skip_to_end:
  "cur < length mem \<Longrightarrow> \<forall>i. cur \<le> i \<and> i < length mem - 1 \<longrightarrow> mem ! i \<noteq> CHR 0x0A \<Longrightarrow> skip_comment mem cur = length mem - 1"
proof (induction mem cur rule: skip_comment.induct)
  case (1 mem cur)
  then show ?case by (subst skip_comment.simps) auto
qed

lemma nth_mid: "length xs \<le> i \<Longrightarrow> i < length xs + length ys \<Longrightarrow> (xs @ ys @ zs) ! i = ys ! (i - length xs)"
  by (auto simp: nth_append)

lemma FindChar_open_comment:
  assumes "CHR 0x0A \<notin> set cmt"
  shows "FindChar (pre @ CHR '' '' # CHR ''/'' # CHR ''/'' # cmt @ [NUL]) (length pre) = Inr (False, length pre + length cmt + 4)"
proof -
  let ?m = "pre @ CHR '' '' # CHR ''/'' # CHR ''/'' # cmt @ [NUL]" and ?p = "length pre" and ?body = "CHR ''/'' # CHR ''/'' # cmt"
  have m: "?m = (pre @ [CHR '' '']) @ ?body @ [NUL]" by simp
  have nl: "?m ! i \<noteq> CHR 0x0A" if "?p + 1 \<le> i" "i < length ?m - 1" for i
  proof -
    have "?m ! i = ?body ! (i - length (pre @ [CHR '' '']))"
      unfolding m by (rule nth_mid) (use that in simp_all)
    moreover have "i - length (pre @ [CHR '' '']) < length ?body" using that by simp
    then have "?body ! (i - length (pre @ [CHR '' ''])) \<in> set ?body" by (rule nth_mem)
    ultimately show ?thesis using assms by auto
  qed
  have c: "comment_at ?m (?p + 1) = Inr True" by (simp add: comment_at_def read_at_def nth_append)
  have "skip_comment ?m (?p + 1) = length ?m - 1" using nl by (intro skip_to_end) auto
  then have "FindChar ?m (?p + 1) = FindChar ?m (length ?m)"
    using c by (subst FindChar.simps) simp
  also have "\<dots> = Inr (False, length ?m)" by (subst FindChar.simps) simp
  finally have "FindChar ?m (?p + 1) = Inr (False, length ?m)" .
  then show ?thesis by (subst FindChar.simps) (simp add: no_comment nth_append blank_def)
qed

section \<open>Properties\<close>



text \<open>Reading a value always returns, whatever the file holds: the scan for a word ends after at most as many
  rounds as the file has characters.\<close>

lemma parser_returns:
  "(\<exists>r. GetValue_int mem sec key = Some r) \<and> (\<exists>r. GetValue_str room mem sec key = Some r)"
  using find_value_returns [of mem sec key]
  by (auto simp: GetValue_int_def GetValue_str_def xbind_def split: sum.splits option.splits)

text \<open>A file that ends in a comment behind the name of the section is read beyond its end: the scan stops
  behind the terminating zero, its failure is ignored, and the next character is read.\<close>

lemma parser_reads_past_end:
  assumes "plain sec" "CHR 0x0A \<notin> set cmt"
  shows "GetValue_int (sec @ '' //'' @ cmt @ [NUL]) sec key = Some (Inl ReadOverrun)"
proof -
  let ?m = "sec @ '' //'' @ cmt @ [NUL]" and ?rest = "''//'' @ cmt @ [NUL]"
  have p: "\<forall>c \<in> set sec. \<not> blank c \<and> c \<noteq> CHR ''/'' \<and> c \<noteq> NUL" "sec \<noteq> []" "blank (CHR '' '')"
    using assms(1) by (auto simp: plain_def blank_def)
  then have h: "\<not> blank (?m ! 0)" "?m ! 0 \<noteq> CHR ''/''" by (cases sec; simp)+
  have m: "?m = sec @ CHR '' '' # ?rest" by simp
  have "strncmp_eq ?m 0 sec = Inr True"
    using strncmp_word [OF p(1,3), of sec "[]" ?rest] p(1) by simp
  moreover have "read_at ?m (0 + length sec) = Inr (CHR '' '')" unfolding m by (simp add: read_at_def)
  moreover have "FindChar ?m 0 = Inr (True, 0)" using h by (intro FindChar_here) simp_all
  ultimately have f: "FindWord ?m sec 0 = Some (Inr (True, 0))"
    using p(3) by (cases "length ?m") (simp_all add: FindWord_def)
  have "FindSpace ?m 0 = Inr (True, length sec)" using FindSpace_word [OF p(1,3), of "[]" ?rest] by simp
  moreover have "FindChar ?m (length sec) = Inr (False, length ?m)"
    using FindChar_open_comment [OF assms(2), of sec] by simp
  ultimately have "NextChar ?m 0 = Inr (False, length ?m)" by (simp add: NextChar_def)
  with f show ?thesis by (simp add: GetValue_int_def find_value_def read_at_def)
qed

lemma parser_reads_past_end_example: "GetValue_int (''Boss // the end'' @ [NUL]) ''Boss'' ''HP'' = Some (Inl ReadOverrun)"
proof -
  have "plain ''Boss''" "CHR 0x0A \<notin> set '' the end''" by (simp_all add: plain_def blank_def)
  from parser_reads_past_end [OF this, of "''HP''"] show ?thesis by simp
qed

end
