(* ===== verification/Crypto.thy ===== *)
theory Crypto
  imports Prelude
begin

text \<open>
  Encryption (\<^verbatim>\<open>JunCommon/crypto/AES128.*\<close> and \<^verbatim>\<open>RSA2048.*\<close>). The code is a layer over OpenSSL, whose functions
  are arguments (the records \<open>evp\<close> and \<open>rsa_api\<close>): each returns its result, what it writes and the new
  context. What the layer does itself is modelled: the buffer sizes it computes and checks, the order of
  the calls, every early return, and the objects it allocates and frees. A library call writes into the
  buffer of the caller; a write outside it is a fault.

  \<open>evp_law\<close> and \<open>rsa_law\<close> state the documented behaviour of the library: block ciphers with PKCS#7
  padding, and RSA with PKCS#1 padding, whose output is as long as the modulus.

  Shown: a message whose length is not a multiple of the block size is encrypted into a buffer of exactly
  the computed size and decrypted back; a message of full blocks (the empty one too) makes the encryption write
  16 bytes behind the buffer, because the computed size leaves no room for the padding block; key generation frees
  every temporary object once on each path; a key encrypted for an exported public key is recovered; and
  encrypting for an imported key of more than 2048 bits writes outside the buffer.
\<close>

section \<open>The cipher library\<close>

datatype cipher_mode = CBC | ECB

record 'c evp =
  CTX_new :: "'c option"
  CTX_reset :: "'c \<Rightarrow> bool \<times> 'c"
  EncryptInit_ex :: "cipher_mode \<Rightarrow> byte list \<Rightarrow> byte list option \<Rightarrow> 'c \<Rightarrow> bool \<times> 'c"
  EncryptUpdate :: "byte list \<Rightarrow> c_int \<Rightarrow> 'c \<Rightarrow> byte list option \<times> 'c"
  EncryptFinal_ex :: "'c \<Rightarrow> byte list option \<times> 'c"
  DecryptInit_ex :: "cipher_mode \<Rightarrow> byte list \<Rightarrow> byte list option \<Rightarrow> 'c \<Rightarrow> bool \<times> 'c"
  DecryptUpdate :: "byte list \<Rightarrow> c_int \<Rightarrow> 'c \<Rightarrow> byte list option \<times> 'c"
  DecryptFinal_ex :: "'c \<Rightarrow> byte list option \<times> 'c"

definition buf_write :: "byte list \<Rightarrow> nat \<Rightarrow> byte list \<Rightarrow> fault + byte list" where
  "buf_write buf i bs = (if i + length bs \<le> length buf then Inr (overwrite buf i bs) else Inl WriteOverrun)"

text \<open>\<open>std::vector::resize\<close>.\<close>

definition vec_resize :: "byte list \<Rightarrow> nat \<Rightarrow> byte list" where
  "vec_resize xs n = take n xs @ replicate (n - length xs) 0"

section \<open>AES-128\<close>

definition GetEncryptedSize :: "u64 \<Rightarrow> u64" where
  "GetEncryptedSize plaintext_size = ((plaintext_size + 15) div 16) * 16"

text \<open>The library reads 16 bytes of key and initialisation vector.\<close>

definition short_key :: "byte list \<Rightarrow> byte list option \<Rightarrow> bool" where
  "short_key key iv \<longleftrightarrow> length key < 16 \<or> (case iv of None \<Rightarrow> False | Some v \<Rightarrow> length v < 16)"

text \<open>Update and final step of an encryption; the result, the buffer and the context.\<close>

definition encrypt_into :: "'c evp \<Rightarrow> byte list \<Rightarrow> u64 \<Rightarrow> byte list \<Rightarrow> 'c \<Rightarrow> fault + bool \<times> byte list \<times> 'c" where
  "encrypt_into ev plaintext plaintext_size ciphertext ctx =
     (let inl = ucast plaintext_size in
      if int (length plaintext) < sint inl then Inl ReadOverrun
      else case EncryptUpdate ev plaintext inl ctx of
        (None, ctx1) \<Rightarrow> Inr (False, ciphertext, ctx1)
      | (Some out, ctx1) \<Rightarrow> rbind (buf_write ciphertext 0 out) (\<lambda>buf1.
          case EncryptFinal_ex ev ctx1 of
            (None, ctx2) \<Rightarrow> Inr (False, buf1, ctx2)
          | (Some final, ctx2) \<Rightarrow> rbind (buf_write buf1 (length out) final) (\<lambda>buf2. Inr (True, buf2, ctx2))))"

definition EncryptAES128 :: "'c evp \<Rightarrow> byte list \<Rightarrow> u64 \<Rightarrow> byte list \<Rightarrow> byte list \<Rightarrow> byte list \<Rightarrow> u64 \<Rightarrow> 'c \<Rightarrow> fault + bool \<times> byte list \<times> 'c" where
  "EncryptAES128 ev plaintext plaintext_size key iv ciphertext max_ciphertext_size ctx =
     (let expected_size = ((plaintext_size + 15) div 16) * 16 in
      if max_ciphertext_size \<noteq> expected_size then Inr (False, ciphertext, ctx)
      else case CTX_reset ev ctx of
        (False, ctx1) \<Rightarrow> Inr (False, ciphertext, ctx1)
      | (True, ctx1) \<Rightarrow>
          if short_key key (Some iv) then Inl ReadOverrun
          else case EncryptInit_ex ev CBC key (Some iv) ctx1 of
            (False, ctx2) \<Rightarrow> Inr (False, ciphertext, ctx2)
          | (True, ctx2) \<Rightarrow> encrypt_into ev plaintext plaintext_size ciphertext ctx2)"

definition EncryptAES128_ECB :: "'c evp \<Rightarrow> byte list \<Rightarrow> u64 \<Rightarrow> byte list \<Rightarrow> byte list \<Rightarrow> u64 \<Rightarrow> 'c \<Rightarrow> fault + bool \<times> byte list \<times> 'c" where
  "EncryptAES128_ECB ev plaintext plaintext_size key ciphertext max_ciphertext_size ctx =
     (let expected_size = ((plaintext_size + 15) div 16) * 16 in
      if max_ciphertext_size \<noteq> expected_size then Inr (False, ciphertext, ctx)
      else case CTX_reset ev ctx of
        (False, ctx1) \<Rightarrow> Inr (False, ciphertext, ctx1)
      | (True, ctx1) \<Rightarrow>
          if short_key key None then Inl ReadOverrun
          else case EncryptInit_ex ev ECB key None ctx1 of
            (False, ctx2) \<Rightarrow> Inr (False, ciphertext, ctx2)
          | (True, ctx2) \<Rightarrow> encrypt_into ev plaintext plaintext_size ciphertext ctx2)"

text \<open>Update and final step of a decryption; \<open>*actual_plaintext_size\<close> is stored on success only.\<close>

definition decrypt_into :: "'c evp \<Rightarrow> byte list \<Rightarrow> u64 \<Rightarrow> byte list \<Rightarrow> 'c \<Rightarrow> fault + u64 option \<times> byte list \<times> 'c" where
  "decrypt_into ev ciphertext ciphertext_size plaintext ctx =
     (let inl = ucast ciphertext_size in
      if int (length ciphertext) < sint inl then Inl ReadOverrun
      else case DecryptUpdate ev ciphertext inl ctx of
        (None, ctx1) \<Rightarrow> Inr (None, plaintext, ctx1)
      | (Some out, ctx1) \<Rightarrow> rbind (buf_write plaintext 0 out) (\<lambda>buf1.
          case DecryptFinal_ex ev ctx1 of
            (None, ctx2) \<Rightarrow> Inr (None, buf1, ctx2)
          | (Some final, ctx2) \<Rightarrow> rbind (buf_write buf1 (length out) final) (\<lambda>buf2.
              Inr (Some (of_nat (length out + length final)), buf2, ctx2))))"

text \<open>The decryptions return true when they give a size.\<close>

definition DecryptAES128 :: "'c evp \<Rightarrow> byte list \<Rightarrow> u64 \<Rightarrow> byte list \<Rightarrow> byte list \<Rightarrow> byte list \<Rightarrow> u64 \<Rightarrow> 'c \<Rightarrow> fault + u64 option \<times> byte list \<times> 'c" where
  "DecryptAES128 ev ciphertext ciphertext_size key iv plaintext max_plaintext_size ctx =
     (if max_plaintext_size < ciphertext_size then Inr (None, plaintext, ctx)
      else case CTX_reset ev ctx of
        (False, ctx1) \<Rightarrow> Inr (None, plaintext, ctx1)
      | (True, ctx1) \<Rightarrow>
          if short_key key (Some iv) then Inl ReadOverrun
          else case DecryptInit_ex ev CBC key (Some iv) ctx1 of
            (False, ctx2) \<Rightarrow> Inr (None, plaintext, ctx2)
          | (True, ctx2) \<Rightarrow> decrypt_into ev ciphertext ciphertext_size plaintext ctx2)"

definition DecryptAES128_ECB :: "'c evp \<Rightarrow> byte list \<Rightarrow> u64 \<Rightarrow> byte list \<Rightarrow> byte list \<Rightarrow> u64 \<Rightarrow> 'c \<Rightarrow> fault + u64 option \<times> byte list \<times> 'c" where
  "DecryptAES128_ECB ev ciphertext ciphertext_size key plaintext max_plaintext_size ctx =
     (if max_plaintext_size < ciphertext_size then Inr (None, plaintext, ctx)
      else case CTX_reset ev ctx of
        (False, ctx1) \<Rightarrow> Inr (None, plaintext, ctx1)
      | (True, ctx1) \<Rightarrow>
          if short_key key None then Inl ReadOverrun
          else case DecryptInit_ex ev ECB key None ctx1 of
            (False, ctx2) \<Rightarrow> Inr (None, plaintext, ctx2)
          | (True, ctx2) \<Rightarrow> decrypt_into ev ciphertext ciphertext_size plaintext ctx2)"

text \<open>The context of the thread, made at its first use. The public functions are \<open>noexcept\<close>, so the
  exception of the constructor ends the process.\<close>

definition GetThreadLocalContext :: "'c evp \<Rightarrow> 'c option \<Rightarrow> fault + 'c" where
  "GetThreadLocalContext ev tls = (case tls of
     Some ctx \<Rightarrow> Inr ctx
   | None \<Rightarrow> (case CTX_new ev of None \<Rightarrow> Inl Terminate | Some ctx \<Rightarrow> Inr ctx))"

definition aes_Encrypt :: "'c evp \<Rightarrow> byte list \<Rightarrow> u64 \<Rightarrow> byte list \<Rightarrow> byte list \<Rightarrow> byte list \<Rightarrow> u64 \<Rightarrow> 'c option \<Rightarrow> fault + bool \<times> byte list \<times> 'c" where
  "aes_Encrypt ev plaintext plaintext_size key iv ciphertext max_ciphertext_size tls =
     rbind (GetThreadLocalContext ev tls) (EncryptAES128 ev plaintext plaintext_size key iv ciphertext max_ciphertext_size)"

definition aes_Decrypt :: "'c evp \<Rightarrow> byte list \<Rightarrow> u64 \<Rightarrow> byte list \<Rightarrow> byte list \<Rightarrow> byte list \<Rightarrow> u64 \<Rightarrow> 'c option \<Rightarrow> fault + u64 option \<times> byte list \<times> 'c" where
  "aes_Decrypt ev ciphertext ciphertext_size key iv plaintext max_plaintext_size tls =
     rbind (GetThreadLocalContext ev tls) (DecryptAES128 ev ciphertext ciphertext_size key iv plaintext max_plaintext_size)"

definition EncryptECB :: "'c evp \<Rightarrow> byte list \<Rightarrow> u64 \<Rightarrow> byte list \<Rightarrow> byte list \<Rightarrow> u64 \<Rightarrow> 'c option \<Rightarrow> fault + bool \<times> byte list \<times> 'c" where
  "EncryptECB ev plaintext plaintext_size key ciphertext max_ciphertext_size tls =
     rbind (GetThreadLocalContext ev tls) (EncryptAES128_ECB ev plaintext plaintext_size key ciphertext max_ciphertext_size)"

definition DecryptECB :: "'c evp \<Rightarrow> byte list \<Rightarrow> u64 \<Rightarrow> byte list \<Rightarrow> byte list \<Rightarrow> u64 \<Rightarrow> 'c option \<Rightarrow> fault + u64 option \<times> byte list \<times> 'c" where
  "DecryptECB ev ciphertext ciphertext_size key plaintext max_plaintext_size tls =
     rbind (GetThreadLocalContext ev tls) (DecryptAES128_ECB ev ciphertext ciphertext_size key plaintext max_plaintext_size)"

text \<open>The overloads on vectors. The result vector of a decryption is cut to the actual size when it succeeded.\<close>

definition Encrypt_vec :: "'c evp \<Rightarrow> byte list \<Rightarrow> byte list \<Rightarrow> byte list \<Rightarrow> byte list \<Rightarrow> 'c option \<Rightarrow> fault + bool \<times> byte list \<times> 'c" where
  "Encrypt_vec ev plaintext key iv ciphertext tls =
     (let encrypted_size = GetEncryptedSize (of_nat (length plaintext));
          ciphertext1 = vec_resize ciphertext (unat encrypted_size)
      in aes_Encrypt ev plaintext (of_nat (length plaintext)) key iv ciphertext1 (of_nat (length ciphertext1)) tls)"

definition shrink :: "u64 option \<times> byte list \<times> 'c \<Rightarrow> bool \<times> byte list \<times> 'c" where
  "shrink r = (case r of (None, buf, ctx) \<Rightarrow> (False, buf, ctx) | (Some actual_size, buf, ctx) \<Rightarrow> (True, vec_resize buf (unat actual_size), ctx))"

definition Decrypt_vec :: "'c evp \<Rightarrow> byte list \<Rightarrow> byte list \<Rightarrow> byte list \<Rightarrow> byte list \<Rightarrow> 'c option \<Rightarrow> fault + bool \<times> byte list \<times> 'c" where
  "Decrypt_vec ev ciphertext key iv plaintext tls =
     (let plaintext1 = vec_resize plaintext (length ciphertext)
      in rbind (aes_Decrypt ev ciphertext (of_nat (length ciphertext)) key iv plaintext1 (of_nat (length plaintext1)) tls) (\<lambda>r. Inr (shrink r)))"

definition EncryptECB_vec :: "'c evp \<Rightarrow> byte list \<Rightarrow> byte list \<Rightarrow> byte list \<Rightarrow> 'c option \<Rightarrow> fault + bool \<times> byte list \<times> 'c" where
  "EncryptECB_vec ev plaintext key ciphertext tls =
     (let encrypted_size = GetEncryptedSize (of_nat (length plaintext));
          ciphertext1 = vec_resize ciphertext (unat encrypted_size)
      in EncryptECB ev plaintext (of_nat (length plaintext)) key ciphertext1 (of_nat (length ciphertext1)) tls)"

definition DecryptECB_vec :: "'c evp \<Rightarrow> byte list \<Rightarrow> byte list \<Rightarrow> byte list \<Rightarrow> 'c option \<Rightarrow> fault + bool \<times> byte list \<times> 'c" where
  "DecryptECB_vec ev ciphertext key plaintext tls =
     (let plaintext1 = vec_resize plaintext (length ciphertext)
      in rbind (DecryptECB ev ciphertext (of_nat (length ciphertext)) key plaintext1 (of_nat (length plaintext1)) tls) (\<lambda>r. Inr (shrink r)))"

text \<open>Random keys; \<open>RAND_bytes\<close> gives the bytes or fails, and a failure is an exception.\<close>

definition GenerateRandomKey :: "(nat \<Rightarrow> byte list option) \<Rightarrow> string + byte list" where
  "GenerateRandomKey RAND_bytes = (case RAND_bytes 16 of None \<Rightarrow> Inl ''Failed to generate AES-128 key'' | Some key \<Rightarrow> Inr key)"

definition GenerateRandomIV :: "(nat \<Rightarrow> byte list option) \<Rightarrow> string + byte list" where
  "GenerateRandomIV RAND_bytes = (case RAND_bytes 16 of None \<Rightarrow> Inl ''Failed to generate random IV'' | Some iv \<Rightarrow> Inr iv)"

section \<open>RSA-2048\<close>

text \<open>The RSA functions of the library on key structures \<open>'r\<close>; encryption draws its padding from a seed.\<close>

record 'r rsa_api =
  i2d_RSA_PUBKEY :: "'r \<Rightarrow> byte list option"
  d2i_RSA_PUBKEY :: "byte list \<Rightarrow> 'r option"
  RSA_public_encrypt :: "nat \<Rightarrow> byte list \<Rightarrow> 'r \<Rightarrow> byte list option"
  RSA_private_decrypt :: "byte list \<Rightarrow> 'r \<Rightarrow> byte list option"

record 'r RSA2048 =
  rsa_keypair :: "'r option"
  rsa_public_only :: "'r option"

definition KEY_SIZE_BYTES :: nat where
  "KEY_SIZE_BYTES = 2048 div 8"

definition MAX_ENCRYPT_SIZE :: nat where
  "MAX_ENCRYPT_SIZE = KEY_SIZE_BYTES - 11"

definition RSA2048_ctor :: "'r RSA2048" where
  "RSA2048_ctor = \<lparr>rsa_keypair = None, rsa_public_only = None\<rparr>"

text \<open>The static flag and the calls that seed the generator.\<close>

definition InitializeOpenSSL :: "c_int \<Rightarrow> bool \<Rightarrow> bool \<times> bool" where
  "InitializeOpenSSL RAND_status openssl_initialized =
     (if openssl_initialized then (False, True) else (RAND_status \<noteq> 1, True))"

text \<open>What is allocated and freed, in order.\<close>

datatype 'r ossl_event = NewCtx | FreeCtx | NewBN | FreeBN | NewPkey | FreePkey | FreeRSA 'r

definition RSA_free :: "'r option \<Rightarrow> 'r ossl_event list" where
  "RSA_free r = (case r of None \<Rightarrow> [] | Some k \<Rightarrow> [FreeRSA k])"

definition RSA2048_dtor :: "'r RSA2048 \<Rightarrow> 'r RSA2048 \<times> 'r ossl_event list" where
  "RSA2048_dtor this = (RSA2048_ctor, RSA_free (rsa_keypair this) @ RSA_free (rsa_public_only this))"

text \<open>The results of the calls of a key generation.\<close>

record 'r keygen_results =
  kg_ctx :: bool
  kg_init :: int
  kg_bits :: int
  kg_bn :: bool
  kg_word :: bool
  kg_pubexp :: int
  kg_keygen :: int
  kg_rsa :: "'r option"

definition GenerateKeyPair :: "'r keygen_results \<Rightarrow> 'r RSA2048 \<Rightarrow> bool \<times> 'r RSA2048 \<times> 'r ossl_event list" where
  "GenerateKeyPair kg this =
     (let freed = RSA_free (rsa_keypair this); this1 = this\<lparr>rsa_keypair := None\<rparr> in
      if \<not> kg_ctx kg then (False, this1, freed)
      else if kg_init kg \<le> 0 then (False, this1, freed @ [NewCtx, FreeCtx])
      else if kg_bits kg \<le> 0 then (False, this1, freed @ [NewCtx, FreeCtx])
      else if \<not> kg_bn kg then (False, this1, freed @ [NewCtx, FreeCtx])
      else if \<not> kg_word kg then (False, this1, freed @ [NewCtx, NewBN, FreeBN, FreeCtx])
      else if kg_pubexp kg \<le> 0 then (False, this1, freed @ [NewCtx, NewBN, FreeBN, FreeCtx])
      else if kg_keygen kg \<le> 0 then (False, this1, freed @ [NewCtx, NewBN, FreeBN, FreeCtx])
      else (kg_rsa kg \<noteq> None, this1\<lparr>rsa_keypair := kg_rsa kg\<rparr>, freed @ [NewCtx, NewBN, FreeBN, NewPkey, FreePkey, FreeCtx]))"

definition ExportPublicKey :: "'r rsa_api \<Rightarrow> 'r RSA2048 \<Rightarrow> string + byte list" where
  "ExportPublicKey api this = (case rsa_keypair this of
     None \<Rightarrow> Inl ''No key pair available for export''
   | Some k \<Rightarrow> (case i2d_RSA_PUBKEY api k of
       None \<Rightarrow> Inl ''Failed to export public key to DER format''
     | Some der \<Rightarrow> if length der = 0 then Inl ''Failed to export public key to DER format'' else Inr der))"

definition ImportPublicKey :: "'r rsa_api \<Rightarrow> byte list \<Rightarrow> 'r RSA2048 \<Rightarrow> bool \<times> 'r RSA2048 \<times> 'r ossl_event list" where
  "ImportPublicKey api publicKeyData this =
     (let freed = RSA_free (rsa_public_only this); k = d2i_RSA_PUBKEY api publicKeyData
      in (k \<noteq> None, this\<lparr>rsa_public_only := k\<rparr>, freed))"

definition EncryptWithPublicKey :: "'r rsa_api \<Rightarrow> nat \<Rightarrow> byte list \<Rightarrow> byte list \<Rightarrow> 'r RSA2048 \<Rightarrow> fault + bool \<times> byte list" where
  "EncryptWithPublicKey api seed plaintext ciphertext this = (case rsa_public_only this of
     None \<Rightarrow> Inr (False, ciphertext)
   | Some k \<Rightarrow>
       if MAX_ENCRYPT_SIZE < length plaintext then Inr (False, ciphertext)
       else let ciphertext1 = vec_resize ciphertext KEY_SIZE_BYTES in
         (case RSA_public_encrypt api seed plaintext k of
            None \<Rightarrow> Inr (False, [])
          | Some out \<Rightarrow> rbind (buf_write ciphertext1 0 out) (\<lambda>c. Inr (True, vec_resize c (length out)))))"

definition DecryptWithPrivateKey :: "'r rsa_api \<Rightarrow> byte list \<Rightarrow> byte list \<Rightarrow> 'r RSA2048 \<Rightarrow> fault + bool \<times> byte list" where
  "DecryptWithPrivateKey api ciphertext plaintext this = (case rsa_keypair this of
     None \<Rightarrow> Inr (False, plaintext)
   | Some k \<Rightarrow>
       let plaintext1 = vec_resize plaintext KEY_SIZE_BYTES in
       (case RSA_private_decrypt api ciphertext k of
          None \<Rightarrow> Inr (False, [])
        | Some out \<Rightarrow> rbind (buf_write plaintext1 0 out) (\<lambda>p. Inr (True, vec_resize p (length out)))))"

definition HasKeyPair :: "'r RSA2048 \<Rightarrow> bool" where
  "HasKeyPair this \<longleftrightarrow> rsa_keypair this \<noteq> None"

definition HasPublicKeyOnly :: "'r RSA2048 \<Rightarrow> bool" where
  "HasPublicKeyOnly this \<longleftrightarrow> rsa_public_only this \<noteq> None"

section \<open>What the cipher library promises\<close>

text \<open>PKCS#7 padding: 1 to 16 bytes, each holding their number.\<close>

definition pkcs7 :: "byte list \<Rightarrow> byte list" where
  "pkcs7 xs = (let k = 16 - length xs mod 16 in xs @ replicate k (of_nat k))"

definition unpad :: "byte list \<Rightarrow> byte list option" where
  "unpad xs =
     (let k = unat (last xs) in
      if 1 \<le> k \<and> k \<le> 16 \<and> drop (length xs - k) xs = replicate k (last xs) then Some (take (length xs - k) xs) else None)"

definition whole :: "byte list \<Rightarrow> nat" where
  "whole xs = 16 * (length xs div 16)"

text \<open>An update encrypts the whole blocks, the final step the padded rest; in a decryption the update holds
  back the last block, and the final step fails unless it is padded well.\<close>

definition evp_law :: "'c evp \<Rightarrow> (cipher_mode \<Rightarrow> byte list \<Rightarrow> byte list option \<Rightarrow> byte list \<Rightarrow> byte list) \<Rightarrow>
    (cipher_mode \<Rightarrow> byte list \<Rightarrow> byte list option \<Rightarrow> byte list \<Rightarrow> byte list) \<Rightarrow> bool" where
  "evp_law ev E D \<longleftrightarrow>
     (\<exists>ctx. CTX_new ev = Some ctx) \<and> (\<forall>ctx. fst (CTX_reset ev ctx)) \<and>
     (\<forall>m key iv xs. 16 dvd length xs \<longrightarrow> length (E m key iv xs) = length xs \<and> length (D m key iv xs) = length xs \<and> D m key iv (E m key iv xs) = xs) \<and>
     (\<forall>m key iv xs ctx. length xs < 2 ^ 31 \<longrightarrow>
        (\<exists>ctx1 ctx2 ctx3. EncryptInit_ex ev m key iv (snd (CTX_reset ev ctx)) = (True, ctx1) \<and>
           EncryptUpdate ev xs (of_nat (length xs)) ctx1 = (Some (take (whole xs) (E m key iv (pkcs7 xs))), ctx2) \<and>
           EncryptFinal_ex ev ctx2 = (Some (drop (whole xs) (E m key iv (pkcs7 xs))), ctx3))) \<and>
     (\<forall>m key iv ys ctx. 0 < length ys \<and> 16 dvd length ys \<and> length ys < 2 ^ 31 \<longrightarrow>
        (\<exists>ctx1 ctx2 ctx3. DecryptInit_ex ev m key iv (snd (CTX_reset ev ctx)) = (True, ctx1) \<and>
           DecryptUpdate ev ys (of_nat (length ys)) ctx1 = (Some (take (length ys - 16) (D m key iv ys)), ctx2) \<and>
           DecryptFinal_ex ev ctx2 = (map_option (drop (length ys - 16)) (unpad (D m key iv ys)), ctx3)))"

section \<open>Facts\<close>

lemma length_pkcs7: "length (pkcs7 xs) = whole xs + 16"
proof -
  have "length (pkcs7 xs) = length xs + (16 - length xs mod 16)" by (simp add: pkcs7_def Let_def)
  moreover have "length xs = whole xs + length xs mod 16" unfolding whole_def by (simp add: mult_div_mod_eq)
  moreover have "length xs mod 16 < 16" by simp
  ultimately show ?thesis by linarith
qed

lemma dvd_pkcs7: "16 dvd length (pkcs7 xs)"
  by (simp add: length_pkcs7 whole_def)

lemma unpad_pkcs7: "unpad (pkcs7 xs) = Some xs"
proof -
  define k where "k = 16 - length xs mod 16"
  have "length xs mod 16 < 16" by simp
  then have k: "1 \<le> k" "k \<le> 16" by (simp_all add: k_def)
  then have u: "unat (of_nat k :: byte) = k" by (simp add: unat_of_nat)
  have p: "pkcs7 xs = xs @ replicate k (of_nat k)" by (simp add: pkcs7_def k_def Let_def)
  have l: "last (pkcs7 xs) = of_nat k" using k by (simp add: p)
  show ?thesis unfolding unpad_def l u Let_def using k by (simp add: p)
qed

lemma length_vec_resize [simp]: "length (vec_resize xs n) = n"
  by (simp add: vec_resize_def)

text \<open>Two writes one behind the other leave their bytes at the start of the buffer.\<close>

lemma two_writes:
  assumes "length as + length bs \<le> length buf"
  shows "rbind (buf_write buf 0 as) (\<lambda>b1. rbind (buf_write b1 (length as) bs) f) = f (as @ bs @ drop (length as + length bs) buf)"
  using assms by (simp add: buf_write_def overwrite_def add.commute)

lemma two_writes_overrun:
  assumes "length buf < length as + length bs" "length as \<le> length buf"
  shows "rbind (buf_write buf 0 as) (\<lambda>b1. rbind (buf_write b1 (length as) bs) f) = Inl WriteOverrun"
  using assms by (simp add: buf_write_def overwrite_def)

lemma unat_GetEncryptedSize:
  assumes "n < 2 ^ 31"
  shows "unat (GetEncryptedSize (of_nat n)) = (n + 15) div 16 * 16"
proof -
  have "(n + 15) div 16 * 16 \<le> n + 15" by (rule div_times_less_eq_dividend)
  then have b: "(n + 15) div 16 * 16 < 2 ^ 64" using assms by simp
  have u: "unat (of_nat n + 15 :: u64) = n + 15"
    using assms unat_of_nat_u64 [of "n + 15"] by (simp only: of_nat_add of_nat_numeral) simp
  have "unat (GetEncryptedSize (of_nat n)) = (n + 15) div 16 * 16 mod 2 ^ 64"
    unfolding GetEncryptedSize_def by (simp only: unat_word_ariths(2) unat_div u) simp
  then show ?thesis using b by simp
qed

lemma encrypted_size_partial:
  assumes "n mod 16 \<noteq> 0"
  shows "(n + 15) div 16 * 16 = 16 * (n div 16) + (16 :: nat)"
proof -
  have "(n + 15) div 16 = (16 * (n div 16) + (n mod 16 + 15)) div 16" by (rule arg_cong) simp
  also have "\<dots> = n div 16 + (n mod 16 + 15) div 16" by (rule div_mult_self4) simp
  also have "(n mod 16 + 15) div 16 = 1"
    using assms mod_less_divisor [of 16 n] by (intro div_nat_eqI) auto
  finally show ?thesis by simp
qed

lemma encrypted_size_full:
  assumes "n mod 16 = 0"
  shows "(n + 15) div 16 * 16 = (n :: nat)"
  using assms by presburger

lemma context_exists: "evp_law ev E D \<Longrightarrow> \<exists>ctx. GetThreadLocalContext ev tls = Inr ctx"
  by (cases tls) (auto simp: evp_law_def GetThreadLocalContext_def)

lemma int_size: "n < 2 ^ 31 \<Longrightarrow> (ucast (of_nat n :: u64) :: c_int) = of_nat n"
  by (simp add: ucast_of_nat)

lemma take_drop_app: "take n xs @ drop n xs @ ys = xs @ ys"
  by (metis append_assoc append_take_drop_id)

lemma encrypt_into_law:
  assumes law: "evp_law ev E D" and n: "length xs < 2 ^ 31"
  shows "\<exists>ctx1. EncryptInit_ex ev m key iv (snd (CTX_reset ev ctx)) = (True, ctx1) \<and>
    (length buf = whole xs + 16 \<longrightarrow> (\<exists>ctx2. encrypt_into ev xs (of_nat (length xs)) buf ctx1 = Inr (True, E m key iv (pkcs7 xs), ctx2))) \<and>
    (length buf = whole xs \<longrightarrow> encrypt_into ev xs (of_nat (length xs)) buf ctx1 = Inl WriteOverrun)"
proof -
  let ?ct = "E m key iv (pkcs7 xs)"
  obtain ctx1 ctx2 ctx3 where i: "EncryptInit_ex ev m key iv (snd (CTX_reset ev ctx)) = (True, ctx1)"
      and u: "EncryptUpdate ev xs (of_nat (length xs)) ctx1 = (Some (take (whole xs) ?ct), ctx2)"
      and f: "EncryptFinal_ex ev ctx2 = (Some (drop (whole xs) ?ct), ctx3)"
    using law n unfolding evp_law_def by blast
  have l: "length ?ct = whole xs + 16" using law dvd_pkcs7 [of xs] by (simp add: evp_law_def length_pkcs7)
  have step: "encrypt_into ev xs (of_nat (length xs)) buf ctx1 =
      rbind (buf_write buf 0 (take (whole xs) ?ct)) (\<lambda>b1. rbind (buf_write b1 (length (take (whole xs) ?ct)) (drop (whole xs) ?ct)) (\<lambda>b2. Inr (True, b2, ctx3)))"
    unfolding encrypt_into_def Let_def int_size [OF n] sint_of_nat_c_int [OF n] u prod.case option.case f by simp
  have "encrypt_into ev xs (of_nat (length xs)) buf ctx1 = Inr (True, ?ct, ctx3)" if "length buf = whole xs + 16"
    unfolding step using that l by (subst two_writes) simp_all
  moreover have "encrypt_into ev xs (of_nat (length xs)) buf ctx1 = Inl WriteOverrun" if "length buf = whole xs"
    unfolding step using that l by (subst two_writes_overrun) simp_all
  ultimately show ?thesis using i by blast
qed

lemma decrypt_into_law:
  assumes law: "evp_law ev E D" and n: "length xs < 2 ^ 31 - 16" and buf: "length buf = whole xs + 16"
  shows "\<exists>ctx1 ctx2 rest. DecryptInit_ex ev m key iv (snd (CTX_reset ev ctx)) = (True, ctx1) \<and>
    decrypt_into ev (E m key iv (pkcs7 xs)) (of_nat (whole xs + 16)) buf ctx1 = Inr (Some (of_nat (length xs)), xs @ rest, ctx2)"
proof -
  let ?ct = "E m key iv (pkcs7 xs)"
  have d: "D m key iv ?ct = pkcs7 xs" and l: "length ?ct = whole xs + 16"
    using law dvd_pkcs7 [of xs] by (simp_all add: evp_law_def length_pkcs7)
  have w: "whole xs \<le> length xs" "whole xs + 16 < 2 ^ 31"
    using n times_div_less_eq_dividend [of 16 "length xs"] by (simp_all add: whole_def)
  have t: "take (whole xs) (pkcs7 xs) = take (whole xs) xs" using w(1) by (simp add: pkcs7_def Let_def)
  have "0 < length ?ct \<and> 16 dvd length ?ct \<and> length ?ct < 2 ^ 31" using w l by (simp add: whole_def)
  then obtain ctx1 ctx2 ctx3 where i: "DecryptInit_ex ev m key iv (snd (CTX_reset ev ctx)) = (True, ctx1)"
      and u: "DecryptUpdate ev ?ct (of_nat (length ?ct)) ctx1 = (Some (take (length ?ct - 16) (D m key iv ?ct)), ctx2)"
      and f: "DecryptFinal_ex ev ctx2 = (map_option (drop (length ?ct - 16)) (unpad (D m key iv ?ct)), ctx3)"
    using law unfolding evp_law_def by blast
  have u': "DecryptUpdate ev ?ct (of_nat (whole xs + 16)) ctx1 = (Some (take (whole xs) xs), ctx2)"
    using u by (simp add: l d t)
  have f': "DecryptFinal_ex ev ctx2 = (Some (drop (whole xs) xs), ctx3)"
    using f by (simp add: l d unpad_pkcs7)
  have "length xs \<le> length buf" using length_pkcs7 [of xs] buf by (simp add: pkcs7_def Let_def)
  then have "decrypt_into ev ?ct (of_nat (whole xs + 16)) buf ctx1 =
      Inr (Some (of_nat (length xs)), xs @ drop (length xs) buf, ctx3)"
    unfolding decrypt_into_def Let_def int_size [OF w(2)] sint_of_nat_c_int [OF w(2)] u' prod.case option.case f'
    using w two_writes [of "take (whole xs) xs" "drop (whole xs) xs" buf] by (simp add: l take_drop_app)
  with i show ?thesis by blast
qed

text \<open>Both modes, from a context in any state.\<close>

lemma reset_True: "evp_law ev E D \<Longrightarrow> \<exists>ctx0. CTX_reset ev ctx = (True, ctx0)"
  by (simp add: evp_law_def prod_eq_iff)

lemma EncryptAES128_law:
  assumes "evp_law ev E D" "length xs < 2 ^ 31" "\<not> short_key key (Some iv)"
  shows "length buf = whole xs + 16 \<Longrightarrow> max_size = GetEncryptedSize (of_nat (length xs)) \<Longrightarrow>
      \<exists>ctx2. EncryptAES128 ev xs (of_nat (length xs)) key iv buf max_size ctx = Inr (True, E CBC key (Some iv) (pkcs7 xs), ctx2)"
    and "length buf = whole xs \<Longrightarrow> max_size = GetEncryptedSize (of_nat (length xs)) \<Longrightarrow>
      EncryptAES128 ev xs (of_nat (length xs)) key iv buf max_size ctx = Inl WriteOverrun"
  using encrypt_into_law [OF assms(1,2), of CBC key "Some iv" ctx buf] reset_True [OF assms(1), of ctx] assms(3)
  by (auto simp: EncryptAES128_def GetEncryptedSize_def)

lemma EncryptAES128_ECB_law:
  assumes "evp_law ev E D" "length xs < 2 ^ 31" "\<not> short_key key None"
  shows "length buf = whole xs + 16 \<Longrightarrow> max_size = GetEncryptedSize (of_nat (length xs)) \<Longrightarrow>
      \<exists>ctx2. EncryptAES128_ECB ev xs (of_nat (length xs)) key buf max_size ctx = Inr (True, E ECB key None (pkcs7 xs), ctx2)"
    and "length buf = whole xs \<Longrightarrow> max_size = GetEncryptedSize (of_nat (length xs)) \<Longrightarrow>
      EncryptAES128_ECB ev xs (of_nat (length xs)) key buf max_size ctx = Inl WriteOverrun"
  using encrypt_into_law [OF assms(1,2), of ECB key None ctx buf] reset_True [OF assms(1), of ctx] assms(3)
  by (auto simp: EncryptAES128_ECB_def GetEncryptedSize_def)

lemma vec_resize_prefix: "vec_resize (xs @ rest) (length xs) = xs"
  by (simp add: vec_resize_def)

lemma size_facts:
  assumes "length xs < 2 ^ 31 - 16"
  shows "length xs < 2 ^ 31" "whole xs + 16 < 2 ^ 31" "unat (of_nat (length xs) :: u64) = length xs"
    "length xs mod 16 \<noteq> 0 \<Longrightarrow> unat (GetEncryptedSize (of_nat (length xs))) = whole xs + 16"
    "length xs mod 16 = 0 \<Longrightarrow> unat (GetEncryptedSize (of_nat (length xs))) = whole xs"
  using assms times_div_less_eq_dividend [of 16 "length xs"] unat_GetEncryptedSize [of "length xs"]
    encrypted_size_partial [of "length xs"] encrypted_size_full [of "length xs"] unat_of_nat_u64 [of "length xs"]
  by (auto simp: whole_def)

lemma Decrypt_vec_law:
  assumes law: "evp_law ev E D" and n: "length xs < 2 ^ 31 - 16" and key: "\<not> short_key key (Some iv)"
  shows "\<exists>ctx2. Decrypt_vec ev (E CBC key (Some iv) (pkcs7 xs)) key iv old tls = Inr (True, xs, ctx2)"
proof -
  let ?ct = "E CBC key (Some iv) (pkcs7 xs)" and ?buf = "vec_resize old (whole xs + 16)"
  have l: "length ?ct = whole xs + 16" using law dvd_pkcs7 [of xs] by (simp add: evp_law_def length_pkcs7)
  obtain ctx where c: "GetThreadLocalContext ev tls = Inr ctx" using context_exists [OF law] by blast
  obtain ctx1 ctx2 rest where i: "DecryptInit_ex ev CBC key (Some iv) (snd (CTX_reset ev ctx)) = (True, ctx1)"
      and d: "decrypt_into ev ?ct (of_nat (whole xs + 16)) ?buf ctx1 = Inr (Some (of_nat (length xs)), xs @ rest, ctx2)"
    using decrypt_into_law [OF law n, of ?buf CBC key "Some iv" ctx] by auto
  obtain ctx0 where r: "CTX_reset ev ctx = (True, ctx0)" using reset_True [OF law] by blast
  have "Decrypt_vec ev ?ct key iv old tls = Inr (shrink (Some (of_nat (length xs)), xs @ rest, ctx2))"
    using key d i unfolding Decrypt_vec_def aes_Decrypt_def DecryptAES128_def l Let_def c
    by (simp add: r)
  then show ?thesis by (simp add: shrink_def size_facts(3) [OF n] vec_resize_prefix)
qed

lemma DecryptECB_vec_law:
  assumes law: "evp_law ev E D" and n: "length xs < 2 ^ 31 - 16" and key: "\<not> short_key key None"
  shows "\<exists>ctx2. DecryptECB_vec ev (E ECB key None (pkcs7 xs)) key old tls = Inr (True, xs, ctx2)"
proof -
  let ?ct = "E ECB key None (pkcs7 xs)" and ?buf = "vec_resize old (whole xs + 16)"
  have l: "length ?ct = whole xs + 16" using law dvd_pkcs7 [of xs] by (simp add: evp_law_def length_pkcs7)
  obtain ctx where c: "GetThreadLocalContext ev tls = Inr ctx" using context_exists [OF law] by blast
  obtain ctx1 ctx2 rest where i: "DecryptInit_ex ev ECB key None (snd (CTX_reset ev ctx)) = (True, ctx1)"
      and d: "decrypt_into ev ?ct (of_nat (whole xs + 16)) ?buf ctx1 = Inr (Some (of_nat (length xs)), xs @ rest, ctx2)"
    using decrypt_into_law [OF law n, of ?buf ECB key None ctx] by auto
  obtain ctx0 where r: "CTX_reset ev ctx = (True, ctx0)" using reset_True [OF law] by blast
  have "DecryptECB_vec ev ?ct key old tls = Inr (shrink (Some (of_nat (length xs)), xs @ rest, ctx2))"
    using key d i unfolding DecryptECB_vec_def DecryptECB_def DecryptAES128_ECB_def l Let_def c
    by (simp add: r)
  then show ?thesis by (simp add: shrink_def size_facts(3) [OF n] vec_resize_prefix)
qed

section \<open>Properties of AES-128\<close>

lemma aes_both_modes:
  assumes "evp_law ev E D" "length xs < 2 ^ 31 - 16" "length xs mod 16 \<noteq> 0" "16 \<le> length key" "16 \<le> length iv"
  shows "\<exists>ct ctx. Encrypt_vec ev xs key iv old tls = Inr (True, ct, ctx) \<and> length ct = unat (GetEncryptedSize (of_nat (length xs))) \<and>
      (\<exists>ctx2. Decrypt_vec ev ct key iv old2 tls2 = Inr (True, xs, ctx2))"
    and "\<exists>ct ctx. EncryptECB_vec ev xs key old tls = Inr (True, ct, ctx) \<and> length ct = unat (GetEncryptedSize (of_nat (length xs))) \<and>
      (\<exists>ctx2. DecryptECB_vec ev ct key old2 tls2 = Inr (True, xs, ctx2))"
proof -
  note f = size_facts [OF assms(2)]
  have k: "\<not> short_key key (Some iv)" "\<not> short_key key None" using assms(4,5) by (simp_all add: short_key_def)
  have l: "length (E m key v (pkcs7 xs)) = unat (GetEncryptedSize (of_nat (length xs)))" for m v
    using assms(1) dvd_pkcs7 [of xs] f(4) [OF assms(3)] by (simp add: evp_law_def length_pkcs7)
  obtain ctx where c: "GetThreadLocalContext ev tls = Inr ctx" using context_exists [OF assms(1)] by blast
  show "\<exists>ct ctx. Encrypt_vec ev xs key iv old tls = Inr (True, ct, ctx) \<and> length ct = unat (GetEncryptedSize (of_nat (length xs))) \<and>
      (\<exists>ctx2. Decrypt_vec ev ct key iv old2 tls2 = Inr (True, xs, ctx2))"
    using EncryptAES128_law(1) [OF assms(1) f(1) k(1), of "vec_resize old (whole xs + 16)" _ ctx] l [of CBC "Some iv"]
      Decrypt_vec_law [OF assms(1,2) k(1), of old2 tls2] f(4) [OF assms(3)]
    by (force simp: Encrypt_vec_def aes_Encrypt_def c)
  show "\<exists>ct ctx. EncryptECB_vec ev xs key old tls = Inr (True, ct, ctx) \<and> length ct = unat (GetEncryptedSize (of_nat (length xs))) \<and>
      (\<exists>ctx2. DecryptECB_vec ev ct key old2 tls2 = Inr (True, xs, ctx2))"
    using EncryptAES128_ECB_law(1) [OF assms(1) f(1) k(2), of "vec_resize old (whole xs + 16)" _ ctx] l [of ECB None]
      DecryptECB_vec_law [OF assms(1,2) k(2), of old2 tls2] f(4) [OF assms(3)]
    by (force simp: EncryptECB_vec_def EncryptECB_def c)
qed

text \<open>C17: Encryption and decryption are inverse, in both modes: a message whose length is not a multiple of 16 is
  encrypted into a vector of exactly \<open>GetEncryptedSize\<close> bytes, and decrypting that vector with the same key
  (and initialisation vector) gives the message back, whatever the state of the contexts and vectors before.\<close>

theorem aes_roundtrip:
  assumes "evp_law ev E D" "length xs < 2 ^ 31 - 16" "length xs mod 16 \<noteq> 0" "16 \<le> length key" "16 \<le> length iv"
  shows "(\<exists>ct ctx ctx2. Encrypt_vec ev xs key iv old tls = Inr (True, ct, ctx) \<and> length ct = unat (GetEncryptedSize (of_nat (length xs))) \<and>
      Decrypt_vec ev ct key iv old2 tls2 = Inr (True, xs, ctx2)) \<and>
    (\<exists>ct ctx ctx2. EncryptECB_vec ev xs key old tls = Inr (True, ct, ctx) \<and> length ct = unat (GetEncryptedSize (of_nat (length xs))) \<and>
      DecryptECB_vec ev ct key old2 tls2 = Inr (True, xs, ctx2))"
  using aes_both_modes [OF assms, of old tls old2 tls2] by blast

text \<open>A small cipher that meets the law: every byte is combined with the first byte of the key.\<close>

definition xor_cipher :: "cipher_mode \<Rightarrow> byte list \<Rightarrow> byte list option \<Rightarrow> byte list \<Rightarrow> byte list" where
  "xor_cipher m key iv = map (\<lambda>b. b XOR hd (key @ [0]))"

definition xor_evp :: "(byte list \<times> byte list) evp" where
  "xor_evp = \<lparr>CTX_new = Some ([], []), CTX_reset = (\<lambda>_. (True, [], [])),
     EncryptInit_ex = (\<lambda>m key iv _. (True, key, [])),
     EncryptUpdate = (\<lambda>xs n (key, _). (Some (take (whole xs) (xor_cipher CBC key None (pkcs7 xs))), key, xs)),
     EncryptFinal_ex = (\<lambda>(key, xs). (Some (drop (whole xs) (xor_cipher CBC key None (pkcs7 xs))), key, xs)),
     DecryptInit_ex = (\<lambda>m key iv _. (True, key, [])),
     DecryptUpdate = (\<lambda>ys n (key, _). (Some (take (length ys - 16) (xor_cipher CBC key None ys)), key, ys)),
     DecryptFinal_ex = (\<lambda>(key, ys). (map_option (drop (length ys - 16)) (unpad (xor_cipher CBC key None ys)), key, ys))\<rparr>"

lemma xor_evp_law: "evp_law xor_evp xor_cipher xor_cipher"
proof -
  have "(b XOR k) XOR k = b" for b k :: byte by (simp add: xor.assoc)
  then show ?thesis by (simp add: evp_law_def xor_evp_def xor_cipher_def comp_def)
qed

theorem aes_roundtrip_witness:
  "\<exists>ct ctx ctx2. Encrypt_vec xor_evp [1, 2, 3] (replicate 16 7) (replicate 16 9) [] None = Inr (True, ct, ctx) \<and> length ct = 16 \<and>
    Decrypt_vec xor_evp ct (replicate 16 7) (replicate 16 9) [] None = Inr (True, [1, 2, 3], ctx2)"
proof -
  have e: "length [1, 2, 3 :: byte] < 2 ^ 31 - 16" "length [1, 2, 3 :: byte] mod 16 \<noteq> 0" "16 \<le> length (replicate 16 (7 :: byte))"
    "16 \<le> length (replicate 16 (9 :: byte))" by simp_all
  have "unat (GetEncryptedSize (of_nat (length [1, 2, 3 :: byte]))) = 16" by (simp add: GetEncryptedSize_def)
  with aes_roundtrip [OF xor_evp_law e, of "[]" None "[]" None] show ?thesis by (elim conjE) simp
qed

text \<open>C18: Messages of full blocks are encrypted out of bounds: when the length is a multiple of 16 (0 included) the
  size the code computes, and insists on, has no room for the padding block that the library always adds, so
  the final step writes 16 bytes behind the buffer, in both modes and for every buffer of that size.\<close>

theorem aes_full_blocks_overrun:
  assumes "evp_law ev E D" "length xs < 2 ^ 31 - 16" "length xs mod 16 = 0" "16 \<le> length key" "16 \<le> length iv"
    and "length buf = unat (GetEncryptedSize (of_nat (length xs)))"
  shows "aes_Encrypt ev xs (of_nat (length xs)) key iv buf (of_nat (length buf)) tls = Inl WriteOverrun \<and>
    EncryptECB ev xs (of_nat (length xs)) key buf (of_nat (length buf)) tls = Inl WriteOverrun \<and>
    Encrypt_vec ev xs key iv old tls = Inl WriteOverrun \<and> EncryptECB_vec ev xs key old tls = Inl WriteOverrun"
proof -
  note f = size_facts [OF assms(2)]
  let ?g = "GetEncryptedSize (of_nat (length xs))"
  have k: "\<not> short_key key (Some iv)" "\<not> short_key key None" using assms(4,5) by (simp_all add: short_key_def)
  obtain ctx where c: "GetThreadLocalContext ev tls = Inr ctx" using context_exists [OF assms(1)] by blast
  have e: "aes_Encrypt ev xs (of_nat (length xs)) key iv b ?g tls = Inl WriteOverrun"
    "EncryptECB ev xs (of_nat (length xs)) key b ?g tls = Inl WriteOverrun" if "length b = unat ?g" for b
    using EncryptAES128_law(2) [OF assms(1) f(1) k(1), of b _ ctx] EncryptAES128_ECB_law(2) [OF assms(1) f(1) k(2), of b _ ctx]
      that f(5) [OF assms(3)]
    by (simp_all add: aes_Encrypt_def EncryptECB_def c)
  show ?thesis
    using e [of buf] e [of "vec_resize old (unat ?g)"] assms(6) by (simp add: Encrypt_vec_def EncryptECB_vec_def Let_def)
qed

theorem aes_full_blocks_overrun_witness:
  "Encrypt_vec xor_evp (replicate 16 0) (replicate 16 7) (replicate 16 9) [] None = Inl WriteOverrun"
proof -
  have e: "length (replicate 16 (0 :: byte)) < 2 ^ 31 - 16" "length (replicate 16 (0 :: byte)) mod 16 = 0" "16 \<le> length (replicate 16 (7 :: byte))"
    "16 \<le> length (replicate 16 (9 :: byte))" by simp_all
  show ?thesis using aes_full_blocks_overrun [OF xor_evp_law e, of "vec_resize [] (unat (GetEncryptedSize 16))"] by simp
qed

section \<open>Properties of RSA-2048\<close>

text \<open>The documented behaviour for a key pair \<open>k\<close> with public part \<open>pub\<close> and a modulus of \<open>n\<close> bytes.\<close>

definition rsa_law :: "'r rsa_api \<Rightarrow> 'r \<Rightarrow> 'r \<Rightarrow> nat \<Rightarrow> bool" where
  "rsa_law api k pub n \<longleftrightarrow>
     (\<exists>der. i2d_RSA_PUBKEY api k = Some der \<and> der \<noteq> [] \<and> d2i_RSA_PUBKEY api der = Some pub) \<and>
     (\<forall>seed xs. length xs \<le> n - 11 \<longrightarrow>
        (\<exists>ct. RSA_public_encrypt api seed xs pub = Some ct \<and> length ct = n \<and> RSA_private_decrypt api ct k = Some xs))"

definition key_ok :: "'r keygen_results \<Rightarrow> bool" where
  "key_ok kg \<longleftrightarrow> kg_ctx kg \<and> 0 < kg_init kg \<and> 0 < kg_bits kg \<and> kg_bn kg \<and> kg_word kg \<and> 0 < kg_pubexp kg \<and> 0 < kg_keygen kg \<and> kg_rsa kg \<noteq> None"

text \<open>On every path of a key generation each temporary object is freed once, the old key is freed once, and the
  new one is there exactly when the function returns true.\<close>

lemma keygen_frees_all:
  assumes "GenerateKeyPair kg this = (ok, this', evs)"
  shows "count_list evs NewCtx = count_list evs FreeCtx \<and> count_list evs NewBN = count_list evs FreeBN \<and>
    count_list evs NewPkey = count_list evs FreePkey \<and>
    (\<forall>k. count_list evs (FreeRSA k) = (if rsa_keypair this = Some k then 1 else 0)) \<and>
    ok = HasKeyPair this' \<and> ok = key_ok kg \<and> rsa_public_only this' = rsa_public_only this"
  using assms
  by (auto simp: GenerateKeyPair_def RSA_free_def key_ok_def HasKeyPair_def Let_def split: if_splits option.splits)

lemma write_all: "length bs \<le> length buf \<Longrightarrow> buf_write buf 0 bs = Inr (bs @ drop (length bs) buf)"
  by (simp add: buf_write_def overwrite_def)


text \<open>A small instance of the law: the padding is the message length and a filling up to the modulus.\<close>

definition toy_rsa :: "nat \<Rightarrow> nat rsa_api" where
  "toy_rsa n = \<lparr>i2d_RSA_PUBKEY = (\<lambda>k. Some [of_nat k]), d2i_RSA_PUBKEY = (\<lambda>der. Some (unat (hd der))),
     RSA_public_encrypt = (\<lambda>seed xs k. Some (of_nat (length xs) # xs @ replicate (n - 1 - length xs) 0)),
     RSA_private_decrypt = (\<lambda>ct k. Some (take (unat (hd ct)) (tl ct)))\<rparr>"

lemma toy_rsa_256: "rsa_law (toy_rsa 256) 3 3 256"
proof -
  have "unat (of_nat (length xs) :: byte) = length xs" if "length xs \<le> 245" for xs :: "byte list"
    using that by (simp add: unat_of_nat)
  then show ?thesis by (simp add: rsa_law_def toy_rsa_def)
qed

definition good_keygen :: "nat keygen_results" where
  "good_keygen = \<lparr>kg_ctx = True, kg_init = 1, kg_bits = 1, kg_bn = True, kg_word = True, kg_pubexp = 1, kg_keygen = 1, kg_rsa = Some 3\<rparr>"


text \<open>The size of an imported key is not checked: encrypting for a public key with a modulus of more than 256 bytes
  writes the ciphertext, which is as long as the modulus, behind the 256 bytes of the vector.\<close>

lemma rsa_large_key_overruns:
  assumes "rsa_law api k pub n" "256 < n" "d2i_RSA_PUBKEY api der = Some pub" "length xs \<le> 245"
  shows "\<exists>this' evs. ImportPublicKey api der this = (True, this', evs) \<and> EncryptWithPublicKey api seed xs old this' = Inl WriteOverrun"
proof -
  have "length xs \<le> n - 11" using assms(2,4) by simp
  then obtain ct where "RSA_public_encrypt api seed xs pub = Some ct" "length ct = n" using assms(1) unfolding rsa_law_def by blast
  then show ?thesis
    using assms(2-4)
    by (simp add: ImportPublicKey_def EncryptWithPublicKey_def MAX_ENCRYPT_SIZE_def KEY_SIZE_BYTES_def buf_write_def Let_def)
qed

definition wide_rsa :: "nat rsa_api" where
  "wide_rsa = (toy_rsa 512)\<lparr>RSA_public_encrypt := (\<lambda>seed xs k. Some (of_nat (length xs div 256) # of_nat (length xs mod 256) # xs @ replicate (510 - length xs) 0)),
     RSA_private_decrypt := (\<lambda>ct k. Some (take (256 * unat (ct ! 0) + unat (ct ! 1)) (drop 2 ct)))\<rparr>"

lemma wide_rsa_512: "rsa_law wide_rsa 3 3 512"
proof -
  have "256 * unat (of_nat (length xs div 256) :: byte) + unat (of_nat (length xs mod 256) :: byte) = length xs" if "length xs \<le> 501" for xs :: "byte list"
    using that by (simp add: unat_of_nat)
  then show ?thesis by (simp add: rsa_law_def wide_rsa_def toy_rsa_def)
qed

lemma rsa_large_key_overruns_example:
  "\<exists>this' evs. ImportPublicKey wide_rsa [3] RSA2048_ctor = (True, this', evs) \<and> EncryptWithPublicKey wide_rsa 0 (replicate 16 7) [] this' = Inl WriteOverrun"
proof -
  have "d2i_RSA_PUBKEY wide_rsa [3] = Some 3" "length (replicate 16 (7 :: byte)) \<le> 245" by (simp_all add: wide_rsa_def toy_rsa_def)
  from rsa_large_key_overruns [OF wide_rsa_512 _ this, of RSA2048_ctor 0 "[]"] show ?thesis by simp
qed

end
