(* ===== verification/StressClient.thy ===== *)
theory StressClient
  imports Prelude
begin

text \<open>
  The stress test client (\<^verbatim>\<open>StressClient/StressClient.*\<close>) against the echo server (\<^verbatim>\<open>EchoServer/EchoServer.*\<close>). Every slot of the
  client has a worker thread that sends random messages and remembers them in a queue; the responses are compared with the
  queue; connections come and go through the callbacks of the network workers. The slot's user pointer is null, the marker
  \<open>CLEANING\<close> or a user.

  Every access to shared data is one step; workers and callbacks take steps in any order. The connection is what \<open>messages_end_to_end\<close>
  of the root theory shows it to be: requests arrive in order, and the responses come back in the order of the
  requests (\<open>sc_wire\<close> holds those under way). Sending on a connection that is open succeeds, on one that has ended it fails. A failing
  \<open>LOG_ASSERT\<close> sets \<open>sc_asserted\<close>, a call through the marker sets \<open>sc_fault\<close>, the use
  of a slot that has been cleared \<open>sc_gone\<close>. Random choices, log output and sleeping are left open.

  Shown: as long as no connection ends, no assertion fails, every response is the message that was sent, and no user has
  two slots; but when the client ends a connection itself a worker may send on the ended connection, a user may be lost when a worker starts
  late, and stopping the test may call a function of the marker and free a slot that is in use.
\<close>

section \<open>The echo server\<close>

record EchoServer =
  ec_currentSessions :: u32
  ec_totalConnected :: u32
  ec_totalDisconnected :: u32

definition EchoServer_ctor :: EchoServer where
  "EchoServer_ctor = \<lparr>ec_currentSessions = 0, ec_totalConnected = 0, ec_totalDisconnected = 0\<rparr>"

definition Echo_OnSessionConnect :: "EchoServer \<Rightarrow> EchoServer" where
  "Echo_OnSessionConnect e = e\<lparr>ec_currentSessions := ec_currentSessions e + 1, ec_totalConnected := ec_totalConnected e + 1\<rparr>"

definition Echo_OnUserDisconnect :: "EchoServer \<Rightarrow> EchoServer" where
  "Echo_OnUserDisconnect e = e\<lparr>ec_currentSessions := ec_currentSessions e - 1, ec_totalDisconnected := ec_totalDisconnected e + 1\<rparr>"

text \<open>The messages sent back for a request.\<close>

definition HandleEchoRequest :: "string \<Rightarrow> string list" where
  "HandleEchoRequest message = [message]"

section \<open>State of the client\<close>

definition SESSION_COUNT :: nat where "SESSION_COUNT = 200"
definition MESSAGE_MIN_SIZE :: nat where "MESSAGE_MIN_SIZE = 10"
definition MESSAGE_MAX_SIZE :: nat where "MESSAGE_MAX_SIZE = 100"

datatype slot_user = NoUser | CLEANING | Usr addr

record SessionData =
  sd_user :: slot_user
  sd_sentMessages :: "string list"
  sd_sessionIndex :: nat
  sd_disconnectRequested :: bool
  sd_totalSendCount :: c_int

definition SessionData_ctor :: "slot_user \<Rightarrow> nat \<Rightarrow> SessionData" where
  "SessionData_ctor user sessionIndex = \<lparr>sd_user = user, sd_sentMessages = [], sd_sessionIndex = sessionIndex, sd_disconnectRequested = False, sd_totalSendCount = 0\<rparr>"

text \<open>The move assignment keeps the queue of the left side.\<close>

definition SessionData_assign :: "SessionData \<Rightarrow> SessionData \<Rightarrow> SessionData" where
  "SessionData_assign this other = this\<lparr>sd_user := sd_user other, sd_sessionIndex := sd_sessionIndex other,
     sd_disconnectRequested := sd_disconnectRequested other, sd_totalSendCount := sd_totalSendCount other\<rparr>"

text \<open>Where a worker stands in \<open>SessionWorker\<close>, a callback in \<open>OnUserDisconnect\<close>, and the caller of \<open>StopStressTest\<close>.\<close>

datatype worker_pc = WStart | WLoop | WUser addr | WRandom addr | WEnqueue addr string | WSend addr string | WCount | WDisconnect addr | WEnd | WDone

datatype clean_pc = KIdle | KFind | KMark nat | KReset nat | KDrain nat | KFree nat | KParent

datatype stop_pc = TIdle | TJoin | TUsers nat

record StressClient =
  sc_vec :: "SessionData list"
  sc_testRunning :: bool
  sc_worker :: "nat \<Rightarrow> worker_pc"
  sc_clean :: "addr \<Rightarrow> clean_pc"
  sc_connecting :: "addr \<Rightarrow> nat option"
  sc_open :: "addr set"
  sc_seen :: "addr set"
  sc_wire :: "addr \<Rightarrow> string list"
  sc_asserted :: bool
  sc_fault :: bool
  sc_stopper :: stop_pc
  sc_gone :: bool

definition upd_slot :: "nat \<Rightarrow> (SessionData \<Rightarrow> SessionData) \<Rightarrow> StressClient \<Rightarrow> StressClient" where
  "upd_slot i f s = s\<lparr>sc_vec := (sc_vec s)[i := f (sc_vec s ! i)]\<rparr>"

definition wgo :: "nat \<Rightarrow> worker_pc \<Rightarrow> StressClient \<Rightarrow> StressClient" where
  "wgo i pc s = s\<lparr>sc_worker := (sc_worker s)(i := pc)\<rparr>"

definition kgo :: "addr \<Rightarrow> clean_pc \<Rightarrow> StressClient \<Rightarrow> StressClient" where
  "kgo user pc s = s\<lparr>sc_clean := (sc_clean s)(user := pc)\<rparr>"

definition log_assert :: "bool \<Rightarrow> StressClient \<Rightarrow> StressClient" where
  "log_assert b s = (if b then s else s\<lparr>sc_asserted := True\<rparr>)"

abbreviation slot_at :: "StressClient \<Rightarrow> nat \<Rightarrow> SessionData" where
  "slot_at s i \<equiv> sc_vec s ! i"

definition FindSessionData :: "addr \<Rightarrow> SessionData list \<Rightarrow> nat option" where
  "FindSessionData user vec = List.find (\<lambda>i. sd_user (vec ! i) = Usr user) [0..<length vec]"

text \<open>The message is made of \<open>length\<close> random capital letters.\<close>

definition GenerateRandomMessage :: "nat list \<Rightarrow> string" where
  "GenerateRandomMessage random = map (\<lambda>r. char_of (65 + r mod 26)) random"

definition message_ok :: "string \<Rightarrow> bool" where
  "message_ok m \<longleftrightarrow> (\<exists>random. MESSAGE_MIN_SIZE \<le> length random \<and> length random \<le> MESSAGE_MAX_SIZE \<and> m = GenerateRandomMessage random)"

definition HandleEchoResponse :: "addr \<Rightarrow> string \<Rightarrow> StressClient \<Rightarrow> StressClient" where
  "HandleEchoResponse user responseMessage s =
     (case FindSessionData user (sc_vec s) of
        None \<Rightarrow> log_assert False s
      | Some i \<Rightarrow>
          (case sd_sentMessages (slot_at s i) of
             [] \<Rightarrow> log_assert False s
           | expectedMessage # rest \<Rightarrow>
               log_assert (expectedMessage = responseMessage) (upd_slot i (\<lambda>d. d\<lparr>sd_sentMessages := rest\<rparr>) s)))"

text \<open>\<open>OnClientStart\<close>: the slots are made and the workers started, which may take their first step later.\<close>

definition OnClientStart :: "StressClient \<Rightarrow> StressClient" where
  "OnClientStart s = (if sc_testRunning s then s
     else s\<lparr>sc_testRunning := True, sc_vec := sc_vec s @ replicate (SESSION_COUNT - length (sc_vec s)) (SessionData_ctor NoUser 0),
       sc_worker := (\<lambda>i. if i < SESSION_COUNT then WStart else sc_worker s i)\<rparr>)"

definition StressClient_ctor :: StressClient where
  "StressClient_ctor = \<lparr>sc_vec = [], sc_testRunning = False, sc_worker = (\<lambda>_. WDone), sc_clean = (\<lambda>_. KIdle), sc_connecting = (\<lambda>_. None),
     sc_open = {}, sc_seen = {}, sc_wire = (\<lambda>_. []), sc_asserted = False, sc_fault = False, sc_stopper = TIdle, sc_gone = False\<rparr>"

section \<open>Steps\<close>

text \<open>The connect callback looks for a free slot, round after round.\<close>

inductive connect_step :: "StressClient \<Rightarrow> StressClient \<Rightarrow> bool" where
  connected: "user \<notin> sc_seen s \<Longrightarrow> connect_step s (s\<lparr>sc_open := insert user (sc_open s), sc_seen := insert user (sc_seen s), sc_connecting := (sc_connecting s)(user := Some 0)\<rparr>)"
| take_slot: "sc_connecting s user = Some i \<Longrightarrow> i < length (sc_vec s) \<Longrightarrow> sd_user (slot_at s i) = NoUser \<Longrightarrow>
    connect_step s (upd_slot i (\<lambda>d. d\<lparr>sd_user := Usr user\<rparr>) (s\<lparr>sc_connecting := (sc_connecting s)(user := None)\<rparr>))"
| next_slot: "sc_connecting s user = Some i \<Longrightarrow> i < length (sc_vec s) \<Longrightarrow> sd_user (slot_at s i) \<noteq> NoUser \<Longrightarrow>
    connect_step s (s\<lparr>sc_connecting := (sc_connecting s)(user := Some (if Suc i = length (sc_vec s) then 0 else Suc i))\<rparr>)"

text \<open>Working: the worker up to and after sending, the connect callback, and the response.\<close>

inductive work_step :: "StressClient \<Rightarrow> StressClient \<Rightarrow> bool" where
  start: "sc_worker s i = WStart \<Longrightarrow> i < length (sc_vec s) \<Longrightarrow>
    work_step s (wgo i WLoop (upd_slot i (\<lambda>d. SessionData_assign d (SessionData_ctor NoUser i)) s))"
| no_user: "sc_worker s i = WLoop \<Longrightarrow> sc_testRunning s \<Longrightarrow> i < length (sc_vec s) \<Longrightarrow> sd_user (slot_at s i) \<in> {NoUser, CLEANING} \<Longrightarrow> work_step s s"
| load_user: "sc_worker s i = WLoop \<Longrightarrow> sc_testRunning s \<Longrightarrow> i < length (sc_vec s) \<Longrightarrow> sd_user (slot_at s i) = Usr user \<Longrightarrow>
    work_step s (wgo i (WUser user) s)"
| ending: "sc_worker s i = WUser user \<Longrightarrow> sd_disconnectRequested (slot_at s i) \<Longrightarrow> work_step s (wgo i WLoop s)"
| going: "sc_worker s i = WUser user \<Longrightarrow> \<not> sd_disconnectRequested (slot_at s i) \<Longrightarrow> work_step s (wgo i (WRandom user) s)"
| compose: "sc_worker s i = WRandom user \<Longrightarrow> message_ok m \<Longrightarrow> work_step s (wgo i (WEnqueue user m) s)"
| remember: "sc_worker s i = WEnqueue user m \<Longrightarrow>
    work_step s (wgo i (WSend user m) (upd_slot i (\<lambda>d. d\<lparr>sd_sentMessages := sd_sentMessages d @ [m]\<rparr>) s))"
| send: "sc_worker s i = WSend user m \<Longrightarrow> user \<in> sc_open s \<Longrightarrow>
    work_step s (wgo i WCount (s\<lparr>sc_wire := (sc_wire s)(user := sc_wire s user @ HandleEchoRequest m)\<rparr>))"
| send_fails: "sc_worker s i = WSend user m \<Longrightarrow> user \<notin> sc_open s \<Longrightarrow> work_step s (wgo i WDone (log_assert False s))"
| counted: "sc_worker s i = WCount \<Longrightarrow> work_step s (wgo i WLoop (upd_slot i (\<lambda>d. d\<lparr>sd_totalSendCount := sd_totalSendCount d + 1\<rparr>) s))"
| connecting: "connect_step s s' \<Longrightarrow> work_step s s'"
| response: "sc_wire s user = m # ms \<Longrightarrow> user \<in> sc_open s \<Longrightarrow>
    work_step s (HandleEchoResponse user m (s\<lparr>sc_wire := (sc_wire s)(user := ms)\<rparr>))"

text \<open>A worker that ends its connection at random, or its loop.\<close>

inductive quit_step :: "StressClient \<Rightarrow> StressClient \<Rightarrow> bool" where
  choose: "sc_worker s i = WRandom user \<Longrightarrow>
    quit_step s (wgo i (WDisconnect user) (upd_slot i (\<lambda>d. d\<lparr>sd_disconnectRequested := True\<rparr>) s))"
| disconnect: "sc_worker s i = WDisconnect user \<Longrightarrow> quit_step s (wgo i WLoop (s\<lparr>sc_open := sc_open s - {user}\<rparr>))"
| leave: "sc_worker s i = WLoop \<Longrightarrow> \<not> sc_testRunning s \<Longrightarrow> quit_step s (wgo i WEnd s)"
| finish: "sc_worker s i = WEnd \<Longrightarrow> i < length (sc_vec s) \<Longrightarrow>
    quit_step s (wgo i WDone (case sd_user (slot_at s i) of NoUser \<Rightarrow> s | CLEANING \<Rightarrow> s\<lparr>sc_fault := True\<rparr> | Usr user \<Rightarrow> s\<lparr>sc_open := sc_open s - {user}\<rparr>))"

text \<open>The disconnect callback. It keeps a pointer to its slot: when the slots are cleared meanwhile it writes to freed memory.\<close>

fun clean_slot :: "clean_pc \<Rightarrow> nat option" where
  "clean_slot (KMark i) = Some i" | "clean_slot (KReset i) = Some i" | "clean_slot (KDrain i) = Some i" | "clean_slot (KFree i) = Some i" | "clean_slot _ = None"

inductive end_step :: "StressClient \<Rightarrow> StressClient \<Rightarrow> bool" where
  callback: "user \<in> sc_seen s \<Longrightarrow> user \<notin> sc_open s \<Longrightarrow> sc_clean s user = KIdle \<Longrightarrow> end_step s (kgo user KFind s)"
| unknown: "sc_clean s user = KFind \<Longrightarrow> FindSessionData user (sc_vec s) = None \<Longrightarrow> end_step s (kgo user KParent (log_assert False s))"
| found: "sc_clean s user = KFind \<Longrightarrow> FindSessionData user (sc_vec s) = Some i \<Longrightarrow>
    end_step s (kgo user (KMark i) (log_assert (sd_disconnectRequested (slot_at s i)) s))"
| mark: "sc_clean s user = KMark i \<Longrightarrow> i < length (sc_vec s) \<Longrightarrow>
    end_step s (kgo user (KReset i) (upd_slot i (\<lambda>d. d\<lparr>sd_user := CLEANING\<rparr>) s))"
| reset: "sc_clean s user = KReset i \<Longrightarrow> i < length (sc_vec s) \<Longrightarrow>
    end_step s (kgo user (KDrain i) (upd_slot i (\<lambda>d. d\<lparr>sd_disconnectRequested := False, sd_totalSendCount := 0\<rparr>) s))"
| drain: "sc_clean s user = KDrain i \<Longrightarrow> i < length (sc_vec s) \<Longrightarrow>
    end_step s (kgo user (KFree i) (upd_slot i (\<lambda>d. d\<lparr>sd_sentMessages := []\<rparr>) s))"
| free: "sc_clean s user = KFree i \<Longrightarrow> i < length (sc_vec s) \<Longrightarrow>
    end_step s (kgo user KParent (upd_slot i (\<lambda>d. d\<lparr>sd_user := NoUser\<rparr>) s))"
| gone: "clean_slot (sc_clean s user) = Some i \<Longrightarrow> length (sc_vec s) \<le> i \<Longrightarrow> end_step s (kgo user KParent (s\<lparr>sc_gone := True\<rparr>))"

text \<open>\<open>StopStressTest\<close>: the flag, waiting for the workers, the disconnect of every user, and the clearing of the slots. The
  monitor thread, which only prints, is left out.\<close>

inductive stop_step :: "StressClient \<Rightarrow> StressClient \<Rightarrow> bool" where
  not_running: "\<not> sc_testRunning s \<Longrightarrow> sc_stopper s = TIdle \<Longrightarrow> stop_step s s"
| stop: "sc_testRunning s \<Longrightarrow> sc_stopper s = TIdle \<Longrightarrow> stop_step s (s\<lparr>sc_testRunning := False, sc_stopper := TJoin\<rparr>)"
| joined: "sc_stopper s = TJoin \<Longrightarrow> \<forall>i. sc_worker s i = WDone \<Longrightarrow> stop_step s (s\<lparr>sc_stopper := TUsers 0\<rparr>)"
| stop_user: "sc_stopper s = TUsers k \<Longrightarrow> k < length (sc_vec s) \<Longrightarrow>
    stop_step s (s\<lparr>sc_open := (case sd_user (slot_at s k) of Usr user \<Rightarrow> sc_open s - {user} | _ \<Rightarrow> sc_open s), sc_stopper := TUsers (Suc k)\<rparr>)"
| clear: "sc_stopper s = TUsers (length (sc_vec s)) \<Longrightarrow> stop_step s (s\<lparr>sc_vec := [], sc_stopper := TIdle\<rparr>)"

inductive_cases connect_stepE: "connect_step s s'"
inductive_cases work_stepE: "work_step s s'"

section \<open>While connections last\<close>

fun wpc_user :: "worker_pc \<Rightarrow> addr option" where
  "wpc_user (WUser u) = Some u" | "wpc_user (WRandom u) = Some u" | "wpc_user (WEnqueue u m) = Some u" | "wpc_user (WSend u m) = Some u" | "wpc_user _ = None"

fun pend :: "worker_pc \<Rightarrow> string list" where
  "pend (WSend u m) = [m]" | "pend _ = []"

fun busy_pc :: "worker_pc \<Rightarrow> bool" where
  "busy_pc WStart = False" | "busy_pc (WDisconnect u) = False" | "busy_pc _ = True"

text \<open>A slot and its worker: the queue holds the messages under way and the one about to be sent.\<close>

definition slot_ok :: "SessionData \<Rightarrow> worker_pc \<Rightarrow> (addr \<Rightarrow> string list) \<Rightarrow> addr set \<Rightarrow> (addr \<Rightarrow> nat option) \<Rightarrow> bool" where
  "slot_ok d pc wire opn con \<longleftrightarrow> \<not> sd_disconnectRequested d \<and> busy_pc pc \<and>
     (case sd_user d of
        NoUser \<Rightarrow> sd_sentMessages d = [] \<and> wpc_user pc = None
      | CLEANING \<Rightarrow> False
      | Usr u \<Rightarrow> u \<in> opn \<and> con u = None \<and> sd_sentMessages d = wire u @ pend pc \<and> (wpc_user pc = None \<or> wpc_user pc = Some u))"

definition work_inv :: "StressClient \<Rightarrow> bool" where
  "work_inv s \<longleftrightarrow> \<not> sc_asserted s \<and>
     (\<forall>i < length (sc_vec s). slot_ok (slot_at s i) (sc_worker s i) (sc_wire s) (sc_open s) (sc_connecting s)) \<and>
     (\<forall>i. length (sc_vec s) \<le> i \<longrightarrow> sc_worker s i = WDone) \<and>
     (\<forall>i j u. i < length (sc_vec s) \<longrightarrow> j < length (sc_vec s) \<longrightarrow> sd_user (slot_at s i) = Usr u \<longrightarrow> sd_user (slot_at s j) = Usr u \<longrightarrow> i = j) \<and>
     (\<forall>u. sc_wire s u \<noteq> [] \<longrightarrow> (\<exists>i < length (sc_vec s). sd_user (slot_at s i) = Usr u)) \<and>
     sc_open s \<subseteq> sc_seen s \<and> (\<forall>u. sc_connecting s u \<noteq> None \<longrightarrow> u \<in> sc_open s)"

lemma session_count_pos [simp]: "0 < SESSION_COUNT" by (simp add: SESSION_COUNT_def)

lemma work_invD:
  assumes "work_inv s" "i < length (sc_vec s)"
  shows "slot_ok (slot_at s i) (sc_worker s i) (sc_wire s) (sc_open s) (sc_connecting s)"
  using assms by (simp add: work_inv_def)

lemma worker_in_range: "work_inv s \<Longrightarrow> sc_worker s i \<noteq> WDone \<Longrightarrow> i < length (sc_vec s)"
  unfolding work_inv_def by (meson not_less)

text \<open>A step of one worker that changes its slot and the messages under way of its user.\<close>

lemma slot_step:
  assumes "work_inv s" "i < length (sc_vec s)" "slot_ok d pc wire (sc_open s) (sc_connecting s)" "sd_user d = sd_user (slot_at s i)"
    "\<And>u. sd_user d \<noteq> Usr u \<Longrightarrow> wire u = sc_wire s u"
  shows "work_inv (s\<lparr>sc_vec := (sc_vec s)[i := d], sc_worker := (sc_worker s)(i := pc), sc_wire := wire\<rparr>)"
proof -
  let ?s = "s\<lparr>sc_vec := (sc_vec s)[i := d], sc_worker := (sc_worker s)(i := pc), sc_wire := wire\<rparr>"
  have u: "sd_user (slot_at ?s j) = sd_user (slot_at s j)" for j using assms(2,4) by (cases "j = i") simp_all
  have same: "slot_ok (slot_at ?s j) (sc_worker ?s j) wire (sc_open s) (sc_connecting s)" if j: "j < length (sc_vec s)" for j
  proof (cases "j = i")
    case False
    have "wire v = sc_wire s v" if v: "sd_user (slot_at s j) = Usr v" for v
    proof (rule assms(5))
      show "sd_user d \<noteq> Usr v" using assms(1,2,4) j v False unfolding work_inv_def by metis
    qed
    then show ?thesis using work_invD [OF assms(1) j] False by (auto simp: slot_ok_def split: slot_user.splits)
  qed (use assms(2,3) in simp)
  have "\<exists>j < length (sc_vec s). sd_user (slot_at s j) = Usr v" if "wire v \<noteq> []" for v
    using assms(1,2,4,5) that unfolding work_inv_def by metis
  then show ?thesis using assms(1,2) same unfolding work_inv_def u by simp
qed

lemma worker_step:
  assumes "work_inv s" "i < length (sc_vec s)" "slot_ok (f (slot_at s i)) pc (sc_wire s) (sc_open s) (sc_connecting s)"
    "sd_user (f (slot_at s i)) = sd_user (slot_at s i)"
  shows "work_inv (wgo i pc (upd_slot i f s))"
  using slot_step [OF assms(1-3)] assms(4) by (simp add: wgo_def upd_slot_def)

lemma worker_goes:
  assumes "work_inv s" "i < length (sc_vec s)" "slot_ok (slot_at s i) pc (sc_wire s) (sc_open s) (sc_connecting s)"
  shows "work_inv (wgo i pc s)"
  using worker_step [OF assms(1,2), of "\<lambda>d. d" pc] assms(3) by (simp add: upd_slot_def)

text \<open>A worker that knows a user knows that of its slot.\<close>

lemma worker_user:
  assumes "work_inv s" "wpc_user (sc_worker s i) = Some u"
  shows "i < length (sc_vec s)" "sd_user (slot_at s i) = Usr u" "u \<in> sc_open s" "sc_connecting s u = None"
    "sd_sentMessages (slot_at s i) = sc_wire s u @ pend (sc_worker s i)" "\<not> sd_disconnectRequested (slot_at s i)"
proof -
  have "sc_worker s i \<noteq> WDone" using assms(2) by auto
  then show i: "i < length (sc_vec s)" by (rule worker_in_range [OF assms(1)])
  show "sd_user (slot_at s i) = Usr u" "u \<in> sc_open s" "sc_connecting s u = None"
    "sd_sentMessages (slot_at s i) = sc_wire s u @ pend (sc_worker s i)" "\<not> sd_disconnectRequested (slot_at s i)"
    using work_invD [OF assms(1) i] assms(2) by (auto simp: slot_ok_def split: slot_user.splits)
qed

lemma find_first:
  assumes "i < length vec" "sd_user (vec ! i) = Usr u" "\<And>j. j < length vec \<Longrightarrow> sd_user (vec ! j) = Usr u \<Longrightarrow> j = i"
  shows "FindSessionData u vec = Some i"
proof -
  have "sd_user (vec ! j) \<noteq> Usr u" if "j < i" for j using assms(1) assms(3) [of j] that by auto
  then show ?thesis unfolding FindSessionData_def find_Some_iff using assms(1,2) by (intro exI [of _ i]) simp
qed

lemma worker_send_inv:
  assumes "work_inv s" "sc_worker s i = WSend u m"
  shows "work_inv (wgo i WCount (s\<lparr>sc_wire := (sc_wire s)(u := sc_wire s u @ HandleEchoRequest m)\<rparr>))"
proof -
  note w = worker_user [OF assms(1), of i u]
  have "slot_ok (slot_at s i) WCount ((sc_wire s)(u := sc_wire s u @ HandleEchoRequest m)) (sc_open s) (sc_connecting s)"
    using w assms(2) by (simp add: slot_ok_def HandleEchoRequest_def)
  then have "work_inv (s\<lparr>sc_vec := (sc_vec s)[i := slot_at s i], sc_worker := (sc_worker s)(i := WCount),
      sc_wire := (sc_wire s)(u := sc_wire s u @ HandleEchoRequest m)\<rparr>)"
    using w assms(2) by (intro slot_step [OF assms(1)]) auto
  then show ?thesis by (cases s) (simp add: wgo_def)
qed

lemma response_inv:
  assumes "work_inv s" "sc_wire s u = m # ms"
  shows "work_inv (HandleEchoResponse u m (s\<lparr>sc_wire := (sc_wire s)(u := ms)\<rparr>))"
proof -
  obtain i where i: "i < length (sc_vec s)" "sd_user (slot_at s i) = Usr u" using assms unfolding work_inv_def by (metis list.distinct(1))
  have f: "FindSessionData u (sc_vec s) = Some i"
    by (rule find_first [OF i]) (use assms(1) i in \<open>auto simp: work_inv_def\<close>)
  have ok: "slot_ok (slot_at s i) (sc_worker s i) (sc_wire s) (sc_open s) (sc_connecting s)" by (rule work_invD [OF assms(1) i(1)])
  then have q: "sd_sentMessages (slot_at s i) = m # ms @ pend (sc_worker s i)" using i(2) assms(2) by (simp add: slot_ok_def)
  let ?d = "(slot_at s i)\<lparr>sd_sentMessages := ms @ pend (sc_worker s i)\<rparr>"
  have "slot_ok ?d (sc_worker s i) ((sc_wire s)(u := ms)) (sc_open s) (sc_connecting s)" using ok i(2) by (auto simp: slot_ok_def)
  then have "work_inv (s\<lparr>sc_vec := (sc_vec s)[i := ?d], sc_worker := (sc_worker s)(i := sc_worker s i), sc_wire := (sc_wire s)(u := ms)\<rparr>)"
    using i by (intro slot_step [OF assms(1)]) auto
  then show ?thesis using f q by (cases s) (simp add: HandleEchoResponse_def log_assert_def upd_slot_def)
qed

lemma take_slot_inv:
  assumes "work_inv s" "sc_connecting s u = Some k" "i < length (sc_vec s)" "sd_user (slot_at s i) = NoUser"
  shows "work_inv (upd_slot i (\<lambda>d. d\<lparr>sd_user := Usr u\<rparr>) (s\<lparr>sc_connecting := (sc_connecting s)(u := None)\<rparr>))"
proof -
  have out: "sd_user (slot_at s j) \<noteq> Usr u" if "j < length (sc_vec s)" for j
    using work_invD [OF assms(1) that] assms(2) by (auto simp: slot_ok_def)
  have w: "sc_wire s u = []" "u \<in> sc_open s" using out assms(1,2) unfolding work_inv_def by (blast, force)
  have pc: "wpc_user (sc_worker s i) = None" "sd_sentMessages (slot_at s i) = []" "\<not> sd_disconnectRequested (slot_at s i)" "busy_pc (sc_worker s i)"
    using work_invD [OF assms(1,3)] assms(4) by (auto simp: slot_ok_def)
  then have p: "pend (sc_worker s i) = []" by (cases "sc_worker s i") simp_all
  let ?s = "upd_slot i (\<lambda>d. d\<lparr>sd_user := Usr u\<rparr>) (s\<lparr>sc_connecting := (sc_connecting s)(u := None)\<rparr>)"
  have v: "sd_user (slot_at ?s j) = (if j = i then Usr u else sd_user (slot_at s j))" if "j < length (sc_vec s)" for j
    using that by (simp add: upd_slot_def)
  have "slot_ok (slot_at ?s j) (sc_worker s j) (sc_wire s) (sc_open s) ((sc_connecting s)(u := None))" if j: "j < length (sc_vec s)" for j
    using work_invD [OF assms(1) j] j w pc p by (cases "j = i") (auto simp: slot_ok_def upd_slot_def split: slot_user.splits)
  moreover have "a = b" if "a < length (sc_vec s)" "b < length (sc_vec s)" "sd_user (slot_at ?s a) = Usr x" "sd_user (slot_at ?s b) = Usr x" for a b x
    using that v [OF that(1)] v [OF that(2)] out assms(1) unfolding work_inv_def by (metis slot_user.inject)
  moreover have "\<exists>j < length (sc_vec s). sd_user (slot_at ?s j) = Usr x" if "sc_wire s x \<noteq> []" for x
    using that assms(1,3,4) v unfolding work_inv_def by (metis slot_user.distinct(3))
  ultimately show ?thesis using assms(1) unfolding work_inv_def by (simp add: upd_slot_def)
qed

lemma connected_inv:
  assumes "work_inv s" "u \<notin> sc_seen s"
  shows "work_inv (s\<lparr>sc_open := insert u (sc_open s), sc_seen := insert u (sc_seen s), sc_connecting := (sc_connecting s)(u := Some 0)\<rparr>)"
proof -
  have "u \<notin> sc_open s" using assms by (auto simp: work_inv_def)
  then have "slot_ok (slot_at s i) (sc_worker s i) (sc_wire s) (insert u (sc_open s)) ((sc_connecting s)(u := Some 0))" if "i < length (sc_vec s)" for i
    using work_invD [OF assms(1) that] by (auto simp: slot_ok_def split: slot_user.splits)
  then show ?thesis using assms(1) unfolding work_inv_def by auto
qed

lemma scan_inv:
  assumes "work_inv s" "sc_connecting s u = Some k"
  shows "work_inv (s\<lparr>sc_connecting := (sc_connecting s)(u := Some j)\<rparr>)"
proof -
  have "slot_ok (slot_at s i) (sc_worker s i) (sc_wire s) (sc_open s) ((sc_connecting s)(u := Some j))" if "i < length (sc_vec s)" for i
    using work_invD [OF assms(1) that] assms(2) by (auto simp: slot_ok_def split: slot_user.splits)
  then show ?thesis using assms unfolding work_inv_def by auto
qed

lemma work_step_inv:
  assumes "work_step s s'" "work_inv s"
  shows "work_inv s'"
  using assms(1)
proof cases
  case (start i)
  then show ?thesis using work_invD [OF assms(2), of i] by (simp add: slot_ok_def)
next
  case (load_user i u)
  then show ?thesis using worker_goes [OF assms(2)] work_invD [OF assms(2), of i] by (simp add: slot_ok_def)
next
  case (going i u)
  then show ?thesis using worker_goes [OF assms(2)] worker_user [OF assms(2), of i u] by (simp add: slot_ok_def)
next
  case (compose i u m)
  then show ?thesis using worker_goes [OF assms(2)] worker_user [OF assms(2), of i u] by (simp add: slot_ok_def)
next
  case (remember i u m)
  then show ?thesis using worker_user [OF assms(2), of i u] by (auto intro!: worker_step [OF assms(2)] simp: slot_ok_def)
next
  case (counted i)
  have "i < length (sc_vec s)" using counted by (intro worker_in_range [OF assms(2)]) simp
  moreover from this have "slot_ok ((slot_at s i)\<lparr>sd_totalSendCount := sd_totalSendCount (slot_at s i) + 1\<rparr>) WLoop (sc_wire s) (sc_open s) (sc_connecting s)"
    using work_invD [OF assms(2), of i] counted(2) by (simp add: slot_ok_def split: slot_user.splits)
  ultimately show ?thesis using counted(1) worker_step [OF assms(2), where f = "\<lambda>d. d\<lparr>sd_totalSendCount := sd_totalSendCount d + 1\<rparr>"] by simp
next
  case (ending i u)
  then show ?thesis using worker_user [OF assms(2), of i u] by simp
next
  case (send_fails i u m)
  then show ?thesis using worker_user [OF assms(2), of i u] by simp
next
  case connecting
  then show ?thesis by (rule connect_stepE) (use assms(2) take_slot_inv connected_inv scan_inv in auto)
qed (use assms(2) worker_send_inv response_inv in auto)

section \<open>From the start\<close>

definition stress_step :: "StressClient \<Rightarrow> StressClient \<Rightarrow> bool" where
  "stress_step s s' \<longleftrightarrow> work_step s s' \<or> quit_step s s' \<or> end_step s s' \<or> stop_step s s'"

lemma stress_stepI:
  "work_step s s' \<Longrightarrow> stress_step s s'" "quit_step s s' \<Longrightarrow> stress_step s s'" "end_step s s' \<Longrightarrow> stress_step s s'" "stop_step s s' \<Longrightarrow> stress_step s s'"
  by (simp_all add: stress_step_def)

lemmas stress_work = stress_stepI(1)
lemmas stress_connect = stress_stepI(1) [OF work_step.connecting]
lemmas stress_quit = stress_stepI(2)
lemmas stress_end = stress_stepI(3)
lemmas stress_stop = stress_stepI(4)

text \<open>All workers have taken their first step.\<close>

definition started_to :: "nat \<Rightarrow> StressClient" where
  "started_to k = (OnClientStart StressClient_ctor)\<lparr>sc_vec := map (\<lambda>i. SessionData_ctor NoUser (if i < k then i else 0)) [0..<SESSION_COUNT],
     sc_worker := (\<lambda>i. if i < k then WLoop else if i < SESSION_COUNT then WStart else WDone)\<rparr>"

abbreviation started :: StressClient where
  "started \<equiv> started_to SESSION_COUNT"

lemma started_first: "started_to 0 = OnClientStart StressClient_ctor"
proof -
  have "map (\<lambda>i. SessionData_ctor NoUser 0) [0..<SESSION_COUNT] = replicate SESSION_COUNT (SessionData_ctor NoUser 0)" by (simp add: map_replicate_const)
  then show ?thesis by (simp add: started_to_def OnClientStart_def StressClient_ctor_def cong: if_cong)
qed

lemma started_next:
  assumes "k < SESSION_COUNT"
  shows "work_step (started_to k) (started_to (Suc k))"
proof -
  have "(sc_vec (started_to k))[k := SessionData_assign (slot_at (started_to k) k) (SessionData_ctor NoUser k)] = sc_vec (started_to (Suc k))"
    using assms by (intro nth_equalityI) (auto simp: started_to_def nth_list_update SessionData_assign_def SessionData_ctor_def less_Suc_eq)
  moreover have "(sc_worker (started_to k))(k := WLoop) = sc_worker (started_to (Suc k))" using assms by (auto simp: started_to_def fun_eq_iff less_Suc_eq)
  ultimately have "wgo k WLoop (upd_slot k (\<lambda>d. SessionData_assign d (SessionData_ctor NoUser k)) (started_to k)) = started_to (Suc k)"
    by (simp add: wgo_def upd_slot_def started_to_def)
  then show ?thesis using work_step.start [of "started_to k" k] assms by (simp add: started_to_def)
qed

lemma workers_start: "k \<le> SESSION_COUNT \<Longrightarrow> work_step\<^sup>*\<^sup>* (OnClientStart StressClient_ctor) (started_to k)"
proof (induction k)
  case 0
  then show ?case by (simp add: started_first)
next
  case (Suc k)
  then show ?case using started_next [of k] by (simp add: rtranclp.rtrancl_into_rtrancl)
qed

lemma started_facts [simp]:
  "length (sc_vec (started_to k)) = SESSION_COUNT" "i < SESSION_COUNT \<Longrightarrow> sd_user (slot_at (started_to k) i) = NoUser"
  "i < SESSION_COUNT \<Longrightarrow> sd_sentMessages (slot_at (started_to k) i) = []" "i < SESSION_COUNT \<Longrightarrow> \<not> sd_disconnectRequested (slot_at (started_to k) i)"
  "sc_testRunning (started_to k)" "sc_open (started_to k) = {}" "sc_seen (started_to k) = {}" "sc_wire (started_to k) = (\<lambda>_. [])"
  "sc_connecting (started_to k) = (\<lambda>_. None)" "\<not> sc_asserted (started_to k)" "\<not> sc_fault (started_to k)" "sc_clean (started_to k) = (\<lambda>_. KIdle)"
  "sc_stopper (started_to k) = TIdle" "\<not> sc_gone (started_to k)"
  "sc_worker (started_to k) = (\<lambda>i. if i < k then WLoop else if i < SESSION_COUNT then WStart else WDone)"
  by (simp_all add: started_to_def SessionData_ctor_def OnClientStart_def StressClient_ctor_def)

lemma started_inv: "work_inv started"
  by (simp add: work_inv_def slot_ok_def)

lemma work_reach_inv: "work_step\<^sup>*\<^sup>* started s \<Longrightarrow> work_inv s"
  by (induction rule: rtranclp_induct) (auto intro: started_inv work_step_inv)

lemma work_step_length: "work_step s s' \<Longrightarrow> length (sc_vec s') = length (sc_vec s)"
  by (erule work_stepE; (erule connect_stepE)?) (simp_all add: wgo_def upd_slot_def log_assert_def HandleEchoResponse_def split: option.split list.split)

lemma work_reach_length: "work_step\<^sup>*\<^sup>* started s \<Longrightarrow> length (sc_vec s) = SESSION_COUNT"
  by (induction rule: rtranclp_induct) (simp_all add: work_step_length)

text \<open>The beginning of a race: user \<open>u\<close> took slot 0, whose worker asked to end the connection and went back to its loop.\<close>

definition asked :: "addr \<Rightarrow> StressClient \<Rightarrow> bool" where
  "asked u s \<longleftrightarrow> length (sc_vec s) = SESSION_COUNT \<and> (\<forall>i. sc_worker s i = (if i < SESSION_COUNT then WLoop else WDone)) \<and> sc_stopper s = TIdle \<and>
     0 < length (sc_vec s) \<and> sd_user (slot_at s 0) = Usr u \<and> sd_disconnectRequested (slot_at s 0) \<and> sc_worker s 0 = WLoop \<and> sc_testRunning s \<and>
     u \<in> sc_seen s \<and> u \<notin> sc_open s \<and> sc_clean s u = KIdle \<and> FindSessionData u (sc_vec s) = Some 0 \<and> \<not> sc_asserted s \<and> \<not> sc_fault s"

lemma asked_reachable: "\<exists>s. stress_step\<^sup>*\<^sup>* started s \<and> asked u s"
proof -
  let ?s1 = "started\<lparr>sc_open := insert u (sc_open started), sc_seen := insert u (sc_seen started), sc_connecting := (sc_connecting started)(u := Some 0)\<rparr>"
  let ?s2 = "upd_slot 0 (\<lambda>d. d\<lparr>sd_user := Usr u\<rparr>) (?s1\<lparr>sc_connecting := (sc_connecting ?s1)(u := None)\<rparr>)"
  let ?s3 = "wgo 0 (WUser u) ?s2" let ?s4 = "wgo 0 (WRandom u) ?s3"
  let ?s5 = "wgo 0 (WDisconnect u) (upd_slot 0 (\<lambda>d. d\<lparr>sd_disconnectRequested := True\<rparr>) ?s4)"
  let ?s6 = "wgo 0 WLoop (?s5\<lparr>sc_open := sc_open ?s5 - {u}\<rparr>)"
  note d = wgo_def upd_slot_def
  have n: "0 < SESSION_COUNT" by (simp add: SESSION_COUNT_def)
  have "stress_step started ?s1" by (rule stress_connect, rule connected) simp
  moreover have "stress_step ?s1 ?s2" by (rule stress_connect, rule take_slot) (use n in simp_all)
  moreover have "stress_step ?s2 ?s3" by (rule stress_work, rule load_user) (use n in \<open>simp_all add: d\<close>)
  moreover have "stress_step ?s3 ?s4" by (rule stress_work, rule going) (use n in \<open>simp_all add: d\<close>)
  moreover have "stress_step ?s4 ?s5" by (rule stress_quit, rule choose) (simp add: d)
  moreover have "stress_step ?s5 ?s6" by (rule stress_quit, rule disconnect) (simp add: d)
  ultimately have "stress_step\<^sup>*\<^sup>* started ?s6" by (meson converse_rtranclp_into_rtranclp rtranclp.rtrancl_refl)
  moreover have "FindSessionData u (sc_vec ?s6) = Some 0"
    by (rule find_first) (use n in \<open>auto simp: d nth_list_update split: if_splits\<close>)
  ultimately show ?thesis using n by (intro exI [of _ ?s6]) (simp add: asked_def d)
qed

text \<open>One message is under way.\<close>

lemma one_sent:
  "\<exists>s. work_step\<^sup>*\<^sup>* started s \<and> sc_wire s 7 = [GenerateRandomMessage (replicate 10 0)] \<and> sd_user (slot_at s 0) = Usr 7 \<and> sc_worker s 0 = WCount"
proof -
  let ?s1 = "started\<lparr>sc_open := insert 7 (sc_open started), sc_seen := insert 7 (sc_seen started), sc_connecting := (sc_connecting started)(7 := Some 0)\<rparr>"
  let ?s2 = "upd_slot 0 (\<lambda>d. d\<lparr>sd_user := Usr 7\<rparr>) (?s1\<lparr>sc_connecting := (sc_connecting ?s1)(7 := None)\<rparr>)"
  let ?s3 = "wgo 0 (WUser 7) ?s2" let ?s4 = "wgo 0 (WRandom 7) ?s3" let ?m = "GenerateRandomMessage (replicate 10 0)"
  let ?s5 = "wgo 0 (WEnqueue 7 ?m) ?s4"
  let ?s6 = "wgo 0 (WSend 7 ?m) (upd_slot 0 (\<lambda>d. d\<lparr>sd_sentMessages := sd_sentMessages d @ [?m]\<rparr>) ?s5)"
  let ?s7 = "wgo 0 WCount (?s6\<lparr>sc_wire := (sc_wire ?s6)(7 := sc_wire ?s6 7 @ HandleEchoRequest ?m)\<rparr>)"
  note d = wgo_def upd_slot_def
  have "work_step started ?s1" by (rule connecting, rule connected) simp
  moreover have "work_step ?s1 ?s2" by (rule connecting, rule take_slot) simp_all
  moreover have "work_step ?s2 ?s3" by (rule load_user) (simp_all add: d)
  moreover have "work_step ?s3 ?s4" by (rule going) (simp_all add: d)
  moreover have "message_ok ?m" unfolding message_ok_def by (rule exI [of _ "replicate 10 0"]) (simp add: MESSAGE_MIN_SIZE_def MESSAGE_MAX_SIZE_def)
  then have "work_step ?s4 ?s5" by (intro compose) (simp_all add: d)
  moreover have "work_step ?s5 ?s6" by (rule remember) (simp add: d)
  moreover have "work_step ?s6 ?s7" by (rule send) (simp_all add: d)
  ultimately have "work_step\<^sup>*\<^sup>* started ?s7" by (meson converse_rtranclp_into_rtranclp rtranclp.rtrancl_refl)
  then show ?thesis by (intro exI [of _ ?s7]) (simp add: d HandleEchoRequest_def)
qed

section \<open>Races\<close>

text \<open>A worker that loaded its user before it was marked tests the flag after it was reset.\<close>

lemma sends_on_ended: "\<exists>s. stress_step\<^sup>*\<^sup>* started s \<and> sc_asserted s \<and> sc_worker s 0 = WDone"
proof -
  note d = wgo_def kgo_def upd_slot_def log_assert_def
  obtain s where s: "stress_step\<^sup>*\<^sup>* started s" "asked 7 s" using asked_reachable by blast
  have a: "0 < length (sc_vec s)" "sd_user (slot_at s 0) = Usr 7" "sd_disconnectRequested (slot_at s 0)" "sc_worker s 0 = WLoop" "sc_testRunning s"
      "7 \<in> sc_seen s" "7 \<notin> sc_open s" "sc_clean s 7 = KIdle" "FindSessionData 7 (sc_vec s) = Some 0" "sc_stopper s = TIdle" using s(2) by (simp_all add: asked_def)
  let ?t1 = "wgo 0 (WUser 7) s" let ?t2 = "kgo 7 KFind ?t1"
  let ?t3 = "kgo 7 (KMark 0) (log_assert (sd_disconnectRequested (slot_at ?t2 0)) ?t2)"
  let ?t4 = "kgo 7 (KReset 0) (upd_slot 0 (\<lambda>d. d\<lparr>sd_user := CLEANING\<rparr>) ?t3)"
  let ?t5 = "kgo 7 (KDrain 0) (upd_slot 0 (\<lambda>d. d\<lparr>sd_disconnectRequested := False, sd_totalSendCount := 0\<rparr>) ?t4)"
  let ?t6 = "wgo 0 (WRandom 7) ?t5" let ?m = "GenerateRandomMessage (replicate 10 0)"
  let ?t7 = "wgo 0 (WEnqueue 7 ?m) ?t6"
  let ?t8 = "wgo 0 (WSend 7 ?m) (upd_slot 0 (\<lambda>d. d\<lparr>sd_sentMessages := sd_sentMessages d @ [?m]\<rparr>) ?t7)"
  let ?t9 = "wgo 0 WDone (log_assert False ?t8)"
  have "stress_step s ?t1" by (rule stress_work, rule load_user) (use a in simp_all)
  moreover have "stress_step ?t1 ?t2" by (rule stress_end, rule callback) (use a in \<open>simp_all add: d\<close>)
  moreover have "stress_step ?t2 ?t3" by (rule stress_end, rule found) (use a in \<open>simp_all add: d\<close>)
  moreover have "stress_step ?t3 ?t4" by (rule stress_end, rule mark) (use a in \<open>simp_all add: d\<close>)
  moreover have "stress_step ?t4 ?t5" by (rule stress_end, rule reset) (use a in \<open>simp_all add: d\<close>)
  moreover have "stress_step ?t5 ?t6" by (rule stress_work, rule going) (use a in \<open>simp_all add: d\<close>)
  moreover have "message_ok ?m" unfolding message_ok_def by (rule exI [of _ "replicate 10 0"]) (simp add: MESSAGE_MIN_SIZE_def MESSAGE_MAX_SIZE_def)
  then have "stress_step ?t6 ?t7" by (intro stress_work compose) (simp_all add: d)
  moreover have "stress_step ?t7 ?t8" by (rule stress_work, rule remember) (simp add: d)
  moreover have "stress_step ?t8 ?t9" by (rule stress_work, rule send_fails) (use a in \<open>simp_all add: d\<close>)
  ultimately have "stress_step\<^sup>*\<^sup>* s ?t9" by (meson converse_rtranclp_into_rtranclp rtranclp.rtrancl_refl)
  then show ?thesis
    using s(1) by (intro exI [of _ ?t9] conjI) (auto simp: d intro: rtranclp_trans)
qed

text \<open>A worker that leaves its loop does not test for the marker.\<close>

lemma calls_marker: "\<exists>s. stress_step\<^sup>*\<^sup>* started s \<and> sc_fault s"
proof -
  note d = wgo_def kgo_def upd_slot_def log_assert_def
  obtain s where s: "stress_step\<^sup>*\<^sup>* started s" "asked 7 s" using asked_reachable by blast
  have a: "0 < length (sc_vec s)" "sd_user (slot_at s 0) = Usr 7" "sd_disconnectRequested (slot_at s 0)" "sc_worker s 0 = WLoop" "sc_testRunning s"
      "7 \<in> sc_seen s" "7 \<notin> sc_open s" "sc_clean s 7 = KIdle" "FindSessionData 7 (sc_vec s) = Some 0" "sc_stopper s = TIdle" using s(2) by (simp_all add: asked_def)
  let ?r1 = "kgo 7 KFind s"
  let ?r2 = "kgo 7 (KMark 0) (log_assert (sd_disconnectRequested (slot_at ?r1 0)) ?r1)"
  let ?r3 = "kgo 7 (KReset 0) (upd_slot 0 (\<lambda>d. d\<lparr>sd_user := CLEANING\<rparr>) ?r2)"
  let ?r4 = "?r3\<lparr>sc_testRunning := False, sc_stopper := TJoin\<rparr>" let ?r5 = "wgo 0 WEnd ?r4"
  let ?r6 = "wgo 0 WDone (case sd_user (slot_at ?r5 0) of NoUser \<Rightarrow> ?r5 | CLEANING \<Rightarrow> ?r5\<lparr>sc_fault := True\<rparr> | Usr user \<Rightarrow> ?r5\<lparr>sc_open := sc_open ?r5 - {user}\<rparr>)"
  have "stress_step s ?r1" by (rule stress_end, rule callback) (use a in simp_all)
  moreover have "stress_step ?r1 ?r2" by (rule stress_end, rule found) (use a in \<open>simp_all add: d\<close>)
  moreover have "stress_step ?r2 ?r3" by (rule stress_end, rule mark) (use a in \<open>simp_all add: d\<close>)
  moreover have "stress_step ?r3 ?r4" by (rule stress_stop, rule stop) (use a in \<open>simp_all add: d\<close>)
  moreover have "stress_step ?r4 ?r5" by (rule stress_quit, rule leave) (use a in \<open>simp_all add: d\<close>)
  moreover have "stress_step ?r5 ?r6" by (rule stress_quit, rule finish) (use a in \<open>simp_all add: d\<close>)
  ultimately have "stress_step\<^sup>*\<^sup>* s ?r6" by (meson converse_rtranclp_into_rtranclp rtranclp.rtrancl_refl)
  moreover have "sc_fault ?r6" using a by (simp add: d)
  ultimately show ?thesis using s(1) by (meson rtranclp_trans)
qed

text \<open>When the flag is down, the workers leave one after the other, whatever the callbacks do.\<close>

definition left_to :: "nat \<Rightarrow> StressClient \<Rightarrow> StressClient \<Rightarrow> bool" where
  "left_to k s s' \<longleftrightarrow> (\<forall>i. sc_worker s' i = (if k \<le> i \<and> i < SESSION_COUNT then WLoop else WDone)) \<and> sc_vec s' = sc_vec s \<and> sc_clean s' = sc_clean s \<and>
     sc_testRunning s' = sc_testRunning s \<and> sc_stopper s' = sc_stopper s"

lemma workers_leave:
  assumes "left_to 0 s s" "\<not> sc_testRunning s" "length (sc_vec s) = SESSION_COUNT"
  shows "k \<le> SESSION_COUNT \<Longrightarrow> \<exists>s'. stress_step\<^sup>*\<^sup>* s s' \<and> left_to k s s'"
proof (induction k)
  case 0
  then show ?case using assms(1) by blast
next
  case (Suc k)
  then obtain s1 where s1: "stress_step\<^sup>*\<^sup>* s s1" "left_to k s s1" by auto
  have w: "sc_worker s1 k = WLoop" "\<not> sc_testRunning s1" "k < length (sc_vec s1)" using s1(2) Suc.prems assms(2,3) by (simp_all add: left_to_def)
  let ?s2 = "wgo k WEnd s1"
  let ?s3 = "wgo k WDone (case sd_user (slot_at ?s2 k) of NoUser \<Rightarrow> ?s2 | CLEANING \<Rightarrow> ?s2\<lparr>sc_fault := True\<rparr> | Usr user \<Rightarrow> ?s2\<lparr>sc_open := sc_open ?s2 - {user}\<rparr>)"
  have "stress_step s1 ?s2" by (rule stress_quit, rule leave) (use w in simp_all)
  moreover have "stress_step ?s2 ?s3" by (rule stress_quit, rule finish) (use w in \<open>simp_all add: wgo_def\<close>)
  ultimately have "stress_step\<^sup>*\<^sup>* s ?s3" using s1(1) by (meson rtranclp.rtrancl_into_rtrancl)
  moreover have "left_to (Suc k) s ?s3" using s1(2) Suc.prems by (auto simp: left_to_def wgo_def split: slot_user.split)
  ultimately show ?case by blast
qed

lemma users_stop:
  assumes "sc_stopper s = TUsers 0" "k \<le> length (sc_vec s)"
  shows "\<exists>s'. stress_step\<^sup>*\<^sup>* s s' \<and> sc_vec s' = sc_vec s \<and> sc_clean s' = sc_clean s \<and> sc_stopper s' = TUsers k"
  using assms(2)
proof (induction k)
  case 0
  then show ?case using assms(1) by blast
next
  case (Suc k)
  then obtain s1 where s1: "stress_step\<^sup>*\<^sup>* s s1" "sc_vec s1 = sc_vec s" "sc_clean s1 = sc_clean s" "sc_stopper s1 = TUsers k" by auto
  have "stress_step s1 (s1\<lparr>sc_open := (case sd_user (slot_at s1 k) of Usr user \<Rightarrow> sc_open s1 - {user} | _ \<Rightarrow> sc_open s1), sc_stopper := TUsers (Suc k)\<rparr>)"
    by (rule stress_stop, rule stop_user) (use s1 Suc.prems in simp_all)
  then show ?case using s1 by (intro exI [of _ "s1\<lparr>sc_open := (case sd_user (slot_at s1 k) of Usr user \<Rightarrow> sc_open s1 - {user} | _ \<Rightarrow> sc_open s1), sc_stopper := TUsers (Suc k)\<rparr>"])
    (simp add: rtranclp.rtrancl_into_rtrancl)
qed

text \<open>The end of the test does not wait for callbacks that hold a pointer to a slot.\<close>

lemma clears_used_slots: "\<exists>s. stress_step\<^sup>*\<^sup>* started s \<and> sc_gone s"
proof -
  note d = kgo_def log_assert_def
  obtain s where s: "stress_step\<^sup>*\<^sup>* started s" "asked 7 s" using asked_reachable by blast
  let ?r1 = "kgo 7 KFind s"
  let ?r2 = "kgo 7 (KMark 0) (log_assert (sd_disconnectRequested (slot_at ?r1 0)) ?r1)"
  let ?r3 = "?r2\<lparr>sc_testRunning := False, sc_stopper := TJoin\<rparr>"
  have "stress_step s ?r1" by (rule stress_end, rule callback) (use s(2) in \<open>simp_all add: asked_def\<close>)
  moreover have "stress_step ?r1 ?r2" by (rule stress_end, rule found) (use s(2) in \<open>simp_all add: d asked_def\<close>)
  moreover have "stress_step ?r2 ?r3" by (rule stress_stop, rule stop) (use s(2) in \<open>simp_all add: d asked_def\<close>)
  ultimately have r3: "stress_step\<^sup>*\<^sup>* started ?r3" using s(1) by (meson rtranclp.rtrancl_into_rtrancl)
  have "left_to 0 ?r3 ?r3" "length (sc_vec ?r3) = SESSION_COUNT" using s(2) by (simp_all add: left_to_def asked_def d)
  then obtain s4 where s4: "stress_step\<^sup>*\<^sup>* ?r3 s4" "left_to SESSION_COUNT ?r3 s4" using workers_leave [of ?r3 SESSION_COUNT] by auto
  let ?s5 = "s4\<lparr>sc_stopper := TUsers 0\<rparr>"
  have w4: "sc_stopper s4 = TJoin" "\<forall>i. sc_worker s4 i = WDone" "sc_clean s4 7 = KMark 0" using s4(2) by (simp_all add: left_to_def d)
  have s5: "stress_step s4 ?s5" by (rule stress_stop, rule joined) (use w4 in simp_all)
  obtain s6 where s6: "stress_step\<^sup>*\<^sup>* ?s5 s6" "sc_clean s6 = sc_clean ?s5" "sc_vec s6 = sc_vec ?s5" "sc_stopper s6 = TUsers (length (sc_vec ?s5))"
    using users_stop [of ?s5 "length (sc_vec ?s5)"] by auto
  let ?s7 = "s6\<lparr>sc_vec := [], sc_stopper := TIdle\<rparr>" let ?s8 = "kgo 7 KParent (?s7\<lparr>sc_gone := True\<rparr>)"
  have "stress_step s6 ?s7" by (rule stress_stop, rule clear) (use s6 in simp)
  moreover have "stress_step ?s7 ?s8" by (rule stress_end, rule gone) (use s6 w4 in simp_all)
  ultimately have "stress_step\<^sup>*\<^sup>* started ?s8" using r3 s4(1) s5 s6(1) by (meson rtranclp.rtrancl_into_rtrancl rtranclp_trans)
  then show ?thesis by (intro exI [of _ ?s8]) (simp add: d)
qed

text \<open>A worker that starts late resets a slot that is taken.\<close>

lemma loses_user:
  "\<exists>s. stress_step\<^sup>*\<^sup>* (OnClientStart StressClient_ctor) s \<and> u \<in> sc_open s \<and> sc_connecting s u = None \<and> FindSessionData u (sc_vec s) = None"
proof -
  let ?s0 = "started_to 0"
  let ?s1 = "?s0\<lparr>sc_open := insert u (sc_open ?s0), sc_seen := insert u (sc_seen ?s0), sc_connecting := (sc_connecting ?s0)(u := Some 0)\<rparr>"
  let ?s2 = "upd_slot 0 (\<lambda>d. d\<lparr>sd_user := Usr u\<rparr>) (?s1\<lparr>sc_connecting := (sc_connecting ?s1)(u := None)\<rparr>)"
  let ?s3 = "wgo 0 WLoop (upd_slot 0 (\<lambda>d. SessionData_assign d (SessionData_ctor NoUser 0)) ?s2)"
  have n: "0 < SESSION_COUNT" by (simp add: SESSION_COUNT_def)
  have "stress_step ?s0 ?s1" by (rule stress_connect, rule connected) simp
  moreover have "stress_step ?s1 ?s2" by (rule stress_connect, rule take_slot) (use n in simp_all)
  moreover have "stress_step ?s2 ?s3" by (rule stress_work, rule start) (use n in \<open>simp_all add: upd_slot_def\<close>)
  ultimately have "stress_step\<^sup>*\<^sup>* ?s0 ?s3" by (meson converse_rtranclp_into_rtranclp rtranclp.rtrancl_refl)
  moreover have "FindSessionData u (sc_vec ?s3) = None" using n
    by (auto simp: FindSessionData_def find_None_iff wgo_def upd_slot_def nth_list_update SessionData_assign_def SessionData_ctor_def)
  ultimately show ?thesis
    unfolding started_first [symmetric] by (intro exI [of _ ?s3] conjI) (simp_all add: wgo_def upd_slot_def)
qed

section \<open>Properties\<close>

text \<open>C35: As long as connections last, the stress test never raises a false alarm. From the state in which all workers have started, under any
  interleaving of workers, connects and responses: no assertion has failed (so every response equalled the oldest
  message not yet answered, and every send succeeded), no user stands in two slots, and the queue of a slot holds exactly the messages
  under way, in order, followed by the one its worker is about to send.\<close>

theorem echo_never_mismatches:
  assumes "work_step\<^sup>*\<^sup>* started s" "i < SESSION_COUNT"
  shows "\<not> sc_asserted s \<and>
    (sd_user (slot_at s i) = Usr u \<longrightarrow> sd_sentMessages (slot_at s i) = sc_wire s u @ pend (sc_worker s i)) \<and>
    (sd_user (slot_at s i) = Usr u \<longrightarrow> j < SESSION_COUNT \<longrightarrow> sd_user (slot_at s j) = Usr u \<longrightarrow> j = i)"
proof -
  have inv: "work_inv s" by (rule work_reach_inv [OF assms(1)])
  show ?thesis using inv work_invD [OF inv, of i] assms(2) work_reach_length [OF assms(1)] by (auto simp: work_inv_def slot_ok_def)
qed

theorem echo_never_mismatches_witness:
  "\<exists>s. work_step\<^sup>*\<^sup>* started s \<and> sc_wire s 7 = [GenerateRandomMessage (replicate 10 0)] \<and> sd_user (slot_at s 0) = Usr 7 \<and> \<not> sc_asserted s \<and>
     sd_sentMessages (slot_at s 0) = [GenerateRandomMessage (replicate 10 0)]"
proof -
  obtain s where s: "work_step\<^sup>*\<^sup>* started s" "sc_wire s 7 = [GenerateRandomMessage (replicate 10 0)]" "sd_user (slot_at s 0) = Usr 7" "sc_worker s 0 = WCount"
    using one_sent by blast
  then show ?thesis using echo_never_mismatches [OF s(1), of 0 7] by (intro exI [of _ s]) simp
qed

text \<open>C40: Ending connections races with the workers. From the start four things can happen although the server never ends a connection: a
  worker sends on a connection the client has ended itself, which fails an assertion and ends the worker; the end of the test calls a
  function of the marker \<open>CLEANING\<close> as if it were a user; the end of the test frees the slots while a disconnect callback still writes to one; and a worker that starts after the first connect erases the
  user of its slot, which is then connected but in no slot.\<close>

theorem stress_client_races:
  "(\<exists>s. stress_step\<^sup>*\<^sup>* started s \<and> sc_asserted s \<and> sc_worker s 0 = WDone) \<and>
   (\<exists>s. stress_step\<^sup>*\<^sup>* started s \<and> sc_fault s) \<and> (\<exists>s. stress_step\<^sup>*\<^sup>* started s \<and> sc_gone s) \<and>
   (\<exists>s. stress_step\<^sup>*\<^sup>* (OnClientStart StressClient_ctor) s \<and> u \<in> sc_open s \<and> sc_connecting s u = None \<and> FindSessionData u (sc_vec s) = None)"
  using sends_on_ended calls_marker clears_used_slots loses_user by blast

end
