(* ===== verification/Monitors.thy ===== *)
theory Monitors
  imports Prelude Complex_Main
begin

text \<open>
  Measuring (\<^verbatim>\<open>JunCommon/timer\<close>): the profiler with its table per thread, the processor load of the machine and of a process, and the
  system counters. What the operating system returns is an argument. Loads are real numbers before they are rounded to
  \<open>float\<close>; the counters are 64-bit words.

  Shown: for at most 20 threads and names of 1 to 127 characters the profiler is a map from names to statistics for each thread
  (\<open>profiler_refines\<close>, through the rows \<open>row_good\<close> and the invariant \<open>pf_ok\<close>); the load of the machine is the sum of its parts and
  lies between 0 and 100; more than ten network interfaces or more than twenty threads write behind an array. A division by 0 (a process
  load asked for twice at the same time) is 0 in the model and not a number in the code; nothing is shown of it.
\<close>

section \<open>Profiler\<close>

definition MAX_THREAD_NUM :: nat where "MAX_THREAD_NUM = 20"
definition PROFILE_DATA_NUM :: nat where "PROFILE_DATA_NUM = 100"
definition PROFILE_NAME_LEN :: nat where "PROFILE_NAME_LEN = 128"

record ProfileData =
  pd_useFlag :: bool
  pd_resetFlag :: bool
  pd_name :: string
  pd_totalTime :: u64
  pd_totalCall :: u32
  pd_startTime :: u32
  pd_max :: "u32 \<times> u32"
  pd_min :: "u32 \<times> u32"

definition blank_data :: ProfileData where
  "blank_data = \<lparr>pd_useFlag = False, pd_resetFlag = False, pd_name = '''', pd_totalTime = 0, pd_totalCall = 0, pd_startTime = 0, pd_max = (0, 0), pd_min = (-1, -1)\<rparr>"

definition ProfileData_Init :: "ProfileData \<Rightarrow> ProfileData" where
  "ProfileData_Init d = d\<lparr>pd_totalTime := 0, pd_totalCall := 0, pd_max := (0, 0), pd_min := (-1, -1)\<rparr>"

definition VaildateData :: "u32 \<Rightarrow> ProfileData \<Rightarrow> bool \<times> ProfileData" where
  "VaildateData profileTime d =
     (let (max0, max1) = pd_max d; (min0, min1) = pd_min d in
      if max0 < profileTime then (True, d\<lparr>pd_max := (profileTime, max1)\<rparr>)
      else if max1 < profileTime then (True, d\<lparr>pd_max := (max0, profileTime)\<rparr>)
      else if min0 > profileTime then (True, d\<lparr>pd_min := (profileTime, min1)\<rparr>)
      else if min1 > profileTime then (True, d\<lparr>pd_min := (min0, profileTime)\<rparr>)
      else (False, d))"

record Profiler =
  pf_index :: c_int
  pf_data :: "ProfileData list list"
  pf_tls :: "addr \<Rightarrow> nat option"

definition Profiler_ctor :: Profiler where
  "Profiler_ctor = \<lparr>pf_index = -1, pf_data = replicate MAX_THREAD_NUM (replicate PROFILE_DATA_NUM blank_data), pf_tls = (\<lambda>_. None)\<rparr>"

text \<open>The row of a thread. The 21st thread gets a row behind the array.\<close>

definition Profiler_Get :: "addr \<Rightarrow> Profiler \<Rightarrow> fault + (nat \<times> Profiler)" where
  "Profiler_Get t pf = (case pf_tls pf t of
     Some row \<Rightarrow> Inr (row, pf)
   | None \<Rightarrow>
       let index = pf_index pf + 1; row = unat index in
       if length (pf_data pf) \<le> row then Inl WriteOverrun
       else Inr (row, pf\<lparr>pf_index := index, pf_tls := (pf_tls pf)(t := Some row)\<rparr>))"

text \<open>The two loops of \<open>ProfileBegin\<close>; names are cut to 127 characters.\<close>

fun begin_known :: "string \<Rightarrow> u32 \<Rightarrow> ProfileData list \<Rightarrow> ProfileData list option" where
  "begin_known name now [] = None"
| "begin_known name now (d # ds) =
     (if pd_name d = name then Some (d\<lparr>pd_startTime := now\<rparr> # ds) else map_option (Cons d) (begin_known name now ds))"

fun begin_new :: "string \<Rightarrow> u32 \<Rightarrow> ProfileData list \<Rightarrow> ProfileData list" where
  "begin_new name now [] = []"
| "begin_new name now (d # ds) =
     (if \<not> pd_useFlag d then d\<lparr>pd_name := take (PROFILE_NAME_LEN - 1) name, pd_useFlag := True, pd_startTime := now\<rparr> # ds
      else d # begin_new name now ds)"

definition row_begin :: "string \<Rightarrow> u64 \<Rightarrow> ProfileData list \<Rightarrow> ProfileData list" where
  "row_begin name tick row = (case begin_known name (ucast tick) row of Some row' \<Rightarrow> row' | None \<Rightarrow> begin_new name (ucast tick) row)"

fun row_end :: "string \<Rightarrow> u64 \<Rightarrow> ProfileData list \<Rightarrow> ProfileData list" where
  "row_end name tick [] = []"
| "row_end name tick (d # ds) =
     (if \<not> pd_useFlag d then d # ds
      else if pd_name d \<noteq> name then d # row_end name tick ds
      else if pd_resetFlag d then (ProfileData_Init d)\<lparr>pd_resetFlag := False\<rparr> # ds
      else
        let profileTime = ucast tick - pd_startTime d; (excluded, d') = VaildateData profileTime d in
        if excluded then d' # ds
        else d'\<lparr>pd_totalTime := pd_totalTime d' + ucast profileTime, pd_totalCall := pd_totalCall d' + 1\<rparr> # row_end name tick ds)"

fun row_reset :: "ProfileData list \<Rightarrow> ProfileData list" where
  "row_reset [] = []"
| "row_reset (d # ds) = (if \<not> pd_useFlag d then d # ds else d\<lparr>pd_resetFlag := True\<rparr> # row_reset ds)"

definition in_row :: "addr \<Rightarrow> (ProfileData list \<Rightarrow> ProfileData list) \<Rightarrow> Profiler \<Rightarrow> fault + Profiler" where
  "in_row t f pf = rbind (Profiler_Get t pf) (\<lambda>(row, pf1). Inr (pf1\<lparr>pf_data := (pf_data pf1)[row := f (pf_data pf1 ! row)]\<rparr>))"

definition ProfileBegin :: "addr \<Rightarrow> string \<Rightarrow> u64 \<Rightarrow> Profiler \<Rightarrow> fault + Profiler" where
  "ProfileBegin t name tick pf = in_row t (row_begin name tick) pf"

definition ProfileEnd :: "addr \<Rightarrow> string \<Rightarrow> u64 \<Rightarrow> Profiler \<Rightarrow> fault + Profiler" where
  "ProfileEnd t name tick pf = in_row t (row_end name tick) pf"

definition ProfileReset :: "Profiler \<Rightarrow> Profiler" where
  "ProfileReset pf = pf\<lparr>pf_data := map (\<lambda>i. if int i \<le> sint (pf_index pf) then row_reset (pf_data pf ! i) else pf_data pf ! i) [0..<length (pf_data pf)]\<rparr>"

section \<open>Processor load\<close>

record cpu_load =
  cl_total :: real
  cl_user :: real
  cl_kernel :: real

record MachineCpuMonitor =
  mm_NumOfCore :: nat
  mm_load :: cpu_load
  mm_prevKernelTime :: u64
  mm_prevUserTime :: u64
  mm_prevIdleTime :: u64

text \<open>\<open>times\<close> is the result of \<open>GetSystemTimes\<close>: idle, kernel and user time.\<close>

definition Machine_UpdateCpuUsage :: "(u64 \<times> u64 \<times> u64) option \<Rightarrow> MachineCpuMonitor \<Rightarrow> MachineCpuMonitor" where
  "Machine_UpdateCpuUsage system_times m = (case system_times of
     None \<Rightarrow> m
   | Some (curIdleTime, curkernelTime, curUserTime) \<Rightarrow>
       let deltaIdleTime = curIdleTime - mm_prevIdleTime m;
           deltaKernelTime = curkernelTime - mm_prevKernelTime m;
           deltaUserTime = curUserTime - mm_prevUserTime m;
           Total = deltaKernelTime + deltaUserTime;
           share = (\<lambda>t :: u64. of_nat (unat t) / of_nat (unat Total) * 100);
           load = (if Total = 0 then \<lparr>cl_total = 0, cl_user = 0, cl_kernel = 0\<rparr>
             else \<lparr>cl_total = share (Total - deltaIdleTime), cl_user = share deltaUserTime, cl_kernel = share (deltaKernelTime - deltaIdleTime)\<rparr>)
       in m\<lparr>mm_load := load, mm_prevKernelTime := curkernelTime, mm_prevUserTime := curUserTime, mm_prevIdleTime := curIdleTime\<rparr>)"

definition MachineCpuMonitor_ctor :: "nat \<Rightarrow> (u64 \<times> u64 \<times> u64) option \<Rightarrow> MachineCpuMonitor" where
  "MachineCpuMonitor_ctor cores system_times = Machine_UpdateCpuUsage system_times
     \<lparr>mm_NumOfCore = cores, mm_load = \<lparr>cl_total = 0, cl_user = 0, cl_kernel = 0\<rparr>, mm_prevKernelTime = 0, mm_prevUserTime = 0, mm_prevIdleTime = 0\<rparr>"

record ProcessCpuMonitor =
  pm_h_process :: "addr option"
  pm_NumOfCore :: nat
  pm_load :: cpu_load
  pm_prevTime :: u64
  pm_prevUserTime :: u64
  pm_prevKernelTime :: u64

text \<open>The time of the system and the kernel and user time of the process.\<close>

definition Process_UpdateCpuUsage :: "u64 \<Rightarrow> u64 \<Rightarrow> u64 \<Rightarrow> ProcessCpuMonitor \<Rightarrow> ProcessCpuMonitor" where
  "Process_UpdateCpuUsage curTime curkernelTime curUserTime m =
     (let deltaTime = curTime - pm_prevTime m;
          deltaUserTime = curUserTime - pm_prevUserTime m;
          deltaKernelTime = curkernelTime - pm_prevKernelTime m;
          totalTime = deltaKernelTime + deltaUserTime;
          share = (\<lambda>t :: u64. of_nat (unat t) / of_nat (pm_NumOfCore m) / of_nat (unat deltaTime) * 100)
      in m\<lparr>pm_load := \<lparr>cl_total = share totalTime, cl_user = share deltaUserTime, cl_kernel = share deltaKernelTime\<rparr>,
           pm_prevTime := curTime, pm_prevKernelTime := curkernelTime, pm_prevUserTime := curUserTime\<rparr>)"

text \<open>A handle that is passed in is not stored: \<open>None\<close> is the uninitialised member.\<close>

definition ProcessCpuMonitor_ctor :: "addr option \<Rightarrow> addr \<Rightarrow> nat \<Rightarrow> u64 \<Rightarrow> u64 \<Rightarrow> u64 \<Rightarrow> ProcessCpuMonitor" where
  "ProcessCpuMonitor_ctor hProcess current cores curTime curkernelTime curUserTime =
     Process_UpdateCpuUsage curTime curkernelTime curUserTime
       \<lparr>pm_h_process = (if hProcess = None then Some current else None), pm_NumOfCore = cores, pm_load = \<lparr>cl_total = 0, cl_user = 0, cl_kernel = 0\<rparr>,
        pm_prevTime = 0, pm_prevUserTime = 0, pm_prevKernelTime = 0\<rparr>"

section \<open>System counters\<close>

definition MAX_ETHERNET :: nat where "MAX_ETHERNET = 10"

record Ethernet =
  et_isUse :: bool
  et_name :: string

record PerformanceCounter =
  pc_ethernet :: "Ethernet list"
  pc_userMemory :: u64
  pc_processNonMemory :: u64
  pc_availMemory :: u64
  pc_systemNonMemory :: u64
  pc_recvBytes :: u64
  pc_sendBytes :: u64

text \<open>The values of the counters: the four of the memory, and bytes received and sent of an interface.\<close>

record pdh_values =
  pv_memory :: "u64 \<times> u64 \<times> u64 \<times> u64"
  pv_recv :: "nat \<Rightarrow> u64"
  pv_send :: "nat \<Rightarrow> u64"

fun net_loop :: "pdh_values \<Rightarrow> nat \<Rightarrow> Ethernet list \<Rightarrow> PerformanceCounter \<Rightarrow> PerformanceCounter" where
  "net_loop pv i [] c = c"
| "net_loop pv i (e # es) c =
     (if et_isUse e then net_loop pv (Suc i) es (c\<lparr>pc_recvBytes := pc_recvBytes c + pv_recv pv i, pc_sendBytes := pc_sendBytes c + pv_send pv i\<rparr>) else c)"

definition PerformanceCounter_Update :: "pdh_values \<Rightarrow> PerformanceCounter \<Rightarrow> PerformanceCounter" where
  "PerformanceCounter_Update pv c =
     (let (user_mem, process_non, avail, system_non) = pv_memory pv
      in net_loop pv 0 (pc_ethernet c) (c\<lparr>pc_userMemory := user_mem, pc_processNonMemory := process_non, pc_availMemory := avail,
           pc_systemNonMemory := system_non, pc_recvBytes := 0, pc_sendBytes := 0\<rparr>))"

text \<open>The loop over the names of the interfaces (at least one). A name that does not fit makes \<open>wcscpy_s\<close> end the process.\<close>

fun ethernet_loop :: "nat \<Rightarrow> string list \<Rightarrow> Ethernet list \<Rightarrow> fault + Ethernet list" where
  "ethernet_loop i [] es = Inr es"
| "ethernet_loop i (name # names) es =
     (if length es \<le> i then Inl WriteOverrun
      else if 128 \<le> length name then Inl Terminate
      else let es1 = es[i := \<lparr>et_isUse = True, et_name = name\<rparr>]
           in if names = [] \<or> MAX_ETHERNET \<le> i then Inr es1 else ethernet_loop (Suc i) names es1)"

definition PerformanceCounter_ctor :: "string list option \<Rightarrow> pdh_values \<Rightarrow> PerformanceCounter \<Rightarrow> fault + PerformanceCounter" where
  "PerformanceCounter_ctor interfaces pv garbage =
     (let c = garbage\<lparr>pc_ethernet := replicate MAX_ETHERNET \<lparr>et_isUse = False, et_name = ''''\<rparr>, pc_recvBytes := 0, pc_sendBytes := 0\<rparr>
      in case interfaces of
        None \<Rightarrow> Inr c
      | Some names \<Rightarrow> rbind (ethernet_loop 0 names (pc_ethernet c)) (\<lambda>es. Inr (PerformanceCounter_Update pv (c\<lparr>pc_ethernet := es\<rparr>))))"

section \<open>The profiler as a map\<close>

definition measured :: "u64 \<Rightarrow> ProfileData \<Rightarrow> ProfileData" where
  "measured tick d =
     (if pd_resetFlag d then (ProfileData_Init d)\<lparr>pd_resetFlag := False\<rparr>
      else let profileTime = ucast tick - pd_startTime d; (excluded, d') = VaildateData profileTime d
           in if excluded then d' else d'\<lparr>pd_totalTime := pd_totalTime d' + ucast profileTime, pd_totalCall := pd_totalCall d' + 1\<rparr>)"

definition fresh :: "string \<Rightarrow> u64 \<Rightarrow> ProfileData" where
  "fresh name tick = blank_data\<lparr>pd_name := name, pd_useFlag := True, pd_startTime := ucast tick\<rparr>"

type_synonym profile = "string \<rightharpoonup> ProfileData"

definition spec_begin :: "string \<Rightarrow> u64 \<Rightarrow> profile \<Rightarrow> profile" where
  "spec_begin name tick m = (case m name of
     Some d \<Rightarrow> m(name \<mapsto> d\<lparr>pd_startTime := ucast tick\<rparr>)
   | None \<Rightarrow> if card (dom m) < PROFILE_DATA_NUM then m(name \<mapsto> fresh name tick) else m)"

definition spec_end :: "string \<Rightarrow> u64 \<Rightarrow> profile \<Rightarrow> profile" where
  "spec_end name tick m = m(name := map_option (measured tick) (m name))"

definition spec_reset :: "profile \<Rightarrow> profile" where
  "spec_reset m = (\<lambda>name. map_option (\<lambda>d. d\<lparr>pd_resetFlag := True\<rparr>) (m name))"

text \<open>A row is a list of used entries with different names, followed by blank ones.\<close>

definition row_ok :: "ProfileData list \<Rightarrow> bool" where
  "row_ok ds \<longleftrightarrow> length ds \<le> PROFILE_DATA_NUM \<and> distinct (map pd_name ds) \<and> (\<forall>d \<in> set ds. pd_useFlag d \<and> pd_name d \<noteq> '''')"

definition padded :: "ProfileData list \<Rightarrow> ProfileData list" where
  "padded ds = ds @ replicate (PROFILE_DATA_NUM - length ds) blank_data"

definition view :: "ProfileData list \<Rightarrow> profile" where
  "view ds = map_of (map (\<lambda>d. (pd_name d, d)) ds)"

definition upd_name :: "string \<Rightarrow> (ProfileData \<Rightarrow> ProfileData) \<Rightarrow> ProfileData list \<Rightarrow> ProfileData list" where
  "upd_name name f ds = map (\<lambda>d. if pd_name d = name then f d else d) ds"

lemma measured_keeps [simp]: "pd_name (measured tick d) = pd_name d" "pd_useFlag (measured tick d) = pd_useFlag d"
  by (simp_all add: measured_def ProfileData_Init_def VaildateData_def Let_def split_beta)

lemma upd_name_absent: "name \<notin> pd_name ` set ds \<Longrightarrow> upd_name name f ds = ds"
  by (induction ds) (auto simp: upd_name_def)

lemma upd_name_Cons:
  "upd_name name f (d # ds) = (if pd_name d = name then f d else d) # upd_name name f ds"
  by (simp add: upd_name_def)

lemma begin_known_row:
  assumes "distinct (map pd_name ds)" "name \<noteq> ''''"
  shows "begin_known name now (ds @ replicate k blank_data) =
    (if name \<in> pd_name ` set ds then Some (upd_name name (\<lambda>d. d\<lparr>pd_startTime := now\<rparr>) ds @ replicate k blank_data) else None)"
  using assms(1)
proof (induction ds)
  case Nil
  have "begin_known name now (replicate k blank_data) = None" using assms(2) by (induction k) (simp_all add: blank_data_def)
  then show ?case by simp
next
  case (Cons d ds)
  show ?case
  proof (cases "pd_name d = name")
    case True
    then have "name \<notin> pd_name ` set ds" using Cons.prems by auto
    then have "upd_name name (\<lambda>d. d\<lparr>pd_startTime := now\<rparr>) ds = ds" by (rule upd_name_absent)
    then show ?thesis using True by (simp add: upd_name_Cons)
  next
    case False
    then show ?thesis using Cons.IH Cons.prems by (auto simp: upd_name_Cons)
  qed
qed

lemma begin_new_row:
  assumes "\<forall>d \<in> set ds. pd_useFlag d"
  shows "begin_new name now (ds @ replicate k blank_data) =
    (case k of 0 \<Rightarrow> ds | Suc k' \<Rightarrow> ds @ blank_data\<lparr>pd_name := take 127 name, pd_useFlag := True, pd_startTime := now\<rparr> # replicate k' blank_data)"
  using assms
proof (induction ds)
  case Nil
  then show ?case by (cases k) (simp_all add: blank_data_def PROFILE_NAME_LEN_def)
next
  case (Cons d ds)
  then show ?case by (cases k) simp_all
qed

lemma row_end_blank: "row_end name tick (replicate k blank_data) = replicate k blank_data"
  by (cases k) (simp_all add: blank_data_def)

lemma row_end_absent:
  "name \<notin> pd_name ` set ds \<Longrightarrow> \<forall>d \<in> set ds. pd_useFlag d \<Longrightarrow> row_end name tick (ds @ replicate k blank_data) = ds @ replicate k blank_data"
  by (induction ds) (auto simp: row_end_blank)

lemma row_end_row:
  assumes "distinct (map pd_name ds)" "\<forall>d \<in> set ds. pd_useFlag d"
  shows "row_end name tick (ds @ replicate k blank_data) = upd_name name (measured tick) ds @ replicate k blank_data"
  using assms
proof (induction ds)
  case Nil
  then show ?case by (simp add: row_end_blank upd_name_def)
next
  case (Cons d ds)
  show ?case
  proof (cases "pd_name d = name")
    case True
    then have a: "name \<notin> pd_name ` set ds" using Cons.prems(1) by auto
    then have u: "upd_name name (measured tick) (d # ds) = measured tick d # ds" using True upd_name_absent [OF a] by (simp add: upd_name_Cons)
    have "row_end name tick (d # ds @ replicate k blank_data) = measured tick d # ds @ replicate k blank_data"
      using True Cons.prems(2) row_end_absent [OF a] by (simp add: measured_def Let_def split_beta)
    then show ?thesis by (simp add: u)
  qed (use Cons in \<open>simp add: upd_name_def\<close>)
qed

lemma row_reset_row:
  "\<forall>d \<in> set ds. pd_useFlag d \<Longrightarrow> row_reset (ds @ replicate k blank_data) = map (\<lambda>d. d\<lparr>pd_resetFlag := True\<rparr>) ds @ replicate k blank_data"
proof (induction ds)
  case Nil
  then show ?case by (cases k) (simp_all add: blank_data_def)
qed simp

lemma view_upd_name: "(\<And>d. pd_name (f d) = pd_name d) \<Longrightarrow> view (upd_name name f ds) = (view ds)(name := map_option f (view ds name))"
  by (induction ds) (auto simp: view_def upd_name_def fun_eq_iff)

lemma view_dom: "dom (view ds) = pd_name ` set ds"
  by (force simp: view_def dom_map_of_conv_image_fst)

lemma view_None: "view ds name = None \<longleftrightarrow> name \<notin> pd_name ` set ds"
  using view_dom [of ds] by (auto simp: domIff)

lemma upd_name_names: "(\<And>d. pd_name (f d) = pd_name d) \<Longrightarrow> map pd_name (upd_name name f ds) = map pd_name ds"
  by (induction ds) (simp_all add: upd_name_def)

lemma row_ok_upd:
  assumes "row_ok ds" "\<And>d. pd_name (f d) = pd_name d" "\<And>d. pd_useFlag (f d) = pd_useFlag d"
  shows "row_ok (upd_name name f ds)"
proof -
  have "distinct (map pd_name (upd_name name f ds))" using assms(1) by (simp only: upd_name_names [OF assms(2)] row_ok_def)
  moreover have "length (upd_name name f ds) \<le> PROFILE_DATA_NUM" using assms(1) by (simp add: row_ok_def upd_name_def)
  moreover have "\<forall>d \<in> set (upd_name name f ds). pd_useFlag d \<and> pd_name d \<noteq> []" using assms by (auto simp: row_ok_def upd_name_def)
  ultimately show ?thesis by (simp add: row_ok_def)
qed

definition entries :: "ProfileData list \<Rightarrow> ProfileData list" where
  "entries row = takeWhile pd_useFlag row"

definition row_good :: "ProfileData list \<Rightarrow> bool" where
  "row_good row \<longleftrightarrow> row_ok (entries row) \<and> row = padded (entries row)"

definition row_view :: "ProfileData list \<Rightarrow> profile" where
  "row_view row = view (entries row)"

lemma entries_padded [simp]: "row_ok ds \<Longrightarrow> entries (padded ds) = ds"
  by (cases "PROFILE_DATA_NUM - length ds") (simp_all add: entries_def padded_def row_ok_def blank_data_def takeWhile_append)

lemma row_goodE:
  assumes "row_good row"
  obtains ds where "row_ok ds" "row = padded ds" "row_view row = view ds"
  using assms by (auto simp: row_good_def row_view_def)

lemma row_good_padded: "row_ok ds \<Longrightarrow> row_good (padded ds) \<and> row_view (padded ds) = view ds"
  by (simp add: row_good_def row_view_def)

lemma padded_upd: "padded (upd_name name f ds) = upd_name name f ds @ replicate (PROFILE_DATA_NUM - length ds) blank_data"
  by (simp add: padded_def upd_name_def)

definition name_ok :: "string \<Rightarrow> bool" where
  "name_ok name \<longleftrightarrow> name \<noteq> [] \<and> length name < PROFILE_NAME_LEN"

lemma card_view: "row_ok ds \<Longrightarrow> card (dom (view ds)) = length ds"
  using distinct_card [of "map pd_name ds"] by (simp add: view_dom row_ok_def)

lemma view_snoc: "pd_name d \<notin> pd_name ` set ds \<Longrightarrow> view (ds @ [d]) = (view ds)(pd_name d \<mapsto> d)"
  by (induction ds) (auto simp: view_def fun_eq_iff)

lemma row_begin_refines:
  assumes "row_good row" "name_ok name"
  shows "row_good (row_begin name tick row) \<and> row_view (row_begin name tick row) = spec_begin name tick (row_view row)"
  using assms(1)
proof (rule row_goodE)
  fix ds assume r: "row_ok ds" "row = padded ds" "row_view row = view ds"
  let ?f = "\<lambda>d. d\<lparr>pd_startTime := ucast tick\<rparr>"
  have k: "begin_known name (ucast tick) row =
      (if name \<in> pd_name ` set ds then Some (padded (upd_name name ?f ds)) else None)"
    unfolding padded_upd using r(1,2) assms(2) begin_known_row [of ds name "ucast tick"] by (simp add: padded_def row_ok_def name_ok_def)
  show ?thesis
  proof (cases "name \<in> pd_name ` set ds")
    case True
    then obtain d where d: "view ds name = Some d" using view_None [of ds name] by auto
    have "row_ok (upd_name name ?f ds)" by (rule row_ok_upd [OF r(1)]) simp_all
    then show ?thesis using True k r(3) d row_good_padded view_upd_name [of ?f name ds]
      by (simp add: row_begin_def spec_begin_def)
  next
    case False
    show ?thesis
    proof (cases "PROFILE_DATA_NUM - length ds")
      case 0
      then have "length ds = PROFILE_DATA_NUM" using r(1) by (simp add: row_ok_def)
      then have "row_begin name tick row = row" "spec_begin name tick (view ds) = view ds"
        using False k r(1,2) begin_new_row [of ds name "ucast tick" 0] card_view [OF r(1)] view_None [of ds name]
        by (simp_all add: row_begin_def padded_def row_ok_def spec_begin_def)
      then show ?thesis using r assms(1) by simp
    next
      case (Suc k')
      have ok: "row_ok (ds @ [fresh name tick])" using r(1) False Suc assms(2) by (auto simp: row_ok_def fresh_def name_ok_def)
      have "row_begin name tick row = padded (ds @ [fresh name tick])"
        using False k r(1,2) Suc assms(2) begin_new_row [of ds name "ucast tick" "Suc k'"]
        by (simp add: row_begin_def padded_def row_ok_def fresh_def name_ok_def PROFILE_NAME_LEN_def)
      moreover have "length ds < PROFILE_DATA_NUM" using Suc by simp
      then have "spec_begin name tick (view ds) = view (ds @ [fresh name tick])"
        using False card_view [OF r(1)] view_None [of ds name] view_snoc [of "fresh name tick" ds]
        by (simp add: spec_begin_def fresh_def)
      ultimately show ?thesis using row_good_padded [OF ok] r(3) by simp
    qed
  qed
qed

lemma row_end_refines:
  assumes "row_good row"
  shows "row_good (row_end name tick row) \<and> row_view (row_end name tick row) = spec_end name tick (row_view row)"
  using assms
proof (rule row_goodE)
  fix ds assume r: "row_ok ds" "row = padded ds" "row_view row = view ds"
  have "row_end name tick row = padded (upd_name name (measured tick) ds)"
    unfolding padded_upd using r(1,2) row_end_row [of ds name tick] by (simp add: padded_def row_ok_def)
  moreover have "row_ok (upd_name name (measured tick) ds)" by (rule row_ok_upd [OF r(1)]) simp_all
  ultimately show ?thesis using row_good_padded r(3) by (simp add: spec_end_def view_upd_name)
qed

lemma view_map: "(\<And>d. pd_name (f d) = pd_name d) \<Longrightarrow> view (map f ds) = (\<lambda>name. map_option f (view ds name))"
  by (induction ds) (auto simp: view_def fun_eq_iff)

lemma row_reset_refines:
  assumes "row_good row"
  shows "row_good (row_reset row) \<and> row_view (row_reset row) = spec_reset (row_view row)"
  using assms
proof (rule row_goodE)
  fix ds assume r: "row_ok ds" "row = padded ds" "row_view row = view ds"
  let ?f = "\<lambda>d :: ProfileData. d\<lparr>pd_resetFlag := True\<rparr>"
  have "map pd_name (map ?f ds) = map pd_name ds" by (induction ds) simp_all
  then have ok: "row_ok (map ?f ds)" using r(1) by (simp add: row_ok_def comp_def)
  have "row_reset row = padded (map ?f ds)" using r(1,2) by (simp add: padded_def row_ok_def row_reset_row)
  then show ?thesis using row_good_padded [OF ok] r(3) by (simp add: spec_reset_def view_map)
qed

section \<open>All threads\<close>

datatype profile_op = PBegin addr string u64 | PEnd addr string u64 | PReset

fun profile_step :: "profile_op \<Rightarrow> Profiler \<Rightarrow> fault + Profiler" where
  "profile_step (PBegin t name tick) pf = ProfileBegin t name tick pf"
| "profile_step (PEnd t name tick) pf = ProfileEnd t name tick pf"
| "profile_step PReset pf = Inr (ProfileReset pf)"

fun profile_run :: "profile_op list \<Rightarrow> Profiler \<Rightarrow> fault + Profiler" where
  "profile_run [] pf = Inr pf"
| "profile_run (op # ops) pf = rbind (profile_step op pf) (profile_run ops)"

fun spec_step :: "profile_op \<Rightarrow> (addr \<Rightarrow> profile) \<Rightarrow> addr \<Rightarrow> profile" where
  "spec_step (PBegin t name tick) m = m(t := spec_begin name tick (m t))"
| "spec_step (PEnd t name tick) m = m(t := spec_end name tick (m t))"
| "spec_step PReset m = (\<lambda>t. spec_reset (m t))"

fun op_ok :: "profile_op \<Rightarrow> bool" where
  "op_ok (PBegin t name tick) = name_ok name"
| "op_ok (PEnd t name tick) = True"
| "op_ok PReset = True"

fun op_threads :: "profile_op \<Rightarrow> addr set" where
  "op_threads (PBegin t name tick) = {t}"
| "op_threads (PEnd t name tick) = {t}"
| "op_threads PReset = {}"

definition threads :: "profile_op list \<Rightarrow> addr set" where
  "threads ops = \<Union> (op_threads ` set ops)"

definition abs_profiler :: "Profiler \<Rightarrow> addr \<Rightarrow> profile" where
  "abs_profiler pf t = (case pf_tls pf t of None \<Rightarrow> Map.empty | Some row \<Rightarrow> row_view (pf_data pf ! row))"

text \<open>The rows below the index belong to one thread each; the others have never been used.\<close>

definition pf_ok :: "Profiler \<Rightarrow> bool" where
  "pf_ok pf \<longleftrightarrow> length (pf_data pf) = MAX_THREAD_NUM \<and> (\<forall>row \<in> set (pf_data pf). row_good row) \<and>
     finite (dom (pf_tls pf)) \<and> card (dom (pf_tls pf)) \<le> MAX_THREAD_NUM \<and> sint (pf_index pf) = int (card (dom (pf_tls pf))) - 1 \<and>
     inj_on (pf_tls pf) (dom (pf_tls pf)) \<and> (\<forall>row \<in> ran (pf_tls pf). row < card (dom (pf_tls pf))) \<and>
     (\<forall>i. card (dom (pf_tls pf)) \<le> i \<longrightarrow> i < MAX_THREAD_NUM \<longrightarrow> pf_data pf ! i = padded [])"

lemma row_ok_Nil [simp]: "row_ok []" by (simp add: row_ok_def)
lemma view_Nil [simp]: "view [] = Map.empty" by (simp add: view_def)

lemma pf_ok_ctor: "pf_ok Profiler_ctor"
  using row_good_padded [OF row_ok_Nil] by (simp add: pf_ok_def Profiler_ctor_def padded_def)

lemma next_index:
  fixes i :: c_int
  assumes "sint i = int n - 1" "n \<le> MAX_THREAD_NUM"
  shows "unat (i + 1) = n" "sint (i + 1) = int n"
proof -
  have "i = of_int (int n - 1)" using assms(1) by (metis of_int_sint scast_id)
  then have e: "i + 1 = of_nat n" by simp
  show "unat (i + 1) = n" using assms(2) unfolding e by (simp add: unat_of_nat take_bit_nat_eq_self MAX_THREAD_NUM_def)
  show "sint (i + 1) = int n" using assms(2) unfolding e by (simp add: signed_of_nat signed_take_bit_int_eq_self MAX_THREAD_NUM_def)
qed

lemma Profiler_Get_ok:
  assumes "pf_ok pf" "card (insert t (dom (pf_tls pf))) \<le> MAX_THREAD_NUM"
  obtains row pf1 where "Profiler_Get t pf = Inr (row, pf1)" "pf_ok pf1" "pf_tls pf1 t = Some row" "row < MAX_THREAD_NUM"
    "dom (pf_tls pf1) = insert t (dom (pf_tls pf))" "abs_profiler pf1 = abs_profiler pf"
proof (cases "pf_tls pf t")
  case (Some row)
  then have "row < MAX_THREAD_NUM" using assms(1) by (fastforce simp: pf_ok_def ran_def)
  moreover have "insert t (dom (pf_tls pf)) = dom (pf_tls pf)" using Some by auto
  ultimately show ?thesis using Some assms(1) by (intro that [of row pf]) (simp_all add: Profiler_Get_def)
next
  case None
  let ?n = "card (dom (pf_tls pf))"
  let ?pf1 = "pf\<lparr>pf_index := pf_index pf + 1, pf_tls := (pf_tls pf)(t \<mapsto> ?n)\<rparr>"
  have fin: "finite (dom (pf_tls pf))" and lim: "?n \<le> MAX_THREAD_NUM" and len: "length (pf_data pf) = MAX_THREAD_NUM"
    and idx: "sint (pf_index pf) = int ?n - 1" using assms(1) by (simp_all add: pf_ok_def)
  have n: "Suc ?n \<le> MAX_THREAD_NUM" using assms(2) None fin by (simp add: domIff)
  have cd: "card (dom ((pf_tls pf)(t \<mapsto> ?n))) = Suc ?n" using None fin by (simp add: domIff)
  have get: "Profiler_Get t pf = Inr (?n, ?pf1)"
    using None n len next_index [OF idx lim] by (simp add: Profiler_Get_def Let_def)
  have fresh: "pf_tls pf x \<noteq> Some ?n" for x using assms(1) by (auto simp: pf_ok_def ran_def)
  have inj: "inj_on ((pf_tls pf)(t \<mapsto> ?n)) (dom ((pf_tls pf)(t \<mapsto> ?n)))"
    using assms(1) fresh None by (auto simp: pf_ok_def inj_on_def domIff)
  have ran: "\<forall>row \<in> ran ((pf_tls pf)(t \<mapsto> ?n)). row < Suc ?n" using assms(1) None by (auto simp: pf_ok_def less_Suc_eq)
  have ok: "pf_ok ?pf1" unfolding pf_ok_def using assms(1) n cd inj ran next_index [OF idx lim] by (simp add: pf_ok_def)
  have "pf_data pf ! ?n = padded []" using assms(1) n by (simp add: pf_ok_def)
  then have "abs_profiler ?pf1 = abs_profiler pf"
    using None row_good_padded [OF row_ok_Nil] by (auto simp: abs_profiler_def fun_eq_iff split: option.split)
  then show ?thesis using get ok n by (intro that [of ?n ?pf1]) simp_all
qed

lemma in_row_ok:
  assumes ok: "pf_ok pf" and lim: "card (insert t (dom (pf_tls pf))) \<le> MAX_THREAD_NUM"
    and f: "\<And>row. row_good row \<Longrightarrow> row_good (f row) \<and> row_view (f row) = g (row_view row)"
  shows "\<exists>pf'. in_row t f pf = Inr pf' \<and> pf_ok pf' \<and> dom (pf_tls pf') = insert t (dom (pf_tls pf)) \<and>
    abs_profiler pf' = (abs_profiler pf)(t := g (abs_profiler pf t))"
proof (rule Profiler_Get_ok [OF ok lim])
  fix row pf1
  assume get: "Profiler_Get t pf = Inr (row, pf1)" and ok1: "pf_ok pf1" and own: "pf_tls pf1 t = Some row" and row: "row < MAX_THREAD_NUM"
    and d: "dom (pf_tls pf1) = insert t (dom (pf_tls pf))" and a: "abs_profiler pf1 = abs_profiler pf"
  let ?pf' = "pf1\<lparr>pf_data := (pf_data pf1)[row := f (pf_data pf1 ! row)]\<rparr>"
  have len: "length (pf_data pf1) = MAX_THREAD_NUM" using ok1 by (simp add: pf_ok_def)
  have good: "row_good (pf_data pf1 ! row)" using ok1 row len by (simp add: pf_ok_def)
  have below: "row < card (dom (pf_tls pf1))" using ok1 own by (auto simp: pf_ok_def ran_def)
  have rows: "\<forall>r \<in> set (pf_data ?pf'). row_good r" using ok1 f [OF good] set_update_subset_insert [of "pf_data pf1" row] by (auto simp: pf_ok_def)
  have "pf_data ?pf' ! i = padded []" if "card (dom (pf_tls pf1)) \<le> i" "i < MAX_THREAD_NUM" for i
    using ok1 that below by (simp add: pf_ok_def)
  then have ok': "pf_ok ?pf'" using ok1 rows by (simp add: pf_ok_def)
  have other: "x = t" if "pf_tls pf1 x = Some row" for x using ok1 own that inj_onD [of "pf_tls pf1" "dom (pf_tls pf1)" x t] by (simp add: pf_ok_def domI)
  have mine: "abs_profiler ?pf' t = g (abs_profiler pf1 t)" using own f [OF good] row len by (simp add: abs_profiler_def)
  have "abs_profiler ?pf' x = abs_profiler pf1 x" if "x \<noteq> t" for x
  proof (cases "pf_tls pf1 x")
    case (Some r)
    then have "r \<noteq> row" using other [of x] that by blast
    then show ?thesis using Some by (simp add: abs_profiler_def)
  qed (simp add: abs_profiler_def)
  then have "abs_profiler ?pf' = (abs_profiler pf)(t := g (abs_profiler pf t))" using mine unfolding a by (intro ext) simp
  moreover have "in_row t f pf = Inr ?pf'" by (simp add: in_row_def get)
  moreover have "dom (pf_tls ?pf') = insert t (dom (pf_tls pf))" using d by simp
  ultimately show ?thesis using ok' by blast
qed

lemma ProfileReset_ok:
  assumes ok: "pf_ok pf"
  shows "pf_ok (ProfileReset pf) \<and> pf_tls (ProfileReset pf) = pf_tls pf \<and> abs_profiler (ProfileReset pf) = (\<lambda>t. spec_reset (abs_profiler pf t))"
proof -
  have blankreset: "row_reset (padded []) = padded []" by (simp add: padded_def PROFILE_DATA_NUM_def blank_data_def numeral_eq_Suc)
  have data: "pf_data (ProfileReset pf) ! i = row_reset (pf_data pf ! i)" if "i < length (pf_data pf)" for i
    using ok that blankreset by (auto simp: ProfileReset_def pf_ok_def)
  have len: "length (pf_data (ProfileReset pf)) = length (pf_data pf)" by (simp add: ProfileReset_def)
  have same: "pf_tls (ProfileReset pf) = pf_tls pf" "pf_index (ProfileReset pf) = pf_index pf" by (simp_all add: ProfileReset_def)
  have good: "row_good (pf_data pf ! i)" if "i < length (pf_data pf)" for i using ok that by (simp add: pf_ok_def)
  have "\<forall>row \<in> set (pf_data (ProfileReset pf)). row_good row"
    using data good len row_reset_refines by (auto simp: in_set_conv_nth)
  then have "pf_ok (ProfileReset pf)" using ok data blankreset len by (simp add: pf_ok_def same)
  moreover have "abs_profiler (ProfileReset pf) t = spec_reset (abs_profiler pf t)" for t
  proof (cases "pf_tls pf t")
    case None
    then show ?thesis by (simp add: abs_profiler_def same spec_reset_def)
  next
    case (Some r)
    then have "r < length (pf_data pf)" using ok by (fastforce simp: pf_ok_def ran_def)
    then show ?thesis using Some data good row_reset_refines by (simp add: abs_profiler_def same)
  qed
  ultimately show ?thesis using same by auto
qed

lemma profile_step_ok:
  assumes "pf_ok pf" "op_ok op" "card (op_threads op \<union> dom (pf_tls pf)) \<le> MAX_THREAD_NUM"
  shows "\<exists>pf'. profile_step op pf = Inr pf' \<and> pf_ok pf' \<and> dom (pf_tls pf') = op_threads op \<union> dom (pf_tls pf) \<and>
    abs_profiler pf' = spec_step op (abs_profiler pf)"
proof (cases op)
  case (PBegin t name tick)
  then show ?thesis
    using in_row_ok [OF assms(1), of t "row_begin name tick" "spec_begin name tick"] row_begin_refines [of _ name tick] assms(2,3)
    by (simp add: ProfileBegin_def)
next
  case (PEnd t name tick)
  then show ?thesis
    using in_row_ok [OF assms(1), of t "row_end name tick" "spec_end name tick"] row_end_refines [of _ name tick] assms(3)
    by (simp add: ProfileEnd_def)
next
  case PReset
  then show ?thesis using ProfileReset_ok [OF assms(1)] by simp
qed

lemma profile_run_ok:
  assumes "pf_ok pf" "\<forall>op \<in> set ops. op_ok op" "card (threads ops \<union> dom (pf_tls pf)) \<le> MAX_THREAD_NUM"
  shows "\<exists>pf'. profile_run ops pf = Inr pf' \<and> pf_ok pf' \<and> abs_profiler pf' = fold spec_step ops (abs_profiler pf)"
  using assms
proof (induction ops arbitrary: pf)
  case Nil
  then show ?case by simp
next
  case (Cons op ops)
  have all: "threads (op # ops) \<union> dom (pf_tls pf) = threads ops \<union> (op_threads op \<union> dom (pf_tls pf))" by (auto simp: threads_def)
  have fin: "finite (threads (op # ops) \<union> dom (pf_tls pf))"
  proof -
    have "finite (op_threads x)" for x by (cases x) simp_all
    then show ?thesis using Cons.prems(1) by (simp add: threads_def pf_ok_def)
  qed
  then have "card (op_threads op \<union> dom (pf_tls pf)) \<le> MAX_THREAD_NUM"
    using Cons.prems(3) card_mono [OF fin, of "op_threads op \<union> dom (pf_tls pf)"] unfolding all by simp
  then obtain pf1 where "profile_step op pf = Inr pf1" "pf_ok pf1" "dom (pf_tls pf1) = op_threads op \<union> dom (pf_tls pf)"
      "abs_profiler pf1 = spec_step op (abs_profiler pf)"
    using profile_step_ok [OF Cons.prems(1), of op] Cons.prems(2) by auto
  then show ?case using Cons.IH [of pf1] Cons.prems(2,3) all by simp
qed

lemma abs_ctor: "abs_profiler Profiler_ctor = (\<lambda>_. Map.empty)"
  by (simp add: abs_profiler_def Profiler_ctor_def fun_eq_iff)

text \<open>C36: The profiler computes, for each thread, a map from names to statistics: for every sequence of begins, ends and resets by
  at most twenty threads, with names of 1 to 127 characters, no write leaves the table, and what the table holds for each
  thread is what the begins and ends of that thread (and the resets) make of an empty map.\<close>

theorem profiler_refines:
  assumes "card (threads ops) \<le> MAX_THREAD_NUM" "\<forall>op \<in> set ops. op_ok op"
  shows "\<exists>pf. profile_run ops Profiler_ctor = Inr pf \<and> abs_profiler pf = fold spec_step ops (\<lambda>_. Map.empty)"
proof -
  have "dom (pf_tls Profiler_ctor) = {}" by (simp add: Profiler_ctor_def)
  then show ?thesis using profile_run_ok [OF pf_ok_ctor assms(2)] assms(1) by (auto simp: abs_ctor)
qed

theorem profiler_refines_witness:
  "\<exists>pf. profile_run [PBegin 1 ''a'' 5, PEnd 1 ''a'' 9, PReset, PEnd 2 ''b'' 7] Profiler_ctor = Inr pf \<and>
     abs_profiler pf = fold spec_step [PBegin 1 ''a'' 5, PEnd 1 ''a'' 9, PReset, PEnd 2 ''b'' 7] (\<lambda>_. Map.empty)"
  by (rule profiler_refines) (simp_all add: threads_def name_ok_def PROFILE_NAME_LEN_def MAX_THREAD_NUM_def)

lemma thread_21_overruns:
  assumes "pf_ok pf" "card (dom (pf_tls pf)) = MAX_THREAD_NUM" "pf_tls pf t = None"
  shows "ProfileBegin t name tick pf = Inl WriteOverrun" "ProfileEnd t name tick pf = Inl WriteOverrun"
proof -
  have "Profiler_Get t pf = Inl WriteOverrun"
    using assms next_index [of "pf_index pf" "MAX_THREAD_NUM"] by (simp add: pf_ok_def Profiler_Get_def Let_def)
  then show "ProfileBegin t name tick pf = Inl WriteOverrun" "ProfileEnd t name tick pf = Inl WriteOverrun"
    by (simp_all add: ProfileBegin_def ProfileEnd_def in_row_def)
qed

lemma long_name_not_found:
  assumes "\<forall>d \<in> set row. length (pd_name d) < PROFILE_NAME_LEN" "PROFILE_NAME_LEN \<le> length name"
  shows "begin_known name now row = None" "row_end name tick row = row"
  using assms by (induction row) auto

text \<open>The first measurements are never counted: a time above the kept maximum replaces it, and the old maximum is lost.\<close>

lemma measured_max_replaced:
  assumes "\<not> pd_resetFlag d" "fst (pd_max d) < ucast tick - pd_startTime d"
  shows "measured tick d = d\<lparr>pd_max := (ucast tick - pd_startTime d, snd (pd_max d))\<rparr>"
  using assms by (simp add: measured_def VaildateData_def Let_def split_beta)

section \<open>Load and counters\<close>

definition deltas_ok :: "MachineCpuMonitor \<Rightarrow> u64 \<Rightarrow> u64 \<Rightarrow> u64 \<Rightarrow> bool" where
  "deltas_ok m idle kern user \<longleftrightarrow> mm_prevIdleTime m \<le> idle \<and> mm_prevKernelTime m \<le> kern \<and> mm_prevUserTime m \<le> user \<and>
     idle - mm_prevIdleTime m \<le> kern - mm_prevKernelTime m \<and>
     unat (kern - mm_prevKernelTime m) + unat (user - mm_prevUserTime m) < 2 ^ 64"

text \<open>The processor load of the machine: when the times of the system do not run backwards, the idle time is part of the kernel time
  and the sum fits into 64 bits, the load after an update is the load of the user part plus that of the kernel part, each of them is
  at least 0, the total is at most 100, and the times are kept for the next update.\<close>

lemma machine_load_bounds:
  assumes "deltas_ok m idle kern user"
  shows "let m' = Machine_UpdateCpuUsage (Some (idle, kern, user)) m; l = mm_load m' in
    cl_total l = cl_user l + cl_kernel l \<and> 0 \<le> cl_user l \<and> 0 \<le> cl_kernel l \<and> cl_total l \<le> 100 \<and>
    mm_prevIdleTime m' = idle \<and> mm_prevKernelTime m' = kern \<and> mm_prevUserTime m' = user"
proof -
  define i k u where d: "i = idle - mm_prevIdleTime m" "k = kern - mm_prevKernelTime m" "u = user - mm_prevUserTime m"
  have le: "unat i \<le> unat k" and fit: "unat k + unat u < 2 ^ 64" using assms by (simp_all add: deltas_ok_def d word_le_nat_alt)
  have t: "unat (k + u) = unat k + unat u" using fit by (simp add: unat_word_ariths)
  have ki: "unat (k - i) = unat k - unat i" using le by (simp add: unat_sub word_le_nat_alt)
  have ti: "unat (k + u - i) = unat k + unat u - unat i" using le t by (simp add: unat_sub word_le_nat_alt)
  show ?thesis
  proof (cases "k + u = 0")
    case True
    then show ?thesis by (simp add: Machine_UpdateCpuUsage_def Let_def d)
  next
    case False
    let ?T = "real (unat (k + u))" and ?l = "mm_load (Machine_UpdateCpuUsage (Some (idle, kern, user)) m)"
    have pos: "0 < ?T" using False by (simp only: of_nat_0_less_iff unat_gt_0 not_False_eq_True simp_thms)
    have parts: "cl_total ?l = real (unat (k + u - i)) / ?T * 100" "cl_user ?l = real (unat u) / ?T * 100" "cl_kernel ?l = real (unat (k - i)) / ?T * 100"
      using False by (simp_all only: Machine_UpdateCpuUsage_def Let_def d option.case prod.case if_False not_False_eq_True simp_thms) simp_all
    have "real (unat (k + u - i)) = real (unat u) + real (unat (k - i))" using le ti ki by linarith
    then have sum: "cl_total ?l = cl_user ?l + cl_kernel ?l" by (simp only: parts add_divide_distrib distrib_right)
    have "real (unat (k + u - i)) \<le> ?T" using ti t by linarith
    then have "real (unat (k + u - i)) / ?T \<le> 1" using pos by (simp only: divide_le_eq_1_pos)
    then have "cl_total ?l \<le> 100" unfolding parts using mult_right_mono [of _ 1 "100 :: real"] by fastforce
    moreover have "0 \<le> cl_user ?l" "0 \<le> cl_kernel ?l" unfolding parts by (simp_all only: zero_le_mult_iff zero_le_divide_iff of_nat_0_le_iff zero_le_numeral simp_thms)
    ultimately show ?thesis using sum by (simp add: Let_def) (simp add: Machine_UpdateCpuUsage_def Let_def)
  qed
qed

lemma machine_load_example:
  "let m = MachineCpuMonitor_ctor 4 None; m' = Machine_UpdateCpuUsage (Some (30, 80, 20)) m; l = mm_load m' in
    cl_total l = cl_user l + cl_kernel l \<and> 0 \<le> cl_user l \<and> 0 \<le> cl_kernel l \<and> cl_total l \<le> 100 \<and> mm_prevUserTime m' = 20 \<and> cl_total l = 70"
proof -
  have "deltas_ok (MachineCpuMonitor_ctor 4 None) 30 80 20" by (simp add: deltas_ok_def MachineCpuMonitor_ctor_def Machine_UpdateCpuUsage_def)
  from machine_load_bounds [OF this] show ?thesis
    by (simp add: Let_def MachineCpuMonitor_ctor_def Machine_UpdateCpuUsage_def)
qed

lemma process_handle_dropped: "pm_h_process (ProcessCpuMonitor_ctor (Some h) current cores t k u) = None"
  by (simp add: ProcessCpuMonitor_ctor_def Process_UpdateCpuUsage_def Let_def)

lemma ethernet_loop_ok:
  assumes "names \<noteq> []" "i + length names \<le> length es" "length es = MAX_ETHERNET" "\<forall>n \<in> set names. length n < 128"
  shows "ethernet_loop i names es = Inr (take i es @ map (\<lambda>n. \<lparr>et_isUse = True, et_name = n\<rparr>) names @ drop (i + length names) es)"
  using assms
proof (induction names arbitrary: i es)
  case Nil
  then show ?case by simp
next
  case (Cons n names)
  show ?case
  proof (cases "names = []")
    case True
    then show ?thesis using Cons.prems by (simp add: upd_conv_take_nth_drop Let_def)
  next
    case False
    then have "\<not> MAX_ETHERNET \<le> i" using Cons.prems by simp
    then show ?thesis using False Cons.prems Cons.IH [of "Suc i" "es[i := \<lparr>et_isUse = True, et_name = n\<rparr>]"]
      by (simp add: Let_def take_Suc_conv_app_nth)
  qed
qed

text \<open>With more than ten interfaces the eleventh is written behind the array: the test comes after the write.\<close>

lemma eleventh_interface_overruns:
  assumes "i + length names > MAX_ETHERNET" "i \<le> MAX_ETHERNET" "length es = MAX_ETHERNET" "\<forall>n \<in> set names. length n < 128"
  shows "ethernet_loop i names es = Inl WriteOverrun"
  using assms
proof (induction names arbitrary: i es)
  case Nil
  then show ?case by simp
next
  case (Cons n names)
  show ?case
  proof (cases "i = MAX_ETHERNET")
    case True
    then show ?thesis using Cons.prems by simp
  next
    case False
    then have "names \<noteq> []" "\<not> MAX_ETHERNET \<le> i" using Cons.prems by auto
    then show ?thesis using Cons.prems Cons.IH [of "Suc i" "es[i := \<lparr>et_isUse = True, et_name = n\<rparr>]"] by (simp add: Let_def)
  qed
qed

lemma net_loop_bytes:
  "pc_recvBytes (net_loop pv i es c) = pc_recvBytes c + (\<Sum>j < length (takeWhile et_isUse es). pv_recv pv (i + j))"
  "pc_sendBytes (net_loop pv i es c) = pc_sendBytes c + (\<Sum>j < length (takeWhile et_isUse es). pv_send pv (i + j))"
  by (induction pv i es c rule: net_loop.induct) (simp_all add: sum.lessThan_Suc_shift add.assoc del: sum.lessThan_Suc)

end
