(* ===== verification/Spec2Isabelle.thy ===== *)
theory Spec2Isabelle
  imports Client ProtocolBuffer LFQueue TLSPool GameServer OnceInit RecursiveLock ThreadPool IOCPManager Parser Crypto StressClient Monitors
begin

text \<open>
  \<^bold>\<open>JunCore.\<close> A server core for online games on Windows (\<^verbatim>\<open>src/JunCore\<close>): a library of containers, pools and helpers (\<^verbatim>\<open>JunCommon\<close>), the
  network engine and the game logic on it (\<^verbatim>\<open>JunCore\<close>), and programs: game server, echo server, stress test client.

  \<^bold>\<open>How the parts work together.\<close> An application calls \<open>User::SendPacket\<close>; the session serialises the message behind an eight byte header, queues it and keeps one
  \<open>WSASend\<close> outstanding. Workers of the I/O core take completions: a receive completion advances the ring
  buffer of the session, cuts complete packets out of it and gives each payload to the handler that the engine registered for its type. The
  handlers of the game server post jobs to game objects. Every job object belongs to a job thread and runs its jobs one at a time; a
  game thread runs job objects and then updates its scenes in fixed steps. Players move through a component, and events tell the
  subscribers. The logger is used everywhere and left out of the other models.

  \<^bold>\<open>Theories.\<close> Each models the files named at its head, one definition per function or class, under the name of the source where that is free:

  \<^item> \<open>Prelude\<close>: machine types of the target, faults (\<open>Inl\<close> of an access outside an object, a null or dangling pointer, a failed crash check), \<open>rbind\<close> and \<open>xbind\<close>, slices.
  \<^item> \<open>RingBuffer\<close>, \<open>ProtocolBuffer\<close>: receive ring and typed buffer. Both refine lists of bytes (\<open>ring_stream_integrity\<close>, \<open>protocol_buffer_roundtrip\<close>).
  \<^item> \<open>LFObjectPool\<close>, \<open>TLSPool\<close>, \<open>LFStack\<close>, \<open>LFQueue\<close>: pools and containers with stamped pointers in 64-bit words. No object is handed out twice, stack and queue are lists, and all their retry loops return.
  \<^item> \<open>CoreBase\<close>, \<open>PacketHeader\<close>: hashes, wire format, dispatch (\<open>packet_roundtrip\<close>, \<open>dispatch_meets_spec\<close>).
  \<^item> \<open>Session\<close>, \<open>NetBase\<close>, \<open>IOCP\<close>, \<open>SendPath\<close>: a connection, the handler table, completions of receives and sends. The packets delivered are those of the byte stream, however it is cut (\<open>packet_assembly\<close>, \<open>fragmentation_independent\<close>); the bytes sent are the accepted packets in order (\<open>send_stream_integrity\<close>).
  \<^item> \<open>Server\<close>, \<open>Client\<close>, \<open>IOCPManager\<close>: start, stop, accept, connect, reconnect, and the life of the I/O core with its byte rates. Failing starts are undone, connections are accounted for.
  \<^item> \<open>JobObject\<close>, \<open>Event\<close>, \<open>GameLogic\<close>: job objects over all interleavings (one job at a time, in order, none forgotten), events, scenes, objects, job and game threads.
  \<^item> \<open>Entity\<close>, \<open>MoveComponent\<close>, \<open>Player\<close>, \<open>GameServer\<close>: components, movement, the player and the request handlers. For any sequence of connections, requests, disconnects and thread rounds no handler faults and every request has its answer; moving to the scene one is in is the exception, and is shown to leave a dangling pointer.
  \<^item> \<open>OnceInit\<close>, \<open>RecursiveLock\<close>, \<open>ThreadPool\<close>: one-time initialisation and recursive lock over all interleavings; job queue and pool.
  \<^item> \<open>LogRing\<close>, \<open>Logger\<close>: the ring of the asynchronous logger over all interleavings, formatting, rotation of the files.
  \<^item> \<open>Parser\<close>, \<open>Crypto\<close>, \<open>Monitors\<close>: configuration files, AES and RSA over OpenSSL, profiler and load monitors.
  \<^item> \<open>StressClient\<close>: the stress test client against the echo server, over all interleavings.
  \<^item> This theory: the way of a message from one application to the other (\<open>messages_end_to_end\<close>), which joins \<open>SendPath\<close>, \<open>IOCP\<close>, \<open>NetBase\<close> and \<open>PacketHeader\<close>.

  \<^bold>\<open>State and effects.\<close> Objects are records, passed and returned; memory that is shared is a map from addresses. Calls of the operating system are recorded
  in the state and their results are arguments. Errors are values of a sum type, one constructor for each way to fail; every raise and early
  return of the code is a branch. Integers have the width of the code and wrap around. Concurrency is a step relation with one
  step for each access to shared data where the code relies on it (job objects, one-time initialisation, recursive lock, log ring, stress client);
  elsewhere the code serialises the accesses (one receive and one send outstanding for a connection, one thread for a scene) and the operations are functions. The
  lock-free containers are functions, too: each operation is followed as if no other ran at the same time, so nothing is shown of contention on them.

  \<^bold>\<open>Interfaces.\<close> \<open>byte_queue\<close> (a bounded queue of bytes; interpreted as \<open>ring\<close> on the ring buffer), \<open>byte_stream\<close> (typed values in order; \<open>pbs\<close> on the protocol buffer),
  \<open>object_pool\<close> (exclusive hand-out; \<open>lfpool\<close> and \<open>stpool\<close> on the two pools, used by the chunk pool), \<open>container\<close> (a list behind push, pop
  and count; \<open>lfstack\<close> and \<open>lfqueue\<close>). The lemmas on whole sequences of calls are proved once in each locale. Laws of code that is
  not in the repository are hypotheses by name: \<open>proto_law\<close> (protobuf parses what it serialised), \<open>allocator_ok\<close> (\<open>new\<close> returns fresh application addresses), the laws of the OpenSSL calls
  in \<open>Crypto\<close>; each has a witness with a concrete function.

  \<^bold>\<open>Loops.\<close> Retry loops of the lock-free containers are partial functions whose value \<open>None\<close> means that they do not return; it is proved that they return. Job
  rounds (\<open>GameLogic\<close>), the search for a free log file (\<open>Logger\<close>) and the word search (\<open>Parser\<close>) take fuel; the properties state that some or a computed amount is
  enough: a unit for each job and object for the rounds, a unit for each name tried for the log file, the length of the file for the parser.
  The packet loop of a receive completion has the bound 1000 of the code itself.

  \<^bold>\<open>Not modelled.\<close> Generated protobuf messages (not in the repository); OpenSSL, Windows and the standard library beyond what the code uses of them; wait
  policies and \<open>WSAInitializer\<close>, which forward to modelled code; crash dumps, string conversion, console programs and test programs (input and output only); the
  report file of the profiler; the monitor thread of the stress test, which only prints. Floating point numbers are bit patterns
  with their arithmetic as an argument (game time, movement), or real numbers before rounding (loads). Waiting, time-outs and log
  output inside other components are left out.
\<close>

section \<open>From one application to the other\<close>

lemma frames_of_frames:
  assumes "\<forall>p \<in> set ps. length (snd p) \<le> 4194296"
  shows "frames (concat (map frame_bytes ps)) = (ps, [], True)"
  using frames_concat [OF assms, of "[]"] by (simp add: frames_short)

text \<open>A handler that parses the payload and passes the message on.\<close>

definition parse_handler :: "'m proto \<Rightarrow> ('m \<Rightarrow> 'a \<Rightarrow> 'a) \<Rightarrow> addr \<Rightarrow> byte list \<Rightarrow> 'a \<Rightarrow> 'a" where
  "parse_handler P f user payload a = (case ParseFromArray P payload of None \<Rightarrow> a | Some m \<Rightarrow> f m a)"

lemma app_deliver_messages:
  assumes "gs pid = Some (parse_handler P f)" "\<And>m. ParseFromArray P (enc m) = Some m"
  shows "app_deliver gs user (map (\<lambda>m. (pid, enc m)) ms) a = fold f ms a"
  by (induction ms arbitrary: a) (simp_all add: assms parse_handler_def)

lemma sent_frames:
  assumes "xs @ ys = map (\<lambda>m. frame_bytes (pid, enc m)) ms"
  shows "xs = map frame_bytes (map (\<lambda>m. (pid, enc m)) (take (length xs) ms))"
proof -
  have "xs = take (length xs) (map (\<lambda>m. frame_bytes (pid, enc m)) ms)" using assms by (metis append_eq_conv_conj)
  also have "\<dots> = map frame_bytes (map (\<lambda>m. (pid, enc m)) (take (length xs) ms))" by (simp add: take_map)
  finally show ?thesis .
qed

text \<open>C5: What one application sends the other receives. Over any sequence of \<open>SendPacket\<close> calls and send
  completions on one connection, and any cutting of the bytes handed to the socket into receive
  completions at the other end (each fitting into its buffer), the handler registered there for the
  message type gets exactly the accepted messages whose packets were handed to the socket, parsed back,
  in the order of the calls, and the receive buffer is empty afterwards.\<close>

theorem messages_end_to_end:
  assumes "send_inv 0 st" "no_idle_backlog st" "IO_RECV \<in> set (se_ios (cn_sess st))" "sent_stream st = []" "queued st = []"
    and "\<And>m. proto_law P m (enc m) \<and> length (enc m) \<le> 4194296" "PACKET_ID P = Inr pid"
    and "send_run env P es st = Inr (ms, st')" "concat cs = concat (sent_stream st')" "pieces_fit [] cs"
    and "RB_inv (se_recv_buf (cn_sess rst))" "rb_contents (se_recv_buf (cn_sess rst)) = []"
    and "se_engine (cn_sess rst) = Some e" "se_owner_user (cn_sess rst) = Some user"
    and "gs pid = Some (parse_handler P f)"
  shows "\<exists>rst'. recv_pieces (lift_handlers gs) r now cs rst = Inr rst' \<and>
    cn_app rst' = fold f (take (length (sent_stream st')) ms) (cn_app rst) \<and> rb_contents (se_recv_buf (cn_sess rst')) = []"
proof -
  let ?n = "length (sent_stream st')" and ?frame = "\<lambda>m. frame_bytes (pid, enc m)"
  have "sent_stream st' @ queued st' = map ?frame ms"
    using send_run_stream [OF assms(1-3,6,7), of env es] assms(4,5,8) by auto
  then have s: "sent_stream st' = map frame_bytes (map (\<lambda>m. (pid, enc m)) (take ?n ms))" by (rule sent_frames)
  have "frames (concat cs) = (map (\<lambda>m. (pid, enc m)) (take ?n ms), [], True)"
    unfolding assms(9) by (subst s, rule frames_of_frames) (use assms(6) in auto)
  moreover have "ParseFromArray P (enc m) = Some m" for m using assms(6) [of m] by (simp add: proto_law_def)
  ultimately show ?thesis
    using recv_pieces_frames [OF assms(11,13,14), of cs "map (\<lambda>m. (pid, enc m)) (take ?n ms)" "[]" True gs r now]
      assms(10,12) app_deliver_messages [of gs pid P f enc user "take ?n ms"] assms(15)
    by (auto simp: frames_short)
qed

lemma one_frame:
  assumes "length (snd p) \<le> 8183"
  shows "frames (frame_bytes p) = ([p], [], True)"
  using frames_of_frames [of "[p]"] assms by simp

lemma pieces_fit_frames:
  assumes "\<forall>p \<in> set ps. length (snd p) \<le> 8183"
  shows "pieces_fit [] (map frame_bytes ps)"
  using assms
proof (induction ps)
  case (Cons p ps)
  then have p: "length (snd p) \<le> 8183" and ps: "pieces_fit [] (map frame_bytes ps)" by simp_all
  show ?case using p ps by (simp add: one_frame)
qed simp

theorem messages_end_to_end_witness:
  "\<exists>pid ms st' rst'. send_run quiet_env tiny_proto [SendMsg True WsaPending, SendMsg False WsaPending, SendDone 9 WsaPending] busy_conn = Inr (ms, st') \<and>
    recv_pieces (lift_handlers [pid \<mapsto> parse_handler tiny_proto (\<lambda>m a. a + 1)]) WsaPending 0 (sent_stream st') (idle_conn 0) = Inr rst' \<and>
    cn_app rst' = fold (\<lambda>m a. a + 1) (take (length (sent_stream st')) ms) (0 :: nat)"
proof -
  let ?es = "[SendMsg True WsaPending, SendMsg False WsaPending, SendDone 9 WsaPending]"
  let ?enc = "\<lambda>m. [if m then 1 else (0 :: byte)]"
  obtain pid where pid: "PACKET_ID tiny_proto = Inr pid"
    using PACKET_ID_total tiny_proto_law by (auto simp: proto_law_def)
  obtain ms st' where run: "send_run quiet_env tiny_proto ?es busy_conn = Inr (ms, st')"
      and str: "sent_stream st' @ queued st' = map (\<lambda>m. frame_bytes (pid, ?enc m)) ms"
    using send_run_stream [OF busy_conn_inv(1-3) tiny_proto_law pid, of quiet_env ?es] busy_conn_inv(4,5) by auto
  have "pieces_fit [] (map frame_bytes (map (\<lambda>m. (pid, ?enc m)) (take (length (sent_stream st')) ms)))"
    by (rule pieces_fit_frames) auto
  then have fit: "pieces_fit [] (sent_stream st')" unfolding sent_frames [OF str, symmetric] .
  have g: "[pid \<mapsto> parse_handler tiny_proto (\<lambda>m a. a + 1)] pid = Some (parse_handler tiny_proto (\<lambda>m (a :: nat). a + 1))" by simp
  have rs: "RB_inv (se_recv_buf (cn_sess (idle_conn (0 :: nat))))" "rb_contents (se_recv_buf (cn_sess (idle_conn (0 :: nat)))) = []"
      "se_engine (cn_sess (idle_conn (0 :: nat))) = Some 1" "se_owner_user (cn_sess (idle_conn (0 :: nat))) = Some 9"
    using fresh_ring_inv by simp_all
  from messages_end_to_end [where st = busy_conn and P = tiny_proto and enc = ?enc and pid = pid and rst = "idle_conn 0"
      and gs = "[pid \<mapsto> parse_handler tiny_proto (\<lambda>m a. a + 1)]" and f = "\<lambda>m a. a + 1",
      OF busy_conn_inv tiny_proto_law pid run refl fit rs g, of WsaPending 0]
  obtain rst' where "recv_pieces (lift_handlers [pid \<mapsto> parse_handler tiny_proto (\<lambda>m a. a + 1)]) WsaPending 0 (sent_stream st') (idle_conn 0) = Inr rst'"
      "cn_app rst' = fold (\<lambda>m a. a + 1) (take (length (sent_stream st')) ms) (0 :: nat)"
    by (metis idle_conn_simps(4))
  with run show ?thesis by blast
qed

end
